(* ===== verification/Xv6_Prelude.thy ===== *)
theory Xv6_Prelude
  imports Main "HOL-Library.Word"
begin

text \<open>
  Shared vocabulary of the development: the machine integers of \<^verbatim>\<open>kernel/types.h\<close>,
  the outcome of a kernel operation (it returns, panics, sleeps on a channel, or runs out of
  the fuel given to a loop), the state monad over that outcome with a total-correctness triple,
  little-endian codecs between words and bytes, byte-addressed memory, and the
  ``first slot that satisfies a test'' search which most of the kernel's allocators are.
\<close>

unbundle bit_operations_syntax

named_theorems kmonad \<open>evaluation rules of the kernel monad\<close>
named_theorems kwp \<open>introduction rules for total-correctness triples\<close>
named_theorems page_arith \<open>facts on page-aligned addresses\<close>

section \<open>Machine integers\<close>

text \<open>\<^verbatim>\<open>kernel/types.h\<close>; C's \<open>int\<close> is a 32-bit word read with \<^const>\<open>sint\<close>.\<close>

type_synonym u8 = "8 word"
type_synonym u16 = "16 word"
type_synonym u32 = "32 word"
type_synonym u64 = "64 word"

section \<open>Outcomes and the kernel monad\<close>

text \<open>The addresses the kernel sleeps on, by what they are the address of.\<close>

datatype chan =
    Chan_proc nat
  | Chan_ticks
  | Chan_log
  | Chan_buf_lock nat
  | Chan_inode_lock nat
  | Chan_buf nat
  | Chan_disk_free
  | Chan_pipe_read u64
  | Chan_pipe_write u64
  | Chan_uart_tx
  | Chan_cons

text \<open>
  \<open>Ret\<close> is a normal return, \<open>Panic\<close> the kernel's \<open>panic(s)\<close> (or a user program that stops
  with a message), \<open>Blocked c\<close> a call of \<open>sleep(c, ..)\<close> that does not come back within the
  operation, \<open>Diverge\<close> a loop that used up the fuel it was given.
\<close>

datatype 'a outcome = Ret 'a | Panic string | Blocked chan | Diverge

type_synonym ('s, 'a) kop = "'s \<Rightarrow> ('a \<times> 's) outcome"

definition kret :: "'a \<Rightarrow> ('s, 'a) kop" where
  "kret a = (\<lambda>s. Ret (a, s))"

definition kpanic :: "string \<Rightarrow> ('s, 'a) kop" where
  "kpanic e = (\<lambda>s. Panic e)"

definition kblock :: "chan \<Rightarrow> ('s, 'a) kop" where
  "kblock c = (\<lambda>s. Blocked c)"

definition kget :: "('s \<Rightarrow> 'a) \<Rightarrow> ('s, 'a) kop" where
  "kget f = (\<lambda>s. Ret (f s, s))"

definition kmod :: "('s \<Rightarrow> 's) \<Rightarrow> ('s, unit) kop" where
  "kmod f = (\<lambda>s. Ret ((), f s))"

definition obind :: "'a outcome \<Rightarrow> ('a \<Rightarrow> 'b outcome) \<Rightarrow> 'b outcome" where
  "obind r f = (case r of Ret a \<Rightarrow> f a | Panic e \<Rightarrow> Panic e | Blocked c \<Rightarrow> Blocked c | Diverge \<Rightarrow> Diverge)"

definition kbind :: "('s, 'a) kop \<Rightarrow> ('a \<Rightarrow> ('s, 'b) kop) \<Rightarrow> ('s, 'b) kop" where
  "kbind m f = (\<lambda>s. obind (m s) (\<lambda>(a, s'). f a s'))"

definition kseq :: "('s, 'a) kop \<Rightarrow> ('s, 'b) kop \<Rightarrow> ('s, 'b) kop" where
  "kseq m n = kbind m (\<lambda>_. n)"

definition kguard :: "bool \<Rightarrow> string \<Rightarrow> ('s, unit) kop" where
  "kguard b e = (if b then kret () else kpanic e)"

lemma obind_simps [simp, kmonad]:
  "obind (Ret a) f = f a"
  "obind (Panic e) f = Panic e"
  "obind (Blocked c) f = Blocked c"
  "obind Diverge f = Diverge"
  by (simp_all add: obind_def)

lemma obind_Ret_iff:
  "obind r f = Ret y \<longleftrightarrow> (\<exists>a. r = Ret a \<and> f a = Ret y)"
  by (cases r) auto

lemma kret_app [simp, kmonad]: "kret a s = Ret (a, s)"
  by (simp add: kret_def)

lemma kpanic_app [simp, kmonad]: "kpanic e s = Panic e"
  by (simp add: kpanic_def)

lemma kblock_app [simp, kmonad]: "kblock c s = Blocked c"
  by (simp add: kblock_def)

lemma kget_app [simp, kmonad]: "kget f s = Ret (f s, s)"
  by (simp add: kget_def)

lemma kmod_app [simp, kmonad]: "kmod f s = Ret ((), f s)"
  by (simp add: kmod_def)

lemma kbind_Ret [simp, kmonad]: "m s = Ret (a, s') \<Longrightarrow> kbind m f s = f a s'"
  by (simp add: kbind_def)

lemma kbind_Panic [simp, kmonad]: "m s = Panic e \<Longrightarrow> kbind m f s = Panic e"
  by (simp add: kbind_def)

lemma kbind_Blocked [simp, kmonad]: "m s = Blocked c \<Longrightarrow> kbind m f s = Blocked c"
  by (simp add: kbind_def)

lemma kseq_Ret [simp, kmonad]: "m s = Ret (a, s') \<Longrightarrow> kseq m n s = n s'"
  by (simp add: kseq_def)

lemma kseq_Panic [simp, kmonad]: "m s = Panic e \<Longrightarrow> kseq m n s = Panic e"
  by (simp add: kseq_def)

lemma kbind_Ret_iff:
  "kbind m f s = Ret y \<longleftrightarrow> (\<exists>a s'. m s = Ret (a, s') \<and> f a s' = Ret y)"
  by (simp add: kbind_def obind_Ret_iff split: prod.splits)

lemma kseq_Ret_iff:
  "kseq m n s = Ret y \<longleftrightarrow> (\<exists>a s'. m s = Ret (a, s') \<and> n s' = Ret y)"
  by (simp add: kseq_def kbind_Ret_iff)

lemma kguard_app [simp, kmonad]: "kguard b e s = (if b then Ret ((), s) else Panic e)"
  by (simp add: kguard_def)

subsection \<open>Total-correctness triples\<close>

text \<open>
  \<open>triple P m Q\<close>: from every state that satisfies \<open>P\<close> the operation returns (it does not
  panic, block or run out of fuel), and its result and final state satisfy \<open>Q\<close>.
\<close>

definition triple :: "('s \<Rightarrow> bool) \<Rightarrow> ('s, 'a) kop \<Rightarrow> ('a \<Rightarrow> 's \<Rightarrow> bool) \<Rightarrow> bool" where
  "triple P m Q \<longleftrightarrow> (\<forall>s. P s \<longrightarrow> (\<exists>a s'. m s = Ret (a, s') \<and> Q a s'))"

lemma tripleI: "(\<And>s. P s \<Longrightarrow> \<exists>a s'. m s = Ret (a, s') \<and> Q a s') \<Longrightarrow> triple P m Q"
  by (auto simp: triple_def)

lemma tripleE:
  assumes "triple P m Q" and "P s"
  obtains a s' where "m s = Ret (a, s')" and "Q a s'"
  using assms by (auto simp: triple_def)

lemma triple_conseq:
  "triple P m Q \<Longrightarrow> (\<And>s. P' s \<Longrightarrow> P s) \<Longrightarrow> (\<And>a s. Q a s \<Longrightarrow> Q' a s) \<Longrightarrow> triple P' m Q'"
  unfolding triple_def by metis

lemma triple_kret [kwp]: "triple (Q a) (kret a) Q"
  by (simp add: triple_def)

lemma triple_kget [kwp]: "triple (\<lambda>s. Q (f s) s) (kget f) Q"
  by (simp add: triple_def)

lemma triple_kmod [kwp]: "triple (\<lambda>s. Q () (f s)) (kmod f) Q"
  by (simp add: triple_def)

lemma triple_kbind [kwp]:
  "triple P m R \<Longrightarrow> (\<And>a. triple (R a) (f a) Q) \<Longrightarrow> triple P (kbind m f) Q"
  unfolding triple_def by (fastforce simp: kbind_Ret_iff)

lemma triple_kseq [kwp]:
  "triple P m R \<Longrightarrow> (\<And>a. triple (R a) n Q) \<Longrightarrow> triple P (kseq m n) Q"
  unfolding kseq_def by (rule triple_kbind)

section \<open>Little-endian codecs\<close>

text \<open>RISC-V is little-endian: the bytes of an integer in memory and on disk.\<close>

fun le_word :: "u8 list \<Rightarrow> 'a::len word" where
  "le_word [] = 0"
| "le_word (b # bs) = ucast b OR push_bit 8 (le_word bs)"

fun le_bytes :: "nat \<Rightarrow> 'a::len word \<Rightarrow> u8 list" where
  "le_bytes 0 w = []"
| "le_bytes (Suc n) w = ucast w # le_bytes n (drop_bit 8 w)"

lemma length_le_bytes [simp]: "length (le_bytes n w) = n"
  by (induction n arbitrary: w) simp_all

lemma le_word_bytes_take: "le_word (le_bytes n w) = (take_bit (8 * n) w :: 'a::len word)"
proof (induction n arbitrary: w)
  case (Suc n)
  show ?case
    unfolding le_bytes.simps le_word.simps Suc.IH
    by (rule bit_word_eqI) (auto simp: bit_simps)
qed simp

lemma le_word_bytes [simp]:
  "LENGTH('a) \<le> 8 * n \<Longrightarrow> le_word (le_bytes n w) = (w :: 'a::len word)"
  by (simp add: le_word_bytes_take take_bit_word_eq_self)

lemma drop_bit_ucast_u8: "drop_bit 8 (ucast (b :: u8) :: 'a::len word) = 0"
  by (rule bit_word_eqI) (auto simp: bit_simps dest: bit_imp_le_length)

lemma drop_push_bit_8:
  "drop_bit 8 (push_bit 8 (w :: 'a::len word)) = take_bit (LENGTH('a) - 8) w"
  by (rule bit_word_eqI) (auto simp: bit_simps)

lemma le_bytes_take_bit:
  "8 * n \<le> k \<Longrightarrow> le_bytes n (take_bit k (w :: 'a::len word)) = le_bytes n w"
proof (induction n arbitrary: w k)
  case (Suc n)
  have "ucast (take_bit k w) = (ucast w :: u8)"
    using Suc.prems by (intro bit_word_eqI) (auto simp: bit_simps)
  moreover have "drop_bit 8 (take_bit k w) = take_bit (k - 8) (drop_bit 8 w)"
    by (simp add: drop_bit_take_bit)
  moreover have "le_bytes n (take_bit (k - 8) (drop_bit 8 w)) = le_bytes n (drop_bit 8 w)"
    using Suc.prems by (intro Suc.IH) simp
  ultimately show ?case by simp
qed simp

lemma le_bytes_word [simp]:
  "length bs = n \<Longrightarrow> 8 * n \<le> LENGTH('a) \<Longrightarrow> le_bytes n (le_word bs :: 'a::len word) = bs"
proof (induction bs arbitrary: n)
  case (Cons b bs)
  then obtain m where n: "n = Suc m" and m: "length bs = m" by auto
  let ?w = "le_word bs :: 'a word"
  have "ucast (ucast b OR push_bit 8 ?w) = b"
    using Cons.prems n by (intro bit_word_eqI) (auto simp: bit_simps)
  moreover have "le_bytes m (take_bit (LENGTH('a) - 8) ?w) = bs"
    using Cons.prems n by (simp add: le_bytes_take_bit Cons.IH [OF m])
  ultimately show ?case
    using Cons.prems n by (simp add: drop_bit_ucast_u8 drop_push_bit_8)
qed simp

lemma le_word_zero [simp]: "le_word (replicate n 0) = 0"
  by (induction n) simp_all

section \<open>Byte-addressed memory\<close>

type_synonym memory = "u64 \<Rightarrow> u8"

text \<open>The \<open>n\<close> bytes from address \<open>a\<close>, and storing a list of bytes from address \<open>a\<close> on.\<close>

definition mem_bytes :: "memory \<Rightarrow> u64 \<Rightarrow> nat \<Rightarrow> u8 list" where
  "mem_bytes m a n = map (\<lambda>i. m (a + of_nat i)) [0..<n]"

definition mem_store :: "memory \<Rightarrow> u64 \<Rightarrow> u8 list \<Rightarrow> memory" where
  "mem_store m a bs = (\<lambda>x. if unat (x - a) < length bs then bs ! unat (x - a) else m x)"

text \<open>Loads and stores of a \<open>uint64\<close>, as the code does through a pointer.\<close>

definition ld64 :: "memory \<Rightarrow> u64 \<Rightarrow> u64" where
  "ld64 m a = le_word (mem_bytes m a 8)"

definition st64 :: "memory \<Rightarrow> u64 \<Rightarrow> u64 \<Rightarrow> memory" where
  "st64 m a v = mem_store m a (le_bytes 8 v)"

lemma length_mem_bytes [simp]: "length (mem_bytes m a n) = n"
  by (simp add: mem_bytes_def)

lemma nth_mem_bytes [simp]: "i < n \<Longrightarrow> mem_bytes m a n ! i = m (a + of_nat i)"
  by (simp add: mem_bytes_def)

lemma mem_store_Nil [simp]: "mem_store m a [] = m"
  by (simp add: mem_store_def)

lemma unat_of_nat_u64: "i < 2 ^ 64 \<Longrightarrow> unat (of_nat i :: u64) = i"
  by (simp add: unat_of_nat take_bit_nat_eq_self_iff take_bit_nat_eq_self)

lemma eq_add_of_nat_iff: "k < 2 ^ 64 \<Longrightarrow> x = a + of_nat k \<longleftrightarrow> unat (x - a :: u64) = k"
proof
  assume "k < 2 ^ 64" and "unat (x - a) = k"
  then have "of_nat (unat (x - a)) = (of_nat k :: u64)" by simp
  then have "x - a = of_nat k" by simp
  then show "x = a + of_nat k" by (metis add.commute diff_add_cancel)
qed (simp add: unat_of_nat_u64)

lemma mem_store_in:
  "i < length bs \<Longrightarrow> length bs \<le> 2 ^ 64 \<Longrightarrow> mem_store m a bs (a + of_nat i) = bs ! i"
  by (simp add: mem_store_def unat_of_nat_u64)

lemma mem_store_out: "length bs \<le> unat (x - a) \<Longrightarrow> mem_store m a bs x = m x"
  by (simp add: mem_store_def)

lemma mem_bytes_store_same:
  "length bs = n \<Longrightarrow> n \<le> 2 ^ 64 \<Longrightarrow> mem_bytes (mem_store m a bs) a n = bs"
  by (rule nth_equalityI) (simp_all add: mem_store_in)

lemma mem_bytes_store_other:
  "(\<And>i. i < n \<Longrightarrow> length bs \<le> unat (b + of_nat i - a)) \<Longrightarrow>
   mem_bytes (mem_store m a bs) b n = mem_bytes m b n"
  by (rule nth_equalityI) (simp_all add: mem_store_out)

lemma mem_bytes_cong:
  "(\<And>i. i < n \<Longrightarrow> m (a + of_nat i) = m' (a + of_nat i)) \<Longrightarrow> mem_bytes m a n = mem_bytes m' a n"
  by (rule nth_equalityI) simp_all

lemma ld64_st64_same [simp]: "ld64 (st64 m a v) a = v"
  by (simp add: ld64_def st64_def mem_bytes_store_same)

lemma ld64_zero [simp]: "ld64 (\<lambda>_. 0) a = 0"
  by (simp add: ld64_def mem_bytes_def map_replicate_const)

section \<open>First slot that satisfies a test\<close>

text \<open>
  The shape of the kernel's table scans: go up from slot 0 and stop at the first slot that
  passes the test.
\<close>

fun find_idx :: "('a \<Rightarrow> bool) \<Rightarrow> 'a list \<Rightarrow> nat option" where
  "find_idx P [] = None"
| "find_idx P (x # xs) = (if P x then Some 0 else map_option Suc (find_idx P xs))"

lemma find_idx_None: "find_idx P xs = None \<longleftrightarrow> (\<forall>x \<in> set xs. \<not> P x)"
  by (induction xs) auto

lemma find_idx_Some:
  "find_idx P xs = Some i \<longleftrightarrow> i < length xs \<and> P (xs ! i) \<and> (\<forall>j < i. \<not> P (xs ! j))"
proof (induction xs arbitrary: i)
  case (Cons x xs)
  show ?case
  proof (cases i)
    case (Suc k)
    have "(\<forall>j < Suc k. \<not> P ((x # xs) ! j)) \<longleftrightarrow> \<not> P x \<and> (\<forall>j < k. \<not> P (xs ! j))"
      by (auto simp: less_Suc_eq_0_disj)
    then show ?thesis using Suc Cons.IH [of k] by auto
  qed simp
qed simp

lemma find_idx_SomeD:
  assumes "find_idx P xs = Some i"
  shows "i < length xs" and "P (xs ! i)" and "\<And>j. j < i \<Longrightarrow> \<not> P (xs ! j)"
  using assms by (simp_all add: find_idx_Some)

lemma find_idx_total: "\<exists>x \<in> set xs. P x \<Longrightarrow> \<exists>i. find_idx P xs = Some i"
  by (cases "find_idx P xs") (auto simp: find_idx_None)

lemma map_list_update_same: "i < length xs \<Longrightarrow> f y = f (xs ! i) \<Longrightarrow> map f (xs[i := y]) = map f xs"
  by (metis list_update_id map_update)

section \<open>Transition systems with an invariant\<close>

text \<open>Interleaved executions: an invariant that holds initially and is kept by every step.\<close>

locale step_invariant =
  fixes init :: "'s \<Rightarrow> bool" and step :: "'s \<Rightarrow> 's \<Rightarrow> bool" and inv :: "'s \<Rightarrow> bool"
  assumes init_inv: "init s \<Longrightarrow> inv s"
    and step_inv: "inv s \<Longrightarrow> step s s' \<Longrightarrow> inv s'"
begin

lemma run_inv: "step\<^sup>*\<^sup>* s s' \<Longrightarrow> inv s \<Longrightarrow> inv s'"
  by (induction rule: rtranclp_induct) (auto dest: step_inv)

lemma reach_inv: "init s \<Longrightarrow> step\<^sup>*\<^sup>* s s' \<Longrightarrow> inv s'"
  using init_inv run_inv by blast

end

end
