(* ===== verification/Kstring.thy ===== *)
theory Kstring
  imports Xv6_Prelude
begin

text \<open>
  \<^verbatim>\<open>kernel/string.c\<close>. \<open>memset\<close>, \<open>memmove\<close> and \<open>memcmp\<close> act on the byte-addressed memory;
  the string functions take a C pointer as the function that gives \<open>p[i]\<close> (for a pointer into
  memory this is \<open>ptr_at m p\<close>). Each loop is recursion on the count the C loop decrements, in
  the order in which the C loop touches the bytes. The lemmas give the loops their meaning as
  one store of a list of bytes, whatever the overlap of source and destination.
\<close>

type_synonym cptr = "nat \<Rightarrow> u8"

definition ptr_at :: "memory \<Rightarrow> u64 \<Rightarrow> cptr" where
  "ptr_at m p = (\<lambda>i. m (p + of_nat i))"

section \<open>Definitions\<close>

primrec memset_loop :: "u64 \<Rightarrow> u32 \<Rightarrow> nat \<Rightarrow> memory \<Rightarrow> memory" where
  "memset_loop d c 0 m = m"
| "memset_loop d c (Suc i) m = (memset_loop d c i m)(d + of_nat i := ucast c)"

definition memset :: "u64 \<Rightarrow> u32 \<Rightarrow> u32 \<Rightarrow> memory \<Rightarrow> memory" where
  "memset d c n m = memset_loop d c (unat n) m"

primrec memcmp_loop :: "memory \<Rightarrow> u64 \<Rightarrow> u64 \<Rightarrow> nat \<Rightarrow> int" where
  "memcmp_loop m s1 s2 0 = 0"
| "memcmp_loop m s1 s2 (Suc n) =
     (if m s1 \<noteq> m s2 then uint (m s1) - uint (m s2) else memcmp_loop m (s1 + 1) (s2 + 1) n)"

definition memcmp :: "memory \<Rightarrow> u64 \<Rightarrow> u64 \<Rightarrow> u32 \<Rightarrow> int" where
  "memcmp m v1 v2 n = memcmp_loop m v1 v2 (unat n)"

primrec copy_fwd :: "nat \<Rightarrow> u64 \<Rightarrow> u64 \<Rightarrow> memory \<Rightarrow> memory" where
  "copy_fwd 0 d s m = m"
| "copy_fwd (Suc n) d s m = copy_fwd n (d + 1) (s + 1) (m(d := m s))"

primrec copy_bwd :: "nat \<Rightarrow> u64 \<Rightarrow> u64 \<Rightarrow> memory \<Rightarrow> memory" where
  "copy_bwd 0 d s m = m"
| "copy_bwd (Suc n) d s m = copy_bwd n (d - 1) (s - 1) (m(d - 1 := m (s - 1)))"

definition memmove :: "u64 \<Rightarrow> u64 \<Rightarrow> u32 \<Rightarrow> memory \<Rightarrow> memory" where
  "memmove d s n m =
     (if n = 0 then m
      else if s < d \<and> s + ucast n > d then copy_bwd (unat n) (d + ucast n) (s + ucast n) m
      else copy_fwd (unat n) d s m)"

definition memcpy :: "u64 \<Rightarrow> u64 \<Rightarrow> u32 \<Rightarrow> memory \<Rightarrow> memory" where
  "memcpy d s n m = memmove d s n m"

primrec strncmp :: "cptr \<Rightarrow> cptr \<Rightarrow> nat \<Rightarrow> int" where
  "strncmp p q 0 = 0"
| "strncmp p q (Suc n) =
     (if p 0 \<noteq> 0 \<and> p 0 = q 0 then strncmp (\<lambda>i. p (Suc i)) (\<lambda>i. q (Suc i)) n
      else uint (p 0) - uint (q 0))"

primrec zero_fill :: "nat \<Rightarrow> nat \<Rightarrow> cptr \<Rightarrow> cptr" where
  "zero_fill 0 i s = s"
| "zero_fill (Suc n) i s = zero_fill n (Suc i) (s(i := 0))"

primrec strncpy_loop :: "nat \<Rightarrow> nat \<Rightarrow> cptr \<Rightarrow> cptr \<Rightarrow> cptr" where
  "strncpy_loop 0 i t s = s"
| "strncpy_loop (Suc n) i t s =
     (if t i \<noteq> 0 then strncpy_loop n (Suc i) t (s(i := t i)) else zero_fill n (Suc i) (s(i := t i)))"

definition strncpy :: "cptr \<Rightarrow> cptr \<Rightarrow> int \<Rightarrow> cptr" where
  "strncpy s t n = strncpy_loop (nat n) 0 t s"

fun safestrcpy_loop :: "nat \<Rightarrow> nat \<Rightarrow> cptr \<Rightarrow> cptr \<Rightarrow> cptr" where
  "safestrcpy_loop 0 i t s = s(i := 0)"
| "safestrcpy_loop (Suc n) i t s =
     (if t i \<noteq> 0 then safestrcpy_loop n (Suc i) t (s(i := t i)) else s(i := t i, Suc i := 0))"

text \<open>The counter of the loop is what \<open>--n\<close> leaves, so it starts at \<open>n - 1\<close>.\<close>

definition safestrcpy :: "cptr \<Rightarrow> cptr \<Rightarrow> int \<Rightarrow> cptr" where
  "safestrcpy s t n = (if n \<le> 0 then s else safestrcpy_loop (nat n - 1) 0 t s)"

partial_function (option) strlen_from :: "cptr \<Rightarrow> nat \<Rightarrow> nat option" where
  "strlen_from s n = (if s n = 0 then Some n else strlen_from s (Suc n))"

definition strlen :: "cptr \<Rightarrow> nat option" where
  "strlen s = strlen_from s 0"

section \<open>Memory\<close>

lemma mem_store_Cons:
  assumes "length bs < 2 ^ 64"
  shows "mem_store m a (b # bs) = mem_store (m(a := b)) (a + 1) bs"
proof
  fix x :: u64
  show "mem_store m a (b # bs) x = mem_store (m(a := b)) (a + 1) bs x"
  proof (cases "x = a")
    case True
    have "unat (a - (a + 1)) = 2 ^ 64 - 1"
      by (simp add: unsigned_minus_1_eq_mask mask_eq_exp_minus_1)
    then show ?thesis using True assms by (simp add: mem_store_def)
  next
    case False
    then have "x - a \<noteq> 0" by simp
    then have "unat (x - a - 1) = unat (x - a) - 1" and "0 < unat (x - a)"
      by (simp_all add: unat_minus_one unat_gt_0)
    then have "unat (x - a) = Suc (unat (x - (a + 1)))"
      by (simp add: diff_diff_eq)
    then show ?thesis using False by (simp add: mem_store_def)
  qed
qed

lemma mem_store_snoc:
  assumes "length bs < 2 ^ 64"
  shows "mem_store m a (bs @ [b]) = (mem_store m a bs)(a + of_nat (length bs) := b)"
proof
  fix x :: u64
  note * = eq_add_of_nat_iff [OF assms, of x a]
  show "mem_store m a (bs @ [b]) x = ((mem_store m a bs)(a + of_nat (length bs) := b)) x"
    using * by (auto simp: mem_store_def nth_append)
qed

lemma mem_store_snoc_first:
  assumes "length bs < 2 ^ 64"
  shows "mem_store m a (bs @ [b]) = mem_store (m(a + of_nat (length bs) := b)) a bs"
proof -
  note * = eq_add_of_nat_iff [OF assms]
  show ?thesis
    by (rule ext) (auto simp: mem_store_def nth_append *)
qed

lemma mem_bytes_Suc: "mem_bytes m a (Suc n) = m a # mem_bytes m (a + 1) n"
proof -
  have "[0..<Suc n] = 0 # map Suc [0..<n]" by (simp add: map_Suc_upt upt_conv_Cons del: upt_Suc)
  then show ?thesis by (simp add: mem_bytes_def add.assoc)
qed

lemma mem_bytes_snoc: "mem_bytes m a (Suc n) = mem_bytes m a n @ [m (a + of_nat n)]"
  by (simp add: mem_bytes_def)

lemma memset_loop_store:
  "n \<le> 2 ^ 64 \<Longrightarrow> memset_loop d c n m = mem_store m d (replicate n (ucast c))"
proof (induction n)
  case (Suc n)
  then show ?case
    by (simp add: mem_store_snoc flip: replicate_append_same)
qed simp

lemma unat_u32_less: "unat (n :: u32) < 2 ^ 32"
  using unsigned_less [of n, where ?'a = nat] by simp

lemma memset_store: "memset d c n m = mem_store m d (replicate (unat n) (ucast c))"
  using unat_u32_less [of n] by (simp add: memset_def memset_loop_store)

lemma unat_add_of_nat: "unat (a :: u64) + i < 2 ^ 64 \<Longrightarrow> unat (a + of_nat i) = unat a + i"
  by (simp add: unat_word_ariths unat_of_nat_u64)

lemma mem_bytes_upd_notin:
  assumes "unat s + n \<le> 2 ^ 64" and "unat d < unat s \<or> unat s + n \<le> unat d"
  shows "mem_bytes (m(d := b)) s n = mem_bytes m s n"
proof (rule mem_bytes_cong)
  fix i assume i: "i < n"
  then have "unat (s + of_nat i) = unat s + i"
    using assms(1) by (intro unat_add_of_nat) simp
  then have "s + of_nat i \<noteq> d" using assms(2) i by auto
  then show "(m(d := b)) (s + of_nat i) = m (s + of_nat i)" by simp
qed

lemma copy_fwd_store:
  assumes "unat s + n < 2 ^ 64" and "unat d + n < 2 ^ 64"
    and "unat d \<le> unat s \<or> unat s + n \<le> unat d"
  shows "copy_fwd n d s m = mem_store m d (mem_bytes m s n)"
  using assms
proof (induction n arbitrary: d s m)
  case (Suc n)
  have s1: "unat (s + 1) = unat s + 1" and d1: "unat (d + 1) = unat d + 1"
    using Suc.prems(1,2) unat_add_of_nat [of s 1] unat_add_of_nat [of d 1] by simp_all
  have "copy_fwd n (d + 1) (s + 1) (m(d := m s)) =
      mem_store (m(d := m s)) (d + 1) (mem_bytes (m(d := m s)) (s + 1) n)"
    using Suc.prems s1 d1 by (intro Suc.IH) auto
  also have "mem_bytes (m(d := m s)) (s + 1) n = mem_bytes m (s + 1) n"
    using Suc.prems s1 by (intro mem_bytes_upd_notin) auto
  also have "mem_store (m(d := m s)) (d + 1) (mem_bytes m (s + 1) n) =
      mem_store m d (mem_bytes m s (Suc n))"
    using Suc.prems unfolding mem_bytes_Suc by (intro mem_store_Cons [symmetric]) simp
  finally show ?case by (simp only: copy_fwd.simps)
qed (simp add: mem_bytes_def)

lemma copy_bwd_store:
  assumes "unat s + n < 2 ^ 64" and "unat d + n < 2 ^ 64" and "unat s \<le> unat d"
  shows "copy_bwd n (d + of_nat n) (s + of_nat n) m = mem_store m d (mem_bytes m s n)"
  using assms
proof (induction n arbitrary: m)
  case (Suc n)
  let ?m = "m(d + of_nat n := m (s + of_nat n))"
  have dn: "unat (d + of_nat n) = unat d + n"
    using Suc.prems(2) by (intro unat_add_of_nat) simp
  have "copy_bwd (Suc n) (d + of_nat (Suc n)) (s + of_nat (Suc n)) m =
      copy_bwd n (d + of_nat n) (s + of_nat n) ?m"
    by simp
  also have "\<dots> = mem_store ?m d (mem_bytes ?m s n)"
    using Suc.prems by (intro Suc.IH) auto
  also have "mem_bytes ?m s n = mem_bytes m s n"
    using Suc.prems dn by (intro mem_bytes_upd_notin) auto
  also have "mem_store ?m d (mem_bytes m s n) = mem_store m d (mem_bytes m s (Suc n))"
    using Suc.prems mem_store_snoc_first [of "mem_bytes m s n" m d]
    by (simp add: mem_bytes_snoc)
  finally show ?case .
qed (simp add: mem_bytes_def)

lemma memmove_store:
  assumes "unat s + unat n < 2 ^ 64" and "unat d + unat n < 2 ^ 64"
  shows "memmove d s n m = mem_store m d (mem_bytes m s (unat n))"
proof -
  have cast: "(ucast n :: u64) = of_nat (unat n)"
    by simp
  have sn: "unat (s + ucast n) = unat s + unat n"
    unfolding cast using assms(1) by (rule unat_add_of_nat)
  have bwd: "copy_bwd (unat n) (d + ucast n) (s + ucast n) m = mem_store m d (mem_bytes m s (unat n))"
    if "s < d"
    unfolding cast using that assms by (intro copy_bwd_store) (auto simp: word_less_nat_alt)
  have fwd: "copy_fwd (unat n) d s m = mem_store m d (mem_bytes m s (unat n))"
    if "\<not> (s < d \<and> d < s + ucast n)"
    using that assms sn by (intro copy_fwd_store) (auto simp: word_less_nat_alt)
  show ?thesis
    using bwd fwd by (auto simp: memmove_def mem_bytes_def)
qed

lemma memcmp_loop_zero:
  "memcmp_loop m a b n = 0 \<longleftrightarrow> mem_bytes m a n = mem_bytes m b n"
proof (induction n arbitrary: a b)
  case (Suc n)
  then show ?case by (auto simp: mem_bytes_Suc word_uint_eq_iff)
qed (simp add: mem_bytes_def)

section \<open>Strings\<close>

lemma all_less_Suc_shift: "(\<forall>i < Suc n. P i) \<longleftrightarrow> P 0 \<and> (\<forall>i < n. P (Suc i))"
  by (auto simp: less_Suc_eq_0_disj)

lemma strncmp_zero:
  "strncmp p q n = 0 \<longleftrightarrow> (\<forall>i < n. (\<forall>j < i. p j \<noteq> 0) \<longrightarrow> p i = q i)"
proof (induction n arbitrary: p q)
  case (Suc n)
  show ?case
    unfolding all_less_Suc_shift by (auto simp: Suc.IH word_uint_eq_iff)
qed simp

lemma zero_fill_at: "zero_fill n i s k = (if i \<le> k \<and> k < i + n then 0 else s k)"
  by (induction n arbitrary: i s) auto

lemma strncpy_loop_out: "k < i \<or> i + n \<le> k \<Longrightarrow> strncpy_loop n i t s k = s k"
  by (induction n arbitrary: i s) (auto simp: zero_fill_at)

lemma strncpy_loop_copy:
  "i \<le> k \<Longrightarrow> k < i + n \<Longrightarrow> (\<forall>j. i \<le> j \<and> j < k \<longrightarrow> t j \<noteq> 0) \<Longrightarrow> strncpy_loop n i t s k = t k"
proof (induction n arbitrary: i s)
  case (Suc n)
  show ?case
  proof (cases "k = i")
    case True
    then show ?thesis by (simp add: strncpy_loop_out zero_fill_at)
  next
    case False
    then have "t i \<noteq> 0" and "Suc i \<le> k" using Suc.prems by auto
    then show ?thesis using Suc.prems by (simp add: Suc.IH)
  qed
qed simp

lemma strncpy_loop_pad:
  "i \<le> j \<Longrightarrow> j < k \<Longrightarrow> k < i + n \<Longrightarrow> t j = 0 \<Longrightarrow> strncpy_loop n i t s k = 0"
proof (induction n arbitrary: i s)
  case (Suc n)
  show ?case
  proof (cases "t i = 0")
    case True
    then show ?thesis using Suc.prems by (simp add: zero_fill_at)
  next
    case False
    then have "i \<noteq> j" using Suc.prems by auto
    then show ?thesis using False Suc.prems by (simp add: Suc.IH)
  qed
qed simp

lemma safestrcpy_loop_out: "k < i \<or> i + n < k \<Longrightarrow> safestrcpy_loop n i t s k = s k"
  by (induction n arbitrary: i s) auto

lemma safestrcpy_loop_in:
  "i \<le> k \<Longrightarrow> k \<le> i + n \<Longrightarrow> (\<forall>j. i \<le> j \<and> j < k \<longrightarrow> t j \<noteq> 0) \<Longrightarrow>
   safestrcpy_loop n i t s k = (if k = i + n then 0 else t k)"
proof (induction n arbitrary: i s)
  case (Suc n)
  show ?case
  proof (cases "k = i")
    case True
    then show ?thesis by (simp add: safestrcpy_loop_out)
  next
    case False
    then have "t i \<noteq> 0" and "Suc i \<le> k" using Suc.prems by auto
    then show ?thesis using Suc.prems by (simp add: Suc.IH)
  qed
qed simp

lemma strlen_from_least:
  "n \<le> k \<Longrightarrow> s k = 0 \<Longrightarrow> (\<forall>j. n \<le> j \<and> j < k \<longrightarrow> s j \<noteq> 0) \<Longrightarrow> strlen_from s n = Some k"
proof (induction "k - n" arbitrary: n)
  case 0
  then show ?case by (subst strlen_from.simps) simp
next
  case (Suc d)
  from Suc.hyps(2) Suc.prems have nz: "s n \<noteq> 0" by simp
  from Suc.hyps(2) Suc.prems have "strlen_from s (Suc n) = Some k"
    by (intro Suc.hyps(1)) simp_all
  with nz show ?case by (subst strlen_from.simps) simp
qed

lemma strlen_Some: "s k = 0 \<Longrightarrow> (\<forall>j < k. s j \<noteq> 0) \<Longrightarrow> strlen s = Some k"
  unfolding strlen_def by (rule strlen_from_least) simp_all

end
