(* ===== verification/Memlayout.thy ===== *)
theory Memlayout
  imports Kstring
begin

text \<open>
  The constants and address macros of \<^verbatim>\<open>kernel/riscv.h\<close>, \<^verbatim>\<open>kernel/memlayout.h\<close> and
  \<^verbatim>\<open>kernel/param.h\<close>: pages, page-table entries, the physical and virtual layout. The lemmas
  are the arithmetic of page-aligned addresses that the allocator and the page tables need:
  different pages never overlap, and rounding gives the page boundaries.
\<close>

section \<open>Constants\<close>

definition PGSIZE :: u64 where [simp]: "PGSIZE = 4096"
definition KERNBASE :: u64 where [simp]: "KERNBASE = 0x80000000"
definition PHYSTOP :: u64 where [simp]: "PHYSTOP = 0x88000000"
definition MAXVA :: u64 where [simp]: "MAXVA = 0x4000000000"
definition TRAMPOLINE :: u64 where [simp]: "TRAMPOLINE = MAXVA - PGSIZE"
definition TRAPFRAME :: u64 where [simp]: "TRAPFRAME = TRAMPOLINE - PGSIZE"
definition KSTACK :: "u64 \<Rightarrow> u64" where "KSTACK p = TRAMPOLINE - (p + 1) * 2 * PGSIZE"
definition UART0 :: u64 where [simp]: "UART0 = 0x10000000"
definition VIRTIO0 :: u64 where [simp]: "VIRTIO0 = 0x10001000"
definition PLIC :: u64 where [simp]: "PLIC = 0x0c000000"

definition NPROC :: nat where [simp]: "NPROC = 64"
definition NOFILE :: nat where [simp]: "NOFILE = 16"
definition NFILE :: nat where [simp]: "NFILE = 100"
definition NINODE :: nat where [simp]: "NINODE = 50"
definition MAXARG :: nat where [simp]: "MAXARG = 32"
definition MAXOPBLOCKS :: nat where [simp]: "MAXOPBLOCKS = 10"
definition LOGSIZE :: nat where [simp]: "LOGSIZE = MAXOPBLOCKS * 3"
definition NBUF :: nat where [simp]: "NBUF = MAXOPBLOCKS * 3"

definition PGROUNDUP :: "u64 \<Rightarrow> u64" where
  "PGROUNDUP sz = (sz + PGSIZE - 1) AND NOT (PGSIZE - 1)"

definition PGROUNDDOWN :: "u64 \<Rightarrow> u64" where
  "PGROUNDDOWN a = a AND NOT (PGSIZE - 1)"

definition PTE_V :: u64 where [simp]: "PTE_V = 1"
definition PTE_R :: u64 where [simp]: "PTE_R = 2"
definition PTE_W :: u64 where [simp]: "PTE_W = 4"
definition PTE_X :: u64 where [simp]: "PTE_X = 8"
definition PTE_U :: u64 where [simp]: "PTE_U = 16"

definition PA2PTE :: "u64 \<Rightarrow> u64" where
  "PA2PTE pa = push_bit 10 (drop_bit 12 pa)"

definition PTE2PA :: "u64 \<Rightarrow> u64" where
  "PTE2PA pte = push_bit 12 (drop_bit 10 pte)"

definition PTE_FLAGS :: "u64 \<Rightarrow> u64" where
  "PTE_FLAGS pte = pte AND 0x3FF"

definition PX :: "nat \<Rightarrow> u64 \<Rightarrow> u64" where
  "PX level va = drop_bit (12 + 9 * level) va AND 0x1FF"

definition page_aligned :: "u64 \<Rightarrow> bool" where
  "page_aligned a \<longleftrightarrow> a mod PGSIZE = 0"

section \<open>Page arithmetic\<close>

lemma page_aligned_unat: "page_aligned a \<longleftrightarrow> unat a mod 4096 = 0"
  by (simp add: page_aligned_def word_unat_eq_iff unat_mod)

lemma page_aligned_dvd: "page_aligned a \<longleftrightarrow> 4096 dvd unat a"
  by (simp add: page_aligned_unat mod_eq_0_iff_dvd)

lemma page_aligned_diff:
  assumes "page_aligned p" and "page_aligned q" and "p \<noteq> q"
  shows "4096 \<le> unat (p - q)" and "unat (p - q) \<le> 2 ^ 64 - 4096"
proof -
  have dvd: "4096 dvd unat (p - q)"
    using assms(1,2) by (auto simp: page_aligned_dvd unat_sub_if' intro!: dvd_diff_nat dvd_add)
  have pos: "0 < unat (p - q)" using assms(3) by (simp add: unat_gt_0)
  have lt: "unat (p - q) < 2 ^ 64" using unsigned_less [of "p - q", where ?'a = nat] by simp
  from dvd obtain k where k: "unat (p - q) = 4096 * k" by (rule dvdE)
  with pos lt have "1 \<le> k" and "k \<le> 2 ^ 52 - 1" by auto
  with k show "4096 \<le> unat (p - q)" and "unat (p - q) \<le> 2 ^ 64 - 4096" by auto
qed

text \<open>Distance between two places in different pages.\<close>

lemma page_offset_diff:
  assumes "page_aligned p" and "page_aligned q" and "p \<noteq> q" and "a < 4096" and "b + n \<le> 4096"
  shows "n \<le> unat (p + of_nat a - (q + of_nat b))"
proof -
  note d = page_aligned_diff [OF assms(1-3)]
  have eq: "p + of_nat a - (q + of_nat b) = (p - q) + of_nat a - of_nat b" by simp
  have da: "unat ((p - q) + of_nat a) = unat (p - q) + a"
    using d assms(4) by (intro unat_add_of_nat) simp
  have b: "unat (of_nat b :: u64) = b"
    using assms(5) by (intro unat_of_nat_u64) simp
  show ?thesis
    unfolding eq using d assms(4,5) da b by (auto simp: unat_sub_if' word_le_nat_alt)
qed

lemma same_page_offset_diff:
  assumes "a < 4096" and "b + n \<le> 4096" and "a < b \<or> b + n \<le> a"
  shows "n \<le> unat (p + of_nat a - (p + of_nat b) :: u64)"
proof -
  have a: "unat (of_nat a :: u64) = a" and b: "unat (of_nat b :: u64) = b"
    using assms by (auto intro!: unat_of_nat_u64)
  have eq: "p + of_nat a - (p + of_nat b) = (of_nat a - of_nat b :: u64)" by simp
  show ?thesis
    unfolding eq using assms a b by (auto simp: unat_sub_if' word_le_nat_alt)
qed

text \<open>Loads see only stores to the same bytes.\<close>

lemma ld64_store_other_page:
  assumes "page_aligned p" and "page_aligned q" and "p \<noteq> q"
    and "a + 8 \<le> 4096" and "b + length bs \<le> 4096"
  shows "ld64 (mem_store m (q + of_nat b) bs) (p + of_nat a) = ld64 m (p + of_nat a)"
proof -
  have "length bs \<le> unat (p + of_nat a + of_nat i - (q + of_nat b))" if "i < 8" for i
    using page_offset_diff [OF assms(1-3), of "a + i" b "length bs"] assms(4,5) that
    by (simp add: add.assoc)
  then show ?thesis
    unfolding ld64_def by (simp add: mem_bytes_store_other)
qed

lemma ld64_st64_same_page:
  assumes "a + 8 \<le> 4096" and "b + 8 \<le> 4096" and "a + 8 \<le> b \<or> b + 8 \<le> a"
  shows "ld64 (st64 m (p + of_nat b) v) (p + of_nat a) = ld64 m (p + of_nat a)"
proof -
  have "8 \<le> unat (p + of_nat a + of_nat i - (p + of_nat b))" if "i < 8" for i
    using same_page_offset_diff [of "a + i" b 8 p] assms that by (auto simp: add.assoc)
  then show ?thesis
    unfolding ld64_def st64_def by (simp add: mem_bytes_store_other)
qed

lemma ld64_store_other_page0:
  assumes "page_aligned p" and "page_aligned q" and "p \<noteq> q" and "a + 8 \<le> 4096"
    and "length bs \<le> 4096"
  shows "ld64 (mem_store m q bs) (p + of_nat a) = ld64 m (p + of_nat a)"
  using ld64_store_other_page [OF assms(1-4), of 0 bs m] assms(5) by simp

lemma ld64_memset_zero:
  assumes "a + 8 \<le> 4096"
  shows "ld64 (mem_store m p (replicate 4096 0)) (p + of_nat a) = 0"
proof -
  have "mem_bytes (mem_store m p (replicate 4096 0)) (p + of_nat a) 8 = replicate 8 0"
  proof (rule nth_equalityI)
    fix i assume "i < length (mem_bytes (mem_store m p (replicate 4096 0)) (p + of_nat a) 8)"
    then have i: "i < 8" by simp
    have "mem_store m p (replicate 4096 0) (p + of_nat (a + i)) = replicate 4096 0 ! (a + i)"
      using assms i by (intro mem_store_in) auto
    then show "mem_bytes (mem_store m p (replicate 4096 0)) (p + of_nat a) 8 ! i = replicate 8 0 ! i"
      using assms i by (simp add: add.assoc)
  qed simp
  then show ?thesis by (simp add: ld64_def)
qed

section \<open>Rounding\<close>

lemma and_not_4095: "(a :: u64) AND - 4096 = push_bit 12 (drop_bit 12 a)"
proof -
  have m: "(- 4096 :: u64) = NOT (mask 12)" by (simp add: mask_eq_exp_minus_1)
  show ?thesis
    unfolding m by (rule bit_word_eqI) (auto simp: bit_simps)
qed

lemma push_drop_12: "unat (push_bit 12 (drop_bit 12 a) :: u64) = unat a div 4096 * 4096"
proof -
  have "push_bit 12 (drop_bit 12 a) + take_bit 12 a = a" by (rule bits_ident)
  then have eq: "push_bit 12 (drop_bit 12 a) = a - take_bit 12 a" by (metis add_diff_cancel_right')
  have t: "unat (take_bit 12 a) = unat a mod 4096"
    by (simp add: take_bit_eq_mod unat_mod)
  have "take_bit 12 a \<le> a" unfolding word_le_nat_alt t by simp
  then have "unat (a - take_bit 12 a) = unat a - unat a mod 4096"
    using t by (simp add: unat_sub_if' word_le_nat_alt)
  then show ?thesis using eq by (simp add: minus_mod_eq_div_mult)
qed

lemma unat_PGROUNDDOWN: "unat (PGROUNDDOWN a) = unat a div 4096 * 4096"
  by (simp add: PGROUNDDOWN_def and_not_4095 push_drop_12)

lemma unat_PGROUNDUP:
  "unat a + 4095 < 2 ^ 64 \<Longrightarrow> unat (PGROUNDUP a) = (unat a + 4095) div 4096 * 4096"
  using unat_add_of_nat [of a 4095]
  by (simp add: PGROUNDUP_def and_not_4095 push_drop_12 add.commute [of "4095 :: u64"])

lemma page_aligned_PGROUNDDOWN [simp, page_arith]: "page_aligned (PGROUNDDOWN a)"
  by (simp add: page_aligned_unat unat_PGROUNDDOWN)

lemma page_aligned_PGROUNDUP [simp, page_arith]: "page_aligned (PGROUNDUP a)"
  by (simp add: page_aligned_unat PGROUNDUP_def and_not_4095 push_drop_12)

lemma PGROUNDDOWN_aligned: "page_aligned a \<Longrightarrow> PGROUNDDOWN a = a"
  by (auto simp: word_unat_eq_iff unat_PGROUNDDOWN page_aligned_dvd)

lemma PTE2PA_PA2PTE [simp]: "page_aligned pa \<Longrightarrow> PTE2PA (PA2PTE pa) = pa"
proof -
  assume al: "page_aligned pa"
  have d: "drop_bit 10 (push_bit 10 (drop_bit 12 pa)) = drop_bit 12 pa"
    by (rule bit_word_eqI) (auto simp: bit_simps dest: bit_imp_le_length)
  have "push_bit 12 (drop_bit 12 pa) = PGROUNDDOWN pa"
    by (simp add: PGROUNDDOWN_def and_not_4095)
  then show ?thesis
    using al by (simp add: PTE2PA_def PA2PTE_def d PGROUNDDOWN_aligned)
qed

lemma PTE2PA_flags:
  "flags AND NOT 0x3FF = 0 \<Longrightarrow> PTE2PA (PA2PTE pa OR flags) = PTE2PA (PA2PTE pa)"
proof -
  assume f: "flags AND NOT (0x3FF :: u64) = 0"
  have "drop_bit 10 flags = 0"
  proof (rule bit_word_eqI)
    fix n assume "n < LENGTH(64)"
    have "(0x3FF :: u64) = mask 10" by (simp add: mask_eq_exp_minus_1)
    with f have "\<not> bit (flags AND NOT (mask 10)) (10 + n)" by simp
    then show "bit (drop_bit 10 flags) n = bit (0 :: u64) n"
      by (auto simp: bit_simps dest: bit_imp_le_length)
  qed
  then show ?thesis by (simp add: PTE2PA_def drop_bit_or)
qed

lemma PX_less: "unat (PX l va) < 512"
proof -
  have "PX l va \<le> 0x1FF" unfolding PX_def by (rule word_and_le1)
  then show ?thesis by (simp add: word_le_nat_alt)
qed

end
