(* ===== verification/Kalloc.thy ===== *)
theory Kalloc
  imports Memlayout
begin

text \<open>
  \<^verbatim>\<open>kernel/kalloc.c\<close>: the physical page allocator. The free list is threaded through the free
  pages themselves (\<open>struct run\<close> is the first word of a page), so the state is the byte-addressed
  physical memory, the head \<open>kmem.freelist\<close> and the link-time symbol \<open>end\<close>. \<open>kmem.lock\<close> brackets
  each critical section, which is one atomic step here.
\<close>

section \<open>Definitions\<close>

record kmem =
  mem :: memory
  kend :: u64
  freelist :: u64

definition kfree :: "u64 \<Rightarrow> ('s kmem_scheme, unit) kop" where
  "kfree pa =
     kbind (kget kend) (\<lambda>e.
     if pa mod PGSIZE \<noteq> 0 \<or> pa < e \<or> pa \<ge> PHYSTOP then kpanic ''kfree''
     else kseq (kmod (\<lambda>s. s\<lparr>mem := memset pa 1 (ucast PGSIZE) (mem s)\<rparr>))
          (kmod (\<lambda>s. s\<lparr>mem := st64 (mem s) pa (freelist s), freelist := pa\<rparr>)))"

definition kalloc :: "('s kmem_scheme, u64) kop" where
  "kalloc =
     kbind (kget freelist) (\<lambda>r.
     kseq (if r \<noteq> 0 then kmod (\<lambda>s. s\<lparr>freelist := ld64 (mem s) r\<rparr>) else kret ())
    (kseq (if r \<noteq> 0 then kmod (\<lambda>s. s\<lparr>mem := memset r 5 (ucast PGSIZE) (mem s)\<rparr>) else kret ())
     (kret r)))"

text \<open>The loop of \<open>freerange\<close> stops by itself unless \<open>pa_end\<close> is at the top of the address space.\<close>

primrec freerange_loop :: "nat \<Rightarrow> u64 \<Rightarrow> u64 \<Rightarrow> ('s kmem_scheme, unit) kop" where
  "freerange_loop 0 p pa_end = (\<lambda>s. Diverge)"
| "freerange_loop (Suc fuel) p pa_end =
     (if p + PGSIZE \<le> pa_end then kseq (kfree p) (freerange_loop fuel (p + PGSIZE) pa_end)
      else kret ())"

definition freerange :: "u64 \<Rightarrow> u64 \<Rightarrow> ('s kmem_scheme, unit) kop" where
  "freerange pa_start pa_end =
     freerange_loop (unat pa_end div 4096 + 1) (PGROUNDUP pa_start) pa_end"

definition kinit :: "('s kmem_scheme, unit) kop" where
  "kinit = kbind (kget kend) (\<lambda>e. freerange e PHYSTOP)"

partial_function (option) count_free_loop :: "memory \<Rightarrow> u64 \<Rightarrow> u64 \<Rightarrow> u64 option" where
  "count_free_loop m r total_freemem =
     (if r \<noteq> 0 then count_free_loop m (ld64 m r) (total_freemem + PGSIZE) else Some total_freemem)"

definition count_freemmem :: "'s kmem_scheme \<Rightarrow> u64 option" where
  "count_freemmem s = count_free_loop (mem s) (freelist s) 0"

section \<open>The free list in memory\<close>

primrec run_list :: "memory \<Rightarrow> u64 \<Rightarrow> u64 list \<Rightarrow> bool" where
  "run_list m r [] \<longleftrightarrow> r = 0"
| "run_list m r (p # ps) \<longleftrightarrow> r = p \<and> p \<noteq> 0 \<and> run_list m (ld64 m p) ps"

definition page_ok :: "'s kmem_scheme \<Rightarrow> u64 \<Rightarrow> bool" where
  "page_ok s p \<longleftrightarrow> page_aligned p \<and> kend s \<le> p \<and> p < PHYSTOP \<and> p \<noteq> 0"

definition kmem_wf :: "'s kmem_scheme \<Rightarrow> u64 list \<Rightarrow> bool" where
  "kmem_wf s ps \<longleftrightarrow> run_list (mem s) (freelist s) ps \<and> distinct ps \<and> (\<forall>p \<in> set ps. page_ok s p)"

definition kmem_inv :: "'s kmem_scheme \<Rightarrow> bool" where
  "kmem_inv s \<longleftrightarrow> (\<exists>ps. kmem_wf s ps)"

definition free_pages :: "'s kmem_scheme \<Rightarrow> u64 set" where
  "free_pages s = {p. \<exists>ps. run_list (mem s) (freelist s) ps \<and> p \<in> set ps}"

lemma run_list_unique: "run_list m r ps \<Longrightarrow> run_list m r qs \<Longrightarrow> ps = qs"
proof (induction ps arbitrary: r qs)
  case Nil
  then show ?case by (cases qs) auto
next
  case (Cons p ps)
  then show ?case by (cases qs) auto
qed

lemma free_pages_wf: "kmem_wf s ps \<Longrightarrow> free_pages s = set ps"
  by (auto simp: free_pages_def kmem_wf_def dest: run_list_unique)

lemma run_list_cong:
  "(\<And>p. p \<in> set ps \<Longrightarrow> ld64 m p = ld64 m' p) \<Longrightarrow> run_list m r ps = run_list m' r ps"
  by (induction ps arbitrary: r) auto

lemma run_list_store_other:
  assumes "page_aligned q" and "\<forall>p \<in> set ps. page_aligned p" and "q \<notin> set ps"
    and "a + length bs \<le> 4096"
  shows "run_list (mem_store m (q + of_nat a) bs) r ps = run_list m r ps"
proof (rule run_list_cong)
  fix p assume "p \<in> set ps"
  then show "ld64 (mem_store m (q + of_nat a) bs) p = ld64 m p"
    using assms ld64_store_other_page [of p q 0 a bs m] by auto
qed

lemma kfree_eq:
  assumes "page_ok s p"
  shows "kfree p s = Ret ((), s\<lparr>mem := st64 (mem_store (mem s) p (replicate 4096 1)) p (freelist s), freelist := p\<rparr>)"
  using assms by (auto simp: kfree_def page_ok_def page_aligned_def memset_store not_le not_less)

lemma kfree_panics:
  "\<not> (page_aligned p \<and> kend s \<le> p \<and> p < PHYSTOP) \<Longrightarrow> kfree p s = Panic ''kfree''"
  by (auto simp: kfree_def page_aligned_def not_le not_less)

lemma kalloc_eq:
  "kalloc s = Ret (freelist s,
     if freelist s = 0 then s
     else s\<lparr>freelist := ld64 (mem s) (freelist s),
            mem := mem_store (mem s) (freelist s) (replicate 4096 5)\<rparr>)"
  by (simp add: kalloc_def memset_store)

lemma kmem_wf_store_other:
  assumes "kmem_wf s ps" and "page_aligned q" and "q \<notin> set ps" and "a + length bs \<le> 4096"
  shows "kmem_wf (s\<lparr>mem := mem_store (mem s) (q + of_nat a) bs\<rparr>) ps"
  using assms by (auto simp: kmem_wf_def page_ok_def run_list_store_other)

lemma kfree_wf:
  assumes wf: "kmem_wf s ps" and ok: "page_ok s p" and new: "p \<notin> set ps"
  shows "\<exists>s'. kfree p s = Ret ((), s') \<and> kmem_wf s' (p # ps) \<and> kend s' = kend s"
proof -
  let ?m1 = "mem_store (mem s) p (replicate 4096 1)"
  let ?m2 = "st64 ?m1 p (freelist s)"
  have al: "page_aligned p" "\<forall>q \<in> set ps. page_aligned q"
    using wf ok by (auto simp: kmem_wf_def page_ok_def)
  have "run_list ?m1 (freelist s) ps"
    using run_list_store_other [OF al new, of 0 "replicate 4096 1"] wf by (simp add: kmem_wf_def)
  then have "run_list ?m2 (freelist s) ps"
    using run_list_store_other [OF al new, of 0 "le_bytes 8 (freelist s)" ?m1]
    by (simp add: st64_def)
  then have "run_list ?m2 p (p # ps)"
    using ok by (simp add: page_ok_def)
  then show ?thesis
    using wf ok new by (auto simp: kfree_eq kmem_wf_def page_ok_def)
qed

lemma kalloc_wf_Cons:
  assumes wf: "kmem_wf s (p # ps)"
  shows "\<exists>s'. kalloc s = Ret (p, s') \<and> kmem_wf s' ps \<and> kend s' = kend s"
proof -
  have al: "page_aligned p" "\<forall>q \<in> set ps. page_aligned q" "p \<notin> set ps" and f: "freelist s = p" "p \<noteq> 0"
    and tl: "run_list (mem s) (ld64 (mem s) p) ps"
    using wf by (auto simp: kmem_wf_def page_ok_def)
  have "run_list (mem_store (mem s) p (replicate 4096 5)) (ld64 (mem s) p) ps"
    using run_list_store_other [OF al, of 0 "replicate 4096 5"] tl by simp
  then show ?thesis
    using wf f by (auto simp: kalloc_eq kmem_wf_def page_ok_def)
qed

lemma kalloc_wf_Nil: "kmem_wf s [] \<Longrightarrow> kalloc s = Ret (0, s)"
  by (simp add: kalloc_eq kmem_wf_def)

lemma count_free_loop_run_list:
  "run_list m r ps \<Longrightarrow> count_free_loop m r t = Some (t + 4096 * of_nat (length ps))"
proof (induction ps arbitrary: r t)
  case Nil
  then show ?case by (simp add: count_free_loop.simps)
next
  case (Cons p ps)
  then show ?case by (subst count_free_loop.simps) (simp add: algebra_simps)
qed

section \<open>The allocator's contract\<close>

text \<open>
  What the rest of the kernel relies on: an allocation takes a page out of the free set or
  reports that there is none, a free puts a legal page back, and the invariant is kept.
\<close>

locale page_allocator =
  fixes alloc :: "('s, u64) kop"
    and dealloc :: "u64 \<Rightarrow> ('s, unit) kop"
    and free :: "'s \<Rightarrow> u64 set"
    and legal :: "'s \<Rightarrow> u64 \<Rightarrow> bool"
    and inv :: "'s \<Rightarrow> bool"
  assumes alloc_empty: "inv s \<Longrightarrow> free s = {} \<Longrightarrow> alloc s = Ret (0, s)"
    and alloc_page: "inv s \<Longrightarrow> free s \<noteq> {} \<Longrightarrow>
      \<exists>p s'. alloc s = Ret (p, s') \<and> p \<in> free s \<and> free s' = free s - {p} \<and> inv s' \<and> legal s' = legal s"
    and dealloc_page: "inv s \<Longrightarrow> legal s p \<Longrightarrow> p \<notin> free s \<Longrightarrow>
      \<exists>s'. dealloc p s = Ret ((), s') \<and> free s' = insert p (free s) \<and> inv s' \<and> legal s' = legal s"
    and free_legal: "inv s \<Longrightarrow> p \<in> free s \<Longrightarrow> legal s p"
    and legal_nonzero: "legal s p \<Longrightarrow> p \<noteq> 0"
begin

lemma alloc_zero_iff:
  assumes "inv s"
  shows "(\<exists>s'. alloc s = Ret (0, s')) \<longleftrightarrow> free s = {}"
  using assms alloc_empty [of s] alloc_page [of s] free_legal [of s] legal_nonzero [of s] by fastforce

lemma two_allocs_distinct:
  assumes "inv s" and "alloc s = Ret (p, s')" and "alloc s' = Ret (q, s'')" and "p \<noteq> 0" and "q \<noteq> 0"
  shows "p \<noteq> q"
proof -
  have ne: "free s \<noteq> {}" using assms(1,2,4) alloc_empty by auto
  then have s': "free s' = free s - {p}" "inv s'" using assms(1,2) alloc_page [of s] by auto
  have "free s' \<noteq> {}" using assms(3,5) s'(2) alloc_empty by auto
  then have "q \<in> free s'" using assms(3) s'(2) alloc_page [of s'] by auto
  then show ?thesis using s'(1) by auto
qed

lemma alloc_dealloc:
  assumes "inv s" and "alloc s = Ret (p, s')" and "p \<noteq> 0"
  shows "\<exists>s''. dealloc p s' = Ret ((), s'') \<and> inv s'' \<and> free s'' = free s"
proof -
  have ne: "free s \<noteq> {}" using assms alloc_empty by auto
  then have s': "p \<in> free s" "free s' = free s - {p}" "inv s'" "legal s' = legal s"
    using assms(1,2) alloc_page [of s] by auto
  then have "legal s' p" using free_legal assms(1) by simp
  with s' dealloc_page [of s' p] show ?thesis by (auto simp: insert_absorb)
qed

end

interpretation ka: page_allocator kalloc kfree free_pages page_ok kmem_inv
proof unfold_locales
  fix s :: "'a kmem_scheme"
  assume "kmem_inv s" and "free_pages s = {}"
  then have "kmem_wf s []" by (auto simp: kmem_inv_def free_pages_wf)
  then show "kalloc s = Ret (0, s)" by (rule kalloc_wf_Nil)
next
  fix s :: "'a kmem_scheme"
  assume "kmem_inv s" and ne: "free_pages s \<noteq> {}"
  then obtain ps where wf: "kmem_wf s ps" by (auto simp: kmem_inv_def)
  with ne obtain p qs where ps: "ps = p # qs" by (cases ps) (auto simp: free_pages_wf)
  with wf obtain s' where s': "kalloc s = Ret (p, s')" "kmem_wf s' qs" "kend s' = kend s"
    using kalloc_wf_Cons [of s p qs] by blast
  moreover have "p \<notin> set qs" using wf ps by (simp add: kmem_wf_def)
  ultimately show "\<exists>p s'. kalloc s = Ret (p, s') \<and> p \<in> free_pages s \<and>
      free_pages s' = free_pages s - {p} \<and> kmem_inv s' \<and> page_ok s' = page_ok s"
    using wf ps by (auto simp: free_pages_wf kmem_inv_def page_ok_def fun_eq_iff)
next
  fix s :: "'a kmem_scheme" and p
  assume "kmem_inv s" and ok: "page_ok s p" and new: "p \<notin> free_pages s"
  then obtain ps where wf: "kmem_wf s ps" by (auto simp: kmem_inv_def)
  with new have "p \<notin> set ps" by (simp add: free_pages_wf)
  with wf ok obtain s' where "kfree p s = Ret ((), s')" "kmem_wf s' (p # ps)" "kend s' = kend s"
    using kfree_wf by blast
  then show "\<exists>s'. kfree p s = Ret ((), s') \<and> free_pages s' = insert p (free_pages s) \<and>
      kmem_inv s' \<and> page_ok s' = page_ok s"
    using wf by (auto simp: free_pages_wf kmem_inv_def page_ok_def fun_eq_iff)
next
  fix s :: "'a kmem_scheme" and p
  assume "kmem_inv s" and "p \<in> free_pages s"
  then show "page_ok s p" by (auto simp: kmem_inv_def kmem_wf_def free_pages_wf)
next
  fix s :: "'a kmem_scheme" and p
  assume "page_ok s p"
  then show "p \<noteq> 0" by (simp add: page_ok_def)
qed

section \<open>Initialisation\<close>

definition ram_pages :: "u64 \<Rightarrow> u64 set" where
  "ram_pages a = {p. page_aligned p \<and> a \<le> p \<and> p < PHYSTOP}"

lemma ram_pages_step:
  assumes "page_aligned p" and "p < PHYSTOP"
  shows "ram_pages p = insert p (ram_pages (p + PGSIZE))" and "p \<notin> ram_pages (p + PGSIZE)"
    and "page_aligned (p + PGSIZE)" and "p + PGSIZE \<le> PHYSTOP" and "unat (p + PGSIZE) = unat p + 4096"
proof -
  have lt: "unat p < 2281701376" using assms(2) by (simp add: word_less_nat_alt)
  then show u: "unat (p + PGSIZE) = unat p + 4096" using unat_add_of_nat [of p 4096] by simp
  show al: "page_aligned (p + PGSIZE)" using assms(1) u by (simp add: page_aligned_unat)
  have dvd: "4096 dvd unat p" using assms(1) by (simp add: page_aligned_dvd)
  then show "p + PGSIZE \<le> PHYSTOP" using u lt by (auto simp: word_le_nat_alt elim!: dvdE)
  show "p \<notin> ram_pages (p + PGSIZE)" using u by (auto simp: ram_pages_def word_le_nat_alt)
  have "p \<le> q \<longleftrightarrow> q = p \<or> p + PGSIZE \<le> q" if "page_aligned q" for q
    using dvd that u unfolding page_aligned_dvd word_le_nat_alt word_unat_eq_iff
    by (auto elim!: dvdE)
  then show "ram_pages p = insert p (ram_pages (p + PGSIZE))"
    using assms by (auto simp: ram_pages_def)
qed

lemma ram_pages_empty: "PHYSTOP \<le> p \<Longrightarrow> ram_pages p = {}"
  by (auto simp: ram_pages_def)

lemma freerange_loop_wf:
  assumes "kmem_wf s ps" and "page_aligned p" and "kend s \<le> p" and "p \<noteq> 0" and "p \<le> PHYSTOP"
    and "set ps \<inter> ram_pages p = {}" and "unat PHYSTOP < unat p + 4096 * fuel"
  shows "\<exists>s' ps'. freerange_loop fuel p PHYSTOP s = Ret ((), s') \<and> kmem_wf s' ps' \<and>
           set ps' = set ps \<union> ram_pages p \<and> kend s' = kend s"
  using assms
proof (induction fuel arbitrary: p s ps)
  case 0
  then show ?case by (simp add: word_le_nat_alt)
next
  case (Suc fuel)
  show ?case
  proof (cases "p < PHYSTOP")
    case False
    then have "p = PHYSTOP" using Suc.prems(5) by simp
    then show ?thesis using Suc.prems(1) by (auto simp: ram_pages_empty)
  next
    case True
    note st = ram_pages_step [OF Suc.prems(2) True]
    have "p \<notin> set ps" using Suc.prems(6) st(1) by auto
    moreover have ok: "page_ok s p" using Suc.prems True by (simp add: page_ok_def)
    ultimately obtain s1 where s1: "kfree p s = Ret ((), s1)" "kmem_wf s1 (p # ps)" "kend s1 = kend s"
      using kfree_wf [OF Suc.prems(1)] by blast
    have "p \<le> p + PGSIZE" using st(5) by (simp add: word_le_nat_alt)
    then have "\<exists>s' ps'. freerange_loop fuel (p + PGSIZE) PHYSTOP s1 = Ret ((), s') \<and> kmem_wf s' ps' \<and>
        set ps' = set (p # ps) \<union> ram_pages (p + PGSIZE) \<and> kend s' = kend s1"
      using Suc.prems s1 st by (intro Suc.IH) (auto simp: word_unat_eq_iff word_le_nat_alt)
    then show ?thesis using s1 st by auto
  qed
qed

lemma kinit_wf:
  assumes "freelist s = 0" and "0 < kend s" and "kend s \<le> PHYSTOP"
  shows "\<exists>s' ps. kinit s = Ret ((), s') \<and> kmem_wf s' ps \<and> set ps = ram_pages (kend s)"
proof -
  let ?p = "PGROUNDUP (kend s)"
  have e: "unat (kend s) \<le> 2281701376" "0 < unat (kend s)"
    using assms(2,3) by (simp_all add: word_le_nat_alt unat_gt_0)
  then have u: "unat ?p = (unat (kend s) + 4095) div 4096 * 4096" by (intro unat_PGROUNDUP) simp
  have ge: "unat (kend s) \<le> unat ?p" "unat ?p \<le> 2281701376" "0 < unat ?p" unfolding u using e by auto
  have "kmem_wf s []" using assms(1) by (simp add: kmem_wf_def)
  moreover have "?p \<noteq> 0" using ge(3) by (metis less_irrefl unat_0)
  ultimately have "\<exists>s' ps'. freerange_loop (unat PHYSTOP div 4096 + 1) ?p PHYSTOP s = Ret ((), s') \<and>
      kmem_wf s' ps' \<and> set ps' = set [] \<union> ram_pages ?p \<and> kend s' = kend s"
    using ge by (intro freerange_loop_wf) (simp_all add: word_le_nat_alt)
  moreover have "ram_pages ?p = ram_pages (kend s)"
  proof -
    have "?p \<le> q \<longleftrightarrow> kend s \<le> q" if "page_aligned q" for q
      using that unfolding page_aligned_dvd word_le_nat_alt u by (auto elim!: dvdE)
    then show ?thesis by (auto simp: ram_pages_def)
  qed
  ultimately show ?thesis by (auto simp: kinit_def freerange_def)
qed

lemma count_freemmem_wf:
  assumes "kmem_wf s ps"
  shows "count_freemmem s = Some (PGSIZE * of_nat (length ps))"
  using assms count_free_loop_run_list [of "mem s" "freelist s" ps 0]
  by (simp add: count_freemmem_def kmem_wf_def)

section \<open>Properties\<close>

text \<open>
  Property C15. Boot: from an empty free list \<open>kinit\<close> neither panics nor loops, and afterwards the
  free list holds exactly the page-aligned pages between the end of the kernel and \<open>PHYSTOP\<close>,
  each once.
\<close>

theorem kinit_frees_ram:
  assumes "freelist s = 0" and "0 < kend s" and "kend s \<le> PHYSTOP"
  shows "\<exists>s'. kinit s = Ret ((), s') \<and> kmem_inv s' \<and>
           free_pages s' = {p. page_aligned p \<and> kend s \<le> p \<and> p < PHYSTOP}"
  using kinit_wf [OF assms] by (auto simp: kmem_inv_def free_pages_wf ram_pages_def)

theorem kinit_frees_ram_witness:
  "\<exists>s'. kinit \<lparr>mem = (\<lambda>_. 0), kend = 0x87ffe123, freelist = 0\<rparr> = Ret ((), s') \<and> kmem_inv s' \<and>
     free_pages s' = {p. page_aligned p \<and> 0x87ffe123 \<le> p \<and> p < PHYSTOP}"
  using kinit_frees_ram [of "\<lparr>mem = (\<lambda>_. 0), kend = 0x87ffe123, freelist = 0\<rparr>"] by simp

text \<open>
  Property C9. \<open>kalloc\<close> implements allocation from the set of free pages: it returns 0 and
  changes nothing exactly when no page is free, otherwise it returns a free page, removes that
  page and only that page from the free set, and keeps the free list well formed; \<open>kfree\<close> of
  that page then succeeds and restores the free set.
\<close>

theorem kalloc_kfree_contract:
  assumes "kmem_inv s"
  shows "\<exists>p s'. kalloc s = Ret (p, s') \<and>
     (if free_pages s = {} then p = 0 \<and> s' = s
      else p \<in> free_pages s \<and> page_ok s p \<and> kmem_inv s' \<and> free_pages s' = free_pages s - {p} \<and>
           (\<exists>s''. kfree p s' = Ret ((), s'') \<and> kmem_inv s'' \<and> free_pages s'' = free_pages s))"
proof (cases "free_pages s = {}")
  case True
  then show ?thesis using ka.alloc_empty [OF assms] by simp
next
  case False
  then obtain p s' where r: "kalloc s = Ret (p, s')" "p \<in> free_pages s"
      "free_pages s' = free_pages s - {p}" "kmem_inv s'"
    using ka.alloc_page [OF assms] by blast
  then have "page_ok s p" and "p \<noteq> 0"
    using ka.free_legal [OF assms] ka.legal_nonzero by blast+
  with False r ka.alloc_dealloc [OF assms r(1)] show ?thesis by auto
qed

lemma one_page_wf:
  "kmem_wf \<lparr>mem = (\<lambda>_. 0), kend = 0x80020000, freelist = 0x87fff000\<rparr> [0x87fff000]"
  by (simp add: kmem_wf_def page_ok_def page_aligned_def)

theorem kalloc_kfree_contract_witness:
  "\<exists>p s'. kalloc \<lparr>mem = (\<lambda>_. 0), kend = 0x80020000, freelist = 0x87fff000\<rparr> = Ret (p, s') \<and>
     p = 0x87fff000 \<and> free_pages s' = {}"
proof -
  let ?s = "\<lparr>mem = (\<lambda>_. 0), kend = 0x80020000, freelist = 0x87fff000\<rparr>"
  have "kmem_inv ?s" and "free_pages ?s = {0x87fff000}"
    using one_page_wf by (auto simp: kmem_inv_def free_pages_wf)
  then show ?thesis using kalloc_kfree_contract [of ?s] by auto
qed

text \<open>
  Property C16. \<open>count_freemmem\<close>, which \<open>sysinfo\<close> reports, terminates on a well-formed free list
  and returns the page size times the number of free pages.
\<close>

theorem count_freemmem_counts:
  assumes "kmem_inv s"
  shows "count_freemmem s = Some (PGSIZE * of_nat (card (free_pages s)))"
proof -
  from assms obtain ps where wf: "kmem_wf s ps" by (auto simp: kmem_inv_def)
  then have "card (free_pages s) = length ps"
    by (simp add: free_pages_wf distinct_card kmem_wf_def)
  then show ?thesis using count_freemmem_wf [OF wf] by simp
qed

theorem count_freemmem_counts_witness:
  "count_freemmem \<lparr>mem = (\<lambda>_. 0), kend = 0x80020000, freelist = 0x87fff000\<rparr> = Some 4096"
proof -
  let ?s = "\<lparr>mem = (\<lambda>_. 0), kend = 0x80020000, freelist = 0x87fff000\<rparr>"
  have "kmem_inv ?s" and "free_pages ?s = {0x87fff000}"
    using one_page_wf by (auto simp: kmem_inv_def free_pages_wf)
  then show ?thesis using count_freemmem_counts [of ?s] by simp
qed

end
