(* ===== verification/Vm.thy ===== *)
theory Vm
  imports Kalloc "HOL-Library.Multiset"
begin

text \<open>
  \<^verbatim>\<open>kernel/vm.c\<close> and \<open>proc_mapstacks\<close> of \<^verbatim>\<open>kernel/proc.c\<close>: Sv39 page tables in physical memory.
  A page table is the physical address of its root page; entries are 64-bit words loaded and
  stored in byte-addressed memory. Kernel buffers that a function copies from or to (\<open>src\<close> of
  \<open>copyout\<close>, \<open>dst\<close> of \<open>copyin\<close> and \<open>copyinstr\<close>) are given and returned as their bytes. Loops over
  address ranges carry fuel (outcome \<open>Diverge\<close>); theory \<open>Vm_Walk\<close> and its clients show it suffices.
\<close>

section \<open>Definitions\<close>

text \<open>Link-time addresses of \<^verbatim>\<open>kernel.ld\<close> and the root of the kernel's page table.\<close>

record kvm = kmem +
  etext :: u64
  trampoline :: u64
  kernel_pagetable :: u64

primrec walk_loop :: "nat \<Rightarrow> u64 \<Rightarrow> u64 \<Rightarrow> bool \<Rightarrow> ('s kmem_scheme, u64) kop" where
  "walk_loop 0 pagetable va alloc = kret (pagetable + 8 * PX 0 va)"
| "walk_loop (Suc l) pagetable va alloc =
     (let pte = pagetable + 8 * PX (Suc l) va in
      kbind (kget (\<lambda>s. ld64 (mem s) pte)) (\<lambda>e.
      if e AND PTE_V \<noteq> 0 then walk_loop l (PTE2PA e) va alloc
      else if \<not> alloc then kret 0
      else kbind kalloc (\<lambda>pt.
        if pt = 0 then kret 0
        else kseq (kmod (\<lambda>s. s\<lparr>mem := memset pt 0 (ucast PGSIZE) (mem s)\<rparr>))
            (kseq (kmod (\<lambda>s. s\<lparr>mem := st64 (mem s) pte (PA2PTE pt OR PTE_V)\<rparr>))
             (walk_loop l pt va alloc)))))"

definition walk :: "u64 \<Rightarrow> u64 \<Rightarrow> bool \<Rightarrow> ('s kmem_scheme, u64) kop" where
  "walk pagetable va alloc =
     (if va \<ge> MAXVA then kpanic ''walk'' else walk_loop 2 pagetable va alloc)"

definition walkaddr :: "u64 \<Rightarrow> u64 \<Rightarrow> ('s kmem_scheme, u64) kop" where
  "walkaddr pagetable va =
     (if va \<ge> MAXVA then kret 0
      else kbind (walk pagetable va False) (\<lambda>pte.
        if pte = 0 then kret 0
        else kbind (kget (\<lambda>s. ld64 (mem s) pte)) (\<lambda>e.
          if e AND PTE_V = 0 then kret 0
          else if e AND PTE_U = 0 then kret 0
          else kret (PTE2PA e))))"

primrec mappages_loop :: "nat \<Rightarrow> u64 \<Rightarrow> u64 \<Rightarrow> u64 \<Rightarrow> u64 \<Rightarrow> u64 \<Rightarrow> ('s kmem_scheme, int) kop" where
  "mappages_loop 0 pagetable a last_a pa perm = (\<lambda>s. Diverge)"
| "mappages_loop (Suc fuel) pagetable a last_a pa perm =
     kbind (walk pagetable a True) (\<lambda>pte.
     if pte = 0 then kret (-1)
     else kbind (kget (\<lambda>s. ld64 (mem s) pte)) (\<lambda>e.
       if e AND PTE_V \<noteq> 0 then kpanic ''mappages: remap''
       else kseq (kmod (\<lambda>s. s\<lparr>mem := st64 (mem s) pte (PA2PTE pa OR perm OR PTE_V)\<rparr>))
         (if a = last_a then kret 0
          else mappages_loop fuel pagetable (a + PGSIZE) last_a (pa + PGSIZE) perm)))"

definition mappages :: "u64 \<Rightarrow> u64 \<Rightarrow> u64 \<Rightarrow> u64 \<Rightarrow> u64 \<Rightarrow> ('s kmem_scheme, int) kop" where
  "mappages pagetable va sz pa perm =
     (if va mod PGSIZE \<noteq> 0 then kpanic ''mappages: va not aligned''
      else if sz mod PGSIZE \<noteq> 0 then kpanic ''mappages: size not aligned''
      else if sz = 0 then kpanic ''mappages: size''
      else mappages_loop (unat sz div 4096) pagetable va (va + sz - PGSIZE) pa perm)"

definition kvmmap :: "u64 \<Rightarrow> u64 \<Rightarrow> u64 \<Rightarrow> u64 \<Rightarrow> u64 \<Rightarrow> ('s kmem_scheme, unit) kop" where
  "kvmmap kpgtbl va pa sz perm =
     kbind (mappages kpgtbl va sz pa perm) (\<lambda>r. if r \<noteq> 0 then kpanic ''kvmmap'' else kret ())"

primrec proc_mapstacks_loop :: "nat \<Rightarrow> u64 \<Rightarrow> ('s kmem_scheme, unit) kop" where
  "proc_mapstacks_loop 0 kpgtbl = kret ()"
| "proc_mapstacks_loop (Suc k) kpgtbl =
     kbind kalloc (\<lambda>pa.
     if pa = 0 then kpanic ''kalloc''
     else kseq (kvmmap kpgtbl (KSTACK (of_nat (NPROC - Suc k))) pa PGSIZE (PTE_R OR PTE_W))
          (proc_mapstacks_loop k kpgtbl))"

definition proc_mapstacks :: "u64 \<Rightarrow> ('s kmem_scheme, unit) kop" where
  "proc_mapstacks kpgtbl = proc_mapstacks_loop NPROC kpgtbl"

definition kvmmake :: "('s kvm_scheme, u64) kop" where
  "kvmmake =
     kbind kalloc (\<lambda>kpgtbl.
     kseq (kmod (\<lambda>s. s\<lparr>mem := memset kpgtbl 0 (ucast PGSIZE) (mem s)\<rparr>))
    (kseq (kvmmap kpgtbl UART0 UART0 PGSIZE (PTE_R OR PTE_W))
    (kseq (kvmmap kpgtbl VIRTIO0 VIRTIO0 PGSIZE (PTE_R OR PTE_W))
    (kseq (kvmmap kpgtbl PLIC PLIC 0x4000000 (PTE_R OR PTE_W))
    (kbind (kget etext) (\<lambda>et.
     kseq (kvmmap kpgtbl KERNBASE KERNBASE (et - KERNBASE) (PTE_R OR PTE_X))
    (kseq (kvmmap kpgtbl et et (PHYSTOP - et) (PTE_R OR PTE_W))
    (kbind (kget trampoline) (\<lambda>tr.
     kseq (kvmmap kpgtbl TRAMPOLINE tr PGSIZE (PTE_R OR PTE_X))
    (kseq (proc_mapstacks kpgtbl)
    (kret kpgtbl)))))))))))"

definition kvminit :: "('s kvm_scheme, unit) kop" where
  "kvminit = kbind kvmmake (\<lambda>pt. kmod (\<lambda>s. s\<lparr>kernel_pagetable := pt\<rparr>))"

primrec uvmunmap_loop :: "nat \<Rightarrow> u64 \<Rightarrow> u64 \<Rightarrow> u64 \<Rightarrow> bool \<Rightarrow> ('s kmem_scheme, unit) kop" where
  "uvmunmap_loop 0 pagetable a stop do_free = (\<lambda>s. Diverge)"
| "uvmunmap_loop (Suc fuel) pagetable a stop do_free =
     (if \<not> a < stop then kret ()
      else kbind (walk pagetable a False) (\<lambda>pte.
        if pte = 0 then kpanic ''uvmunmap: walk''
        else kbind (kget (\<lambda>s. ld64 (mem s) pte)) (\<lambda>e.
          if e AND PTE_V = 0 then kpanic ''uvmunmap: not mapped''
          else if PTE_FLAGS e = PTE_V then kpanic ''uvmunmap: not a leaf''
          else kseq (if do_free then kfree (PTE2PA e) else kret ())
              (kseq (kmod (\<lambda>s. s\<lparr>mem := st64 (mem s) pte 0\<rparr>))
               (uvmunmap_loop fuel pagetable (a + PGSIZE) stop do_free)))))"

definition uvmunmap :: "u64 \<Rightarrow> u64 \<Rightarrow> u64 \<Rightarrow> bool \<Rightarrow> ('s kmem_scheme, unit) kop" where
  "uvmunmap pagetable va npages do_free =
     (if va mod PGSIZE \<noteq> 0 then kpanic ''uvmunmap: not aligned''
      else uvmunmap_loop (unat npages + 1) pagetable va (va + npages * PGSIZE) do_free)"

definition uvmcreate :: "('s kmem_scheme, u64) kop" where
  "uvmcreate =
     kbind kalloc (\<lambda>pagetable.
     if pagetable = 0 then kret 0
     else kseq (kmod (\<lambda>s. s\<lparr>mem := memset pagetable 0 (ucast PGSIZE) (mem s)\<rparr>)) (kret pagetable))"

definition uvmfirst :: "u64 \<Rightarrow> u8 list \<Rightarrow> ('s kmem_scheme, unit) kop" where
  "uvmfirst pagetable src =
     (if 4096 \<le> length src then kpanic ''uvmfirst: more than a page''
      else kbind kalloc (\<lambda>p.
        kseq (kmod (\<lambda>s. s\<lparr>mem := memset p 0 (ucast PGSIZE) (mem s)\<rparr>))
       (kseq (mappages pagetable 0 PGSIZE p (PTE_W OR PTE_R OR PTE_X OR PTE_U))
        (kmod (\<lambda>s. s\<lparr>mem := mem_store (mem s) p src\<rparr>)))))"

definition uvmdealloc :: "u64 \<Rightarrow> u64 \<Rightarrow> u64 \<Rightarrow> ('s kmem_scheme, u64) kop" where
  "uvmdealloc pagetable oldsz newsz =
     (if newsz \<ge> oldsz then kret oldsz
      else kseq
        (if PGROUNDUP newsz < PGROUNDUP oldsz then
           let npages = (ucast ((PGROUNDUP oldsz - PGROUNDUP newsz) div PGSIZE) :: u32)
           in uvmunmap pagetable (PGROUNDUP newsz) (scast npages) True
         else kret ())
        (kret newsz))"

primrec uvmalloc_loop :: "nat \<Rightarrow> u64 \<Rightarrow> u64 \<Rightarrow> u64 \<Rightarrow> u64 \<Rightarrow> u64 \<Rightarrow> ('s kmem_scheme, u64) kop" where
  "uvmalloc_loop 0 pagetable a oldsz newsz xperm = (\<lambda>s. Diverge)"
| "uvmalloc_loop (Suc fuel) pagetable a oldsz newsz xperm =
     (if \<not> a < newsz then kret newsz
      else kbind kalloc (\<lambda>p.
        if p = 0 then kseq (uvmdealloc pagetable a oldsz) (kret 0)
        else kseq (kmod (\<lambda>s. s\<lparr>mem := memset p 0 (ucast PGSIZE) (mem s)\<rparr>))
          (kbind (mappages pagetable a PGSIZE p (PTE_R OR PTE_U OR xperm)) (\<lambda>r.
           if r \<noteq> 0 then kseq (kfree p) (kseq (uvmdealloc pagetable a oldsz) (kret 0))
           else uvmalloc_loop fuel pagetable (a + PGSIZE) oldsz newsz xperm))))"

definition uvmalloc :: "u64 \<Rightarrow> u64 \<Rightarrow> u64 \<Rightarrow> u64 \<Rightarrow> ('s kmem_scheme, u64) kop" where
  "uvmalloc pagetable oldsz newsz xperm =
     (if newsz < oldsz then kret oldsz
      else let oldsz = PGROUNDUP oldsz
           in uvmalloc_loop (unat newsz div 4096 + 2) pagetable oldsz oldsz newsz xperm)"

text \<open>
  \<open>freewalk\<close> recurses into the tables an entry points to. The first argument bounds the depth
  (a root has two levels of tables below it), the second counts the entries still to visit.
\<close>

fun freewalk_loop :: "nat \<Rightarrow> nat \<Rightarrow> u64 \<Rightarrow> ('s kmem_scheme, unit) kop" where
  "freewalk_loop d 0 pagetable = kfree pagetable"
| "freewalk_loop d (Suc k) pagetable =
     (let a = pagetable + 8 * of_nat (512 - Suc k) in
      kbind (kget (\<lambda>s. ld64 (mem s) a)) (\<lambda>pte.
      if pte AND PTE_V \<noteq> 0 \<and> pte AND (PTE_R OR PTE_W OR PTE_X) = 0 then
        (case d of 0 \<Rightarrow> (\<lambda>s. Diverge)
         | Suc d' \<Rightarrow> kseq (freewalk_loop d' 512 (PTE2PA pte))
                   (kseq (kmod (\<lambda>s. s\<lparr>mem := st64 (mem s) a 0\<rparr>))
                    (freewalk_loop d k pagetable)))
      else if pte AND PTE_V \<noteq> 0 then kpanic ''freewalk: leaf''
      else freewalk_loop d k pagetable))"

definition freewalk :: "u64 \<Rightarrow> ('s kmem_scheme, unit) kop" where
  "freewalk pagetable = freewalk_loop 2 512 pagetable"

definition uvmfree :: "u64 \<Rightarrow> u64 \<Rightarrow> ('s kmem_scheme, unit) kop" where
  "uvmfree pagetable sz =
     kseq (if sz > 0 then uvmunmap pagetable 0 (PGROUNDUP sz div PGSIZE) True else kret ())
          (freewalk pagetable)"

primrec uvmcopy_loop :: "nat \<Rightarrow> u64 \<Rightarrow> u64 \<Rightarrow> u64 \<Rightarrow> u64 \<Rightarrow> ('s kmem_scheme, int) kop" where
  "uvmcopy_loop 0 old new i sz = (\<lambda>s. Diverge)"
| "uvmcopy_loop (Suc fuel) old new i sz =
     (if \<not> i < sz then kret 0
      else kbind (walk old i False) (\<lambda>pte.
        if pte = 0 then kpanic ''uvmcopy: pte should exist''
        else kbind (kget (\<lambda>s. ld64 (mem s) pte)) (\<lambda>e.
          if e AND PTE_V = 0 then kpanic ''uvmcopy: page not present''
          else let pa = PTE2PA e; flags = PTE_FLAGS e in
            kbind kalloc (\<lambda>p.
            if p = 0 then kseq (uvmunmap new 0 (i div PGSIZE) True) (kret (-1))
            else kseq (kmod (\<lambda>s. s\<lparr>mem := memmove p pa (ucast PGSIZE) (mem s)\<rparr>))
              (kbind (mappages new i PGSIZE p flags) (\<lambda>r.
               if r \<noteq> 0 then
                 kseq (kfree p) (kseq (uvmunmap new 0 (i div PGSIZE) True) (kret (-1)))
               else uvmcopy_loop fuel old new (i + PGSIZE) sz))))))"

definition uvmcopy :: "u64 \<Rightarrow> u64 \<Rightarrow> u64 \<Rightarrow> ('s kmem_scheme, int) kop" where
  "uvmcopy old new sz = uvmcopy_loop (unat sz div 4096 + 2) old new 0 sz"

definition uvmclear :: "u64 \<Rightarrow> u64 \<Rightarrow> ('s kmem_scheme, unit) kop" where
  "uvmclear pagetable va =
     kbind (walk pagetable va False) (\<lambda>pte.
     if pte = 0 then kpanic ''uvmclear''
     else kmod (\<lambda>s. s\<lparr>mem := st64 (mem s) pte (ld64 (mem s) pte AND NOT PTE_U)\<rparr>))"

text \<open>The bytes that fit from \<open>va\<close> to the end of its page.\<close>

definition page_room :: "u64 \<Rightarrow> nat" where
  "page_room va = 4096 - unat (va - PGROUNDDOWN va)"

lemma page_room_pos: "0 < page_room va"
proof -
  have "unat (va - PGROUNDDOWN va) < 4096"
    by (simp add: unat_sub_if' word_le_nat_alt unat_PGROUNDDOWN minus_div_mult_eq_mod)
  then show ?thesis by (simp add: page_room_def)
qed

function copyout :: "u64 \<Rightarrow> u64 \<Rightarrow> u8 list \<Rightarrow> ('s kmem_scheme, int) kop" where
  "copyout pagetable dstva src =
     (if src = [] then kret 0
      else let va0 = PGROUNDDOWN dstva in
        if va0 \<ge> MAXVA then kret (-1)
        else kbind (walk pagetable va0 False) (\<lambda>pte.
          kbind (kget (\<lambda>s. ld64 (mem s) pte)) (\<lambda>e.
          if pte = 0 \<or> e AND PTE_V = 0 \<or> e AND PTE_U = 0 \<or> e AND PTE_W = 0 then kret (-1)
          else let n = min (page_room dstva) (length src) in
            kseq (kmod (\<lambda>s. s\<lparr>mem := mem_store (mem s) (PTE2PA e + (dstva - va0)) (take n src)\<rparr>))
                 (copyout pagetable (va0 + PGSIZE) (drop n src)))))"
  by pat_completeness auto
termination
  by (relation "measure (\<lambda>(pt, va, src). length src)") (auto simp: page_room_pos)

function copyin :: "u64 \<Rightarrow> u64 \<Rightarrow> nat \<Rightarrow> ('s kmem_scheme, int \<times> u8 list) kop" where
  "copyin pagetable srcva len =
     (if len = 0 then kret (0, [])
      else let va0 = PGROUNDDOWN srcva in
        kbind (walkaddr pagetable va0) (\<lambda>pa0.
        if pa0 = 0 then kret (-1, [])
        else let n = min (page_room srcva) len in
          kbind (kget (\<lambda>s. mem_bytes (mem s) (pa0 + (srcva - va0)) n)) (\<lambda>bs.
          kbind (copyin pagetable (va0 + PGSIZE) (len - n)) (\<lambda>(r, rest).
          kret (r, bs @ rest)))))"
  by pat_completeness auto
termination
  by (relation "measure (\<lambda>(pt, va, len). len)") (auto simp: page_room_pos)

text \<open>The inner loop of \<open>copyinstr\<close>: copy up to \<open>n\<close> bytes, stopping after a NUL.\<close>

primrec copy_str :: "memory \<Rightarrow> u64 \<Rightarrow> nat \<Rightarrow> u8 list \<times> bool" where
  "copy_str m p 0 = ([], False)"
| "copy_str m p (Suc n) =
     (if m p = 0 then ([0], True) else let (bs, got_null) = copy_str m (p + 1) n in (m p # bs, got_null))"

function copyinstr :: "u64 \<Rightarrow> u64 \<Rightarrow> nat \<Rightarrow> ('s kmem_scheme, int \<times> u8 list) kop" where
  "copyinstr pagetable srcva maxn =
     (if maxn = 0 then kret (-1, [])
      else let va0 = PGROUNDDOWN srcva in
        kbind (walkaddr pagetable va0) (\<lambda>pa0.
        if pa0 = 0 then kret (-1, [])
        else let n = min (page_room srcva) maxn in
          kbind (kget (\<lambda>s. copy_str (mem s) (pa0 + (srcva - va0)) n)) (\<lambda>(bs, got_null).
          if got_null then kret (0, bs)
          else kbind (copyinstr pagetable (va0 + PGSIZE) (maxn - n)) (\<lambda>(r, rest).
               kret (r, bs @ rest)))))"
  by pat_completeness auto
termination
  by (relation "measure (\<lambda>(pt, va, maxn). maxn)") (auto simp: page_room_pos)

declare copyout.simps [simp del] copyin.simps [simp del] copyinstr.simps [simp del]
  freewalk_loop.simps [simp del]

end
