(* ===== verification/Vm_Walk.thy ===== *)
theory Vm_Walk
  imports Vm
begin

text \<open>
  The page-table tree: the multiset of table pages under a root, what a lookup finds, and the
  effect of \<open>walk\<close> and of writing a leaf entry. A tree is well formed when its table pages are
  pairwise different, legal and not free; then \<open>walk\<close> only adds table pages taken from the
  allocator and changes no translation, and writing one leaf entry changes one translation.
\<close>

section \<open>Lookup and table pages\<close>

definition ent :: "memory \<Rightarrow> u64 \<Rightarrow> nat \<Rightarrow> u64" where
  "ent m pt i = ld64 m (pt + of_nat (8 * i))"

definition px :: "nat \<Rightarrow> u64 \<Rightarrow> nat" where
  "px l va = unat (PX l va)"

primrec pt_walk :: "memory \<Rightarrow> nat \<Rightarrow> u64 \<Rightarrow> u64 \<Rightarrow> u64 option" where
  "pt_walk m 0 pt va = Some (pt + of_nat (8 * px 0 va))"
| "pt_walk m (Suc l) pt va =
     (let e = ent m pt (px (Suc l) va) in if e AND PTE_V \<noteq> 0 then pt_walk m l (PTE2PA e) va else None)"

definition pte_at :: "memory \<Rightarrow> nat \<Rightarrow> u64 \<Rightarrow> u64 \<Rightarrow> u64" where
  "pte_at m l pt va = (case pt_walk m l pt va of None \<Rightarrow> 0 | Some a \<Rightarrow> ld64 m a)"

definition child :: "(u64 \<Rightarrow> 'a) \<Rightarrow> 'a \<Rightarrow> u64 \<Rightarrow> 'a" where
  "child f z e = (if e AND PTE_V \<noteq> 0 then f (PTE2PA e) else z)"

primrec pt_ms :: "memory \<Rightarrow> nat \<Rightarrow> u64 \<Rightarrow> u64 multiset" where
  "pt_ms m 0 pt = {#pt#}"
| "pt_ms m (Suc l) pt = add_mset pt (\<Sum>i<512. child (pt_ms m l) {#} (ent m pt i))"

text \<open>Entries above the last level point to tables: none of the permission bits is set.\<close>

primrec pt_tables :: "memory \<Rightarrow> nat \<Rightarrow> u64 \<Rightarrow> bool" where
  "pt_tables m 0 pt \<longleftrightarrow> True"
| "pt_tables m (Suc l) pt \<longleftrightarrow> (\<forall>i<512. child (\<lambda>c. ent m pt i AND (PTE_R OR PTE_W OR PTE_X) = 0 \<and>
     pt_tables m l c) True (ent m pt i))"

definition mdistinct :: "'a multiset \<Rightarrow> bool" where
  "mdistinct M \<longleftrightarrow> (\<forall>x. count M x \<le> 1)"

definition page_eq :: "memory \<Rightarrow> memory \<Rightarrow> u64 \<Rightarrow> bool" where
  "page_eq m m' q \<longleftrightarrow> (\<forall>k<4096. m' (q + of_nat k) = m (q + of_nat k))"

lemma px_less [simp]: "px l va < 512"
  by (simp add: px_def PX_less)

lemma ent_PX: "ld64 m (pt + 8 * PX l va) = ent m pt (px l va)"
  by (simp add: ent_def px_def)

lemma mdistinct_add: "mdistinct (add_mset x M) \<longleftrightarrow> x \<notin># M \<and> mdistinct M"
proof -
  have "count (add_mset x M) y \<le> 1 \<longleftrightarrow> (y = x \<longrightarrow> count M x = 0) \<and> count M y \<le> 1" for y
    by auto
  then show ?thesis unfolding mdistinct_def not_in_iff by blast
qed

lemma mdistinct_mono: "A \<subseteq># M \<Longrightarrow> mdistinct M \<Longrightarrow> mdistinct A"
  by (auto simp: mdistinct_def subseteq_mset_def intro: order_trans)

lemma mdistinct_union:
  "mdistinct (A + B) \<longleftrightarrow> mdistinct A \<and> mdistinct B \<and> set_mset A \<inter> set_mset B = {}"
proof
  assume d: "mdistinct (A + B)"
  have "count A x + count B x \<le> 1" for x using d by (simp add: mdistinct_def)
  then have "\<not> (x \<in># A \<and> x \<in># B)" for x
    by (metis add_le_same_cancel1 add_mono count_greater_eq_one_iff not_one_le_zero order_trans)
  moreover have "mdistinct A" and "mdistinct B" by (rule mdistinct_mono [OF _ d], simp)+
  ultimately show "mdistinct A \<and> mdistinct B \<and> set_mset A \<inter> set_mset B = {}" by blast
next
  assume "mdistinct A \<and> mdistinct B \<and> set_mset A \<inter> set_mset B = {}"
  then show "mdistinct (A + B)"
    unfolding mdistinct_def by (metis IntI add_0 add_0_right count_union empty_iff not_in_iff)
qed

lemma mdistinct_mset: "mdistinct (mset xs) \<longleftrightarrow> distinct xs"
  by (induction xs) (auto simp: mdistinct_add, simp add: mdistinct_def)

lemma sum_split: "i < n \<Longrightarrow> (\<Sum>j<n. f j) = f i + (\<Sum>j\<in>{..<n} - {i}. f j :: 'a multiset)"
  for n :: nat
  by (simp add: sum.remove)

section \<open>Pages that do not change\<close>

lemma page_eq_refl [simp]: "page_eq m m q"
  by (simp add: page_eq_def)

lemma page_eq_trans: "page_eq m m' q \<Longrightarrow> page_eq m' m'' q \<Longrightarrow> page_eq m m'' q"
  by (simp add: page_eq_def)

lemma page_eq_store:
  assumes "page_aligned p" and "page_aligned q" and "p \<noteq> q" and "a + length bs \<le> 4096"
  shows "page_eq m (mem_store m (p + of_nat a) bs) q"
  unfolding page_eq_def using page_offset_diff [OF assms(2,1)] assms(3,4)
  by (auto intro!: mem_store_out)

lemma page_eq_store0:
  "page_aligned p \<Longrightarrow> page_aligned q \<Longrightarrow> p \<noteq> q \<Longrightarrow> length bs \<le> 4096 \<Longrightarrow> page_eq m (mem_store m p bs) q"
  using page_eq_store [of p q 0 bs m] by simp

lemma page_eq_st64:
  "page_aligned p \<Longrightarrow> page_aligned q \<Longrightarrow> p \<noteq> q \<Longrightarrow> i < 512 \<Longrightarrow> page_eq m (st64 m (p + of_nat (8 * i)) v) q"
  unfolding st64_def by (rule page_eq_store) simp_all

lemma page_eq_ld64: "page_eq m m' q \<Longrightarrow> a + 8 \<le> 4096 \<Longrightarrow> ld64 m' (q + of_nat a) = ld64 m (q + of_nat a)"
proof -
  assume eq: "page_eq m m' q" and a: "a + 8 \<le> 4096"
  have "m' (q + of_nat a + of_nat i) = m (q + of_nat a + of_nat i)" if "i < 8" for i
  proof -
    have "a + i < 4096" using a that by simp
    then have "m' (q + of_nat (a + i)) = m (q + of_nat (a + i))" using eq unfolding page_eq_def by blast
    then show ?thesis by (simp add: add.assoc)
  qed
  then show ?thesis unfolding ld64_def by (metis mem_bytes_cong)
qed

lemma page_eq_ent: "page_eq m m' q \<Longrightarrow> i < 512 \<Longrightarrow> ent m' q i = ent m q i"
  unfolding ent_def by (rule page_eq_ld64) simp_all

lemma ent_st64_same [simp]: "ent (st64 m (p + of_nat (8 * i)) v) p i = v"
  by (simp add: ent_def)

lemma ent_st64_other: "i < 512 \<Longrightarrow> j < 512 \<Longrightarrow> i \<noteq> j \<Longrightarrow> ent (st64 m (p + of_nat (8 * i)) v) p j = ent m p j"
  unfolding ent_def by (rule ld64_st64_same_page) auto

lemma ent_zero_page: "i < 512 \<Longrightarrow> ent (mem_store m p (replicate 4096 0)) p i = 0"
  unfolding ent_def by (rule ld64_memset_zero) simp

section \<open>The tree under changes of memory\<close>

lemma child_in_pt_ms:
  assumes "i < 512" and "q \<in># child (pt_ms m l) {#} (ent m pt i)"
  shows "q \<in># pt_ms m (Suc l) pt"
  using assms by (simp add: sum_split [of i])

lemma child_subset:
  "i < 512 \<Longrightarrow> child (pt_ms m l) {#} (ent m pt i) \<subseteq># pt_ms m (Suc l) pt"
  by (simp add: sum_split [of i])

lemma child_disjoint:
  assumes "mdistinct (pt_ms m (Suc l) pt)" and "i < 512" and "j < 512" and "i \<noteq> j"
    and "q \<in># child (pt_ms m l) {#} (ent m pt i)"
  shows "q \<notin># child (pt_ms m l) {#} (ent m pt j)"
proof -
  let ?f = "\<lambda>i. child (pt_ms m l) {#} (ent m pt i)"
  have "mdistinct (?f i + (\<Sum>k\<in>{..<512} - {i}. ?f k))"
    using assms(1,2) by (simp add: sum_split [of i] mdistinct_add)
  moreover have "?f j \<subseteq># (\<Sum>k\<in>{..<512} - {i}. ?f k)"
    using assms(3,4) by (simp add: sum.remove [of _ j])
  ultimately have "set_mset (?f i) \<inter> set_mset (?f j) = {}"
    unfolding mdistinct_union using set_mset_mono [of "?f j"] by blast
  then show ?thesis using assms(5) by blast
qed

lemma root_not_in_child:
  assumes "mdistinct (pt_ms m (Suc l) pt)" and "i < 512"
  shows "pt \<notin># child (pt_ms m l) {#} (ent m pt i)"
  using assms by (auto simp: sum_split [of i] mdistinct_add)

lemma pt_root_in [simp]: "pt \<in># pt_ms m l pt"
  by (cases l) auto

lemma pt_frame:
  assumes "\<forall>q\<in>#pt_ms m l pt. page_eq m m' q"
  shows "pt_ms m' l pt = pt_ms m l pt" and "pt_walk m' l pt va = pt_walk m l pt va"
    and "pte_at m' l pt va = pte_at m l pt va" and "pt_tables m' l pt = pt_tables m l pt"
proof -
  have "pt_ms m' l pt = pt_ms m l pt \<and> pt_walk m' l pt va = pt_walk m l pt va \<and>
      pte_at m' l pt va = pte_at m l pt va \<and> pt_tables m' l pt = pt_tables m l pt"
    using assms
  proof (induction l arbitrary: pt)
    case 0
    then show ?case using page_eq_ent [of m m' pt "px 0 va"] by (simp add: pte_at_def ent_def)
  next
    case (Suc l)
    have e: "ent m' pt i = ent m pt i" if "i < 512" for i
      using Suc.prems that by (intro page_eq_ent) simp_all
    have k: "pt_ms m' l (PTE2PA (ent m pt i)) = pt_ms m l (PTE2PA (ent m pt i)) \<and>
        pt_walk m' l (PTE2PA (ent m pt i)) va = pt_walk m l (PTE2PA (ent m pt i)) va \<and>
        pte_at m' l (PTE2PA (ent m pt i)) va = pte_at m l (PTE2PA (ent m pt i)) va \<and>
        pt_tables m' l (PTE2PA (ent m pt i)) = pt_tables m l (PTE2PA (ent m pt i))"
      if "i < 512" and "ent m pt i AND PTE_V \<noteq> 0" for i
    proof (rule Suc.IH, rule ballI)
      fix q assume "q \<in># pt_ms m l (PTE2PA (ent m pt i))"
      then have "q \<in># pt_ms m (Suc l) pt"
        using that by (intro child_in_pt_ms [OF that(1)]) (simp add: child_def)
      with Suc.prems show "page_eq m m' q" by blast
    qed
    have "child (pt_ms m' l) {#} (ent m' pt i) = child (pt_ms m l) {#} (ent m pt i)" if "i < 512" for i
      using e k that by (simp add: child_def)
    moreover have "pt_tables m' (Suc l) pt = pt_tables m (Suc l) pt" using e k by (auto simp: child_def)
    ultimately show ?case using e k [of "px (Suc l) va"]
      by (auto simp: pte_at_def Let_def simp del: pt_tables.simps intro!: sum.cong)
  qed
  then show "pt_ms m' l pt = pt_ms m l pt" and "pt_walk m' l pt va = pt_walk m l pt va"
    and "pte_at m' l pt va = pte_at m l pt va" and "pt_tables m' l pt = pt_tables m l pt" by blast+
qed

lemma pte_at_Suc:
  "pte_at m (Suc l) pt va = child (\<lambda>c. pte_at m l c va) 0 (ent m pt (px (Suc l) va))"
  by (simp add: pte_at_def child_def Let_def)

lemma pt_walk_Suc:
  "pt_walk m (Suc l) pt va = child (\<lambda>c. pt_walk m l c va) None (ent m pt (px (Suc l) va))"
  by (simp add: child_def Let_def)

text \<open>Changing one subtree of a table adds the subtree's new pages and keeps the other subtrees.\<close>

lemma pt_step:
  assumes "i < 512" and ents_all: "\<forall>j<512. j \<noteq> i \<longrightarrow> ent m' pt j = ent m pt j"
    and kids_all: "\<forall>j<512. j \<noteq> i \<longrightarrow> (\<forall>q\<in>#child (pt_ms m l) {#} (ent m pt j). page_eq m m' q)"
    and new: "child (pt_ms m' l) {#} (ent m' pt i) = child (pt_ms m l) {#} (ent m pt i) + K"
  shows "pt_ms m' (Suc l) pt = pt_ms m (Suc l) pt + K"
    and "px (Suc l) va \<noteq> i \<Longrightarrow> pte_at m' (Suc l) pt va = pte_at m (Suc l) pt va"
    and "px (Suc l) va \<noteq> i \<Longrightarrow> pt_walk m' (Suc l) pt va = pt_walk m (Suc l) pt va"
    and "pt_tables m (Suc l) pt \<Longrightarrow>
      child (\<lambda>c. ent m' pt i AND (PTE_R OR PTE_W OR PTE_X) = 0 \<and> pt_tables m' l c) True (ent m' pt i) \<Longrightarrow>
      pt_tables m' (Suc l) pt"
proof -
  note ents = ents_all [rule_format] and kids = kids_all [rule_format]
  have k: "\<forall>q\<in>#pt_ms m l (PTE2PA (ent m pt j)). page_eq m m' q"
    if "j < 512" and "j \<noteq> i" and "ent m pt j AND PTE_V \<noteq> 0" for j
    using kids [OF that(1,2)] that(3) by (simp add: child_def)
  have same: "child (pt_ms m' l) {#} (ent m' pt j) = child (pt_ms m l) {#} (ent m pt j)"
    if "j < 512" and "j \<noteq> i" for j
    using ents [OF that] pt_frame(1) [OF k [OF that]] by (simp add: child_def)
  then have "(\<Sum>j\<in>{..<512} - {i}. child (pt_ms m' l) {#} (ent m' pt j)) =
      (\<Sum>j\<in>{..<512} - {i}. child (pt_ms m l) {#} (ent m pt j))"
    by (intro sum.cong) auto
  then show "pt_ms m' (Suc l) pt = pt_ms m (Suc l) pt + K"
    using assms(1) by (simp add: sum_split [of i] new ac_simps)
  show "pt_tables m' (Suc l) pt" if "pt_tables m (Suc l) pt"
      and "child (\<lambda>c. ent m' pt i AND (PTE_R OR PTE_W OR PTE_X) = 0 \<and> pt_tables m' l c) True (ent m' pt i)"
  proof -
    have "child (\<lambda>c. ent m' pt j AND (PTE_R OR PTE_W OR PTE_X) = 0 \<and> pt_tables m' l c) True (ent m' pt j)"
      if "j < 512" and "j \<noteq> i" for j
      using \<open>pt_tables m (Suc l) pt\<close> ents [OF that] pt_frame(4) [OF k [OF that]] that(1) by (auto simp: child_def)
    then show ?thesis using that(2) unfolding pt_tables.simps by metis
  qed
  assume va: "px (Suc l) va \<noteq> i"
  then show "pte_at m' (Suc l) pt va = pte_at m (Suc l) pt va"
    using ents [OF px_less va] pt_frame(3) [OF k [OF px_less va]] by (simp add: pte_at_Suc child_def)
  show "pt_walk m' (Suc l) pt va = pt_walk m (Suc l) pt va"
    using ents [OF px_less va] pt_frame(2) [OF k [OF px_less va]] by (simp add: Let_def)
qed

section \<open>Walking without allocation\<close>

lemma pt_walk_page:
  "pt_walk m l pt va = Some a \<Longrightarrow> \<exists>q\<in>#pt_ms m l pt. a = q + of_nat (8 * px 0 va)"
proof (induction l arbitrary: pt)
  case (Suc l)
  then have v: "ent m pt (px (Suc l) va) AND PTE_V \<noteq> 0"
    and "pt_walk m l (PTE2PA (ent m pt (px (Suc l) va))) va = Some a"
    by (simp_all add: Let_def split: if_splits)
  then obtain q where "q \<in># pt_ms m l (PTE2PA (ent m pt (px (Suc l) va)))"
      and "a = q + of_nat (8 * px 0 va)"
    using Suc.IH by blast
  moreover from this(1) v have "q \<in># pt_ms m (Suc l) pt"
    by (intro child_in_pt_ms [OF px_less [of "Suc l" va]]) (simp add: child_def)
  ultimately show ?case by blast
qed simp

lemma walk_loop_noalloc:
  "walk_loop l pt va False s = Ret (case pt_walk (mem s) l pt va of None \<Rightarrow> 0 | Some a \<Rightarrow> a, s)"
proof (induction l arbitrary: pt)
  case (Suc l)
  then show ?case by (simp add: ent_PX Let_def)
qed (simp add: px_def)

section \<open>Walking with allocation\<close>

text \<open>An operation of the allocator's clients that touches only memory and the free list.\<close>

definition kmem_frame :: "'s kmem_scheme \<Rightarrow> 's kmem_scheme \<Rightarrow> bool" where
  "kmem_frame s s' \<longleftrightarrow> s' = s\<lparr>mem := mem s', freelist := freelist s'\<rparr>"

lemma kmem_frame_refl [simp]: "kmem_frame s s"
  by (simp add: kmem_frame_def)

lemma kmem_frame_trans: "kmem_frame s s' \<Longrightarrow> kmem_frame s' s'' \<Longrightarrow> kmem_frame s s''"
  by (simp add: kmem_frame_def) (metis kmem.surjective kmem.update_convs(1,3))

lemma kmem_frame_mem [simp]: "kmem_frame s (s\<lparr>mem := m\<rparr>)"
  by (simp add: kmem_frame_def)

lemma kmem_frame_kend: "kmem_frame s s' \<Longrightarrow> kend s' = kend s"
  by (simp add: kmem_frame_def) (metis kmem.ext_inject kmem.surjective kmem.update_convs(1,3))

lemma kmem_frame_page_ok: "kmem_frame s s' \<Longrightarrow> page_ok s' p = page_ok s p"
  by (simp add: page_ok_def kmem_frame_kend)

lemma page_ok_aligned: "page_ok s p \<Longrightarrow> page_aligned p"
  by (simp add: page_ok_def)

lemma kmem_wf_frame:
  assumes "kmem_wf s ps" and "kmem_frame s s'" and "freelist s' = freelist s"
    and "\<forall>p\<in>set ps. page_eq (mem s) (mem s') p"
  shows "kmem_wf s' ps"
proof -
  have "ld64 (mem s) p = ld64 (mem s') p" if "p \<in> set ps" for p
    using page_eq_ld64 [of "mem s" "mem s'" p 0] assms(4) that by simp
  then have "run_list (mem s') (freelist s') ps"
    using assms(1,3) run_list_cong [of ps "mem s" "mem s'"] by (simp add: kmem_wf_def)
  then show ?thesis using assms(1,2) by (simp add: kmem_wf_def kmem_frame_page_ok)
qed

lemma kalloc_Cons:
  assumes "kmem_wf s (p # ps)"
  shows "\<exists>s1. kalloc s = Ret (p, s1) \<and> kmem_wf s1 ps \<and> kmem_frame s s1 \<and>
           (\<forall>q. page_aligned q \<longrightarrow> q \<noteq> p \<longrightarrow> page_eq (mem s) (mem s1) q)"
proof -
  have "page_aligned p" and f: "freelist s = p" "p \<noteq> 0"
    using assms by (auto simp: kmem_wf_def page_ok_def)
  then have "\<forall>q. page_aligned q \<longrightarrow> q \<noteq> p \<longrightarrow> page_eq (mem s) (mem_store (mem s) p (replicate 4096 5)) q"
    by (auto intro: page_eq_store0)
  then show ?thesis using kalloc_wf_Cons [OF assms] f
    by (auto simp: kalloc_eq kmem_frame_def)
qed

text \<open>A page from the allocator, cleared: an empty table, or an empty user page.\<close>

lemma kalloc_zero:
  assumes "kmem_wf s (p # ps)"
  shows "\<exists>s1 s2. kalloc s = Ret (p, s1) \<and> s2 = s1\<lparr>mem := memset p 0 (ucast PGSIZE) (mem s1)\<rparr> \<and>
           kmem_wf s2 ps \<and> kmem_frame s s2 \<and> (\<forall>i<512. ent (mem s2) p i = 0) \<and>
           mem_bytes (mem s2) p 4096 = replicate 4096 0 \<and>
           (\<forall>q. page_aligned q \<longrightarrow> q \<noteq> p \<longrightarrow> page_eq (mem s) (mem s2) q)"
proof -
  from kalloc_Cons [OF assms] obtain s1 where s1: "kalloc s = Ret (p, s1)" "kmem_wf s1 ps" "kmem_frame s s1"
      "\<forall>q. page_aligned q \<longrightarrow> q \<noteq> p \<longrightarrow> page_eq (mem s) (mem s1) q" by blast
  have al: "page_aligned p" and new: "p \<notin> set ps" using assms by (auto simp: kmem_wf_def page_ok_def)
  define s2 where "s2 = s1\<lparr>mem := memset p 0 (ucast PGSIZE) (mem s1)\<rparr>"
  have m2: "mem s2 = mem_store (mem s1) p (replicate 4096 0)" by (simp add: s2_def memset_store)
  have eq: "page_eq (mem s1) (mem s2) q" if "page_aligned q" and "q \<noteq> p" for q
    unfolding m2 using al that by (intro page_eq_store0) auto
  then have "kmem_wf s2 ps"
    using s1(2) new by (intro kmem_wf_frame [OF s1(2)]) (auto simp: s2_def kmem_wf_def page_ok_def)
  moreover have "kmem_frame s s2" using s1(3) by (rule kmem_frame_trans) (simp add: s2_def)
  moreover have "\<forall>i<512. ent (mem s2) p i = 0" by (simp add: m2 ent_zero_page)
  moreover have "mem_bytes (mem s2) p 4096 = replicate 4096 0" by (simp add: m2 mem_bytes_store_same)
  moreover have "\<forall>q. page_aligned q \<longrightarrow> q \<noteq> p \<longrightarrow> page_eq (mem s) (mem s2) q"
    using eq s1(4) page_eq_trans by blast
  ultimately show ?thesis using s1(1) s2_def by blast
qed

lemma empty_table:
  assumes "\<forall>i<512. ent m p i = 0"
  shows "pt_ms m l p = {#p#}" and "pte_at m l p va = 0"
  using assms px_less [of l va] by (cases l; simp add: child_def pte_at_def ent_def Let_def)+

definition pt_wf :: "'s kmem_scheme \<Rightarrow> u64 list \<Rightarrow> nat \<Rightarrow> u64 \<Rightarrow> bool" where
  "pt_wf s ps l pt \<longleftrightarrow> mdistinct (pt_ms (mem s) l pt) \<and> (\<forall>p\<in>#pt_ms (mem s) l pt. page_ok s p \<and> p \<notin> set ps)"

text \<open>
  The frame of an operation on one tree: the tree only gains pages, all taken from the front of
  the free list, and no other page changes. A \<open>walk\<close>, successful or not, moreover keeps every
  translation.
\<close>

definition pt_ext ::
    "'s kmem_scheme \<Rightarrow> u64 list \<Rightarrow> nat \<Rightarrow> u64 \<Rightarrow> 's kmem_scheme \<Rightarrow> u64 list \<Rightarrow> bool" where
  "pt_ext s ps l pt s' ps' \<longleftrightarrow>
     kmem_wf s' ps' \<and> kmem_frame s s' \<and>
     (\<exists>N. ps = N @ ps' \<and> pt_ms (mem s') l pt = pt_ms (mem s) l pt + mset N) \<and>
     (\<forall>q. page_aligned q \<longrightarrow> q \<notin># pt_ms (mem s) l pt \<longrightarrow> q \<notin> set ps \<longrightarrow> page_eq (mem s) (mem s') q) \<and>
     (pt_tables (mem s) l pt \<longrightarrow> pt_tables (mem s') l pt)"

definition walk_post ::
    "'s kmem_scheme \<Rightarrow> u64 list \<Rightarrow> nat \<Rightarrow> u64 \<Rightarrow> 's kmem_scheme \<Rightarrow> u64 list \<Rightarrow> bool" where
  "walk_post s ps l pt s' ps' \<longleftrightarrow>
     pt_ext s ps l pt s' ps' \<and> (\<forall>va. pte_at (mem s') l pt va = pte_at (mem s) l pt va)"

lemma page_ok_offset_nonzero: "page_ok s p \<Longrightarrow> k < 4096 \<Longrightarrow> p + of_nat k \<noteq> 0"
proof
  assume ok: "page_ok s p" and k: "k < 4096" and z: "p + of_nat k = 0"
  have "unat p < 2281701376" using ok by (simp add: page_ok_def word_less_nat_alt)
  then have "unat (p + of_nat k) = unat p + k" using k by (intro unat_add_of_nat) simp
  then have "unat p = 0" using z by (simp only: unat_0)
  then show False using ok unfolding page_ok_def by (simp add: unat_eq_zero)
qed

lemma pt_wf_child:
  assumes "pt_wf s ps (Suc l) pt" and "i < 512" and "ent (mem s) pt i AND PTE_V \<noteq> 0"
  shows "pt_wf s ps l (PTE2PA (ent (mem s) pt i))"
proof -
  have c: "child (pt_ms (mem s) l) {#} (ent (mem s) pt i) = pt_ms (mem s) l (PTE2PA (ent (mem s) pt i))"
    using assms(3) by (simp add: child_def)
  then show ?thesis
    using assms(1,2) child_subset [OF assms(2), of "mem s" l pt] child_in_pt_ms [OF assms(2), of _ "mem s" l pt]
    unfolding pt_wf_def by (auto intro: mdistinct_mono)
qed

lemma pt_ext_wf:
  assumes "kmem_wf s ps" and "pt_wf s ps l pt" and "pt_ext s ps l pt s' ps'"
  shows "pt_wf s' ps' l pt"
proof -
  from assms(3) obtain N where N: "ps = N @ ps'" "pt_ms (mem s') l pt = pt_ms (mem s) l pt + mset N"
      and fr: "kmem_frame s s'" unfolding pt_ext_def by blast
  have "distinct ps" and ok: "\<forall>p\<in>set ps. page_ok s p" using assms(1) by (auto simp: kmem_wf_def)
  with N assms(2) show ?thesis
    by (auto simp: pt_wf_def mdistinct_union mdistinct_mset kmem_frame_page_ok [OF fr])
qed

lemma walk_post_wf:
  "kmem_wf s ps \<Longrightarrow> pt_wf s ps l pt \<Longrightarrow> walk_post s ps l pt s' ps' \<Longrightarrow> pt_wf s' ps' l pt"
  unfolding walk_post_def using pt_ext_wf by blast

lemma walk_post_refl: "kmem_wf s ps \<Longrightarrow> walk_post s ps l pt s ps"
  by (simp add: walk_post_def pt_ext_def)

lemma pt_ext_trans:
  assumes "pt_ext s ps l pt s1 ps1" and "pt_ext s1 ps1 l pt s2 ps2"
  shows "pt_ext s ps l pt s2 ps2"
proof -
  from assms obtain N1 N2 where N: "ps = N1 @ ps1" "pt_ms (mem s1) l pt = pt_ms (mem s) l pt + mset N1"
      "ps1 = N2 @ ps2" "pt_ms (mem s2) l pt = pt_ms (mem s1) l pt + mset N2"
    unfolding pt_ext_def by blast
  have "page_eq (mem s) (mem s2) q"
    if q: "page_aligned q" "q \<notin># pt_ms (mem s) l pt" "q \<notin> set ps" for q
  proof -
    have "page_eq (mem s) (mem s1) q" using assms(1) q unfolding pt_ext_def by blast
    moreover have "q \<notin># pt_ms (mem s1) l pt" and "q \<notin> set ps1" using N q by auto
    then have "page_eq (mem s1) (mem s2) q" using assms(2) q(1) unfolding pt_ext_def by blast
    ultimately show ?thesis by (rule page_eq_trans)
  qed
  moreover have "ps = (N1 @ N2) @ ps2 \<and> pt_ms (mem s2) l pt = pt_ms (mem s) l pt + mset (N1 @ N2)"
    using N by simp
  moreover have "kmem_wf s2 ps2" "kmem_frame s s2"
    using assms kmem_frame_trans unfolding pt_ext_def by blast+
  moreover have "pt_tables (mem s) l pt \<longrightarrow> pt_tables (mem s2) l pt"
    using assms unfolding pt_ext_def by blast
  ultimately show ?thesis unfolding pt_ext_def by blast
qed

lemma walk_post_trans:
  "walk_post s ps l pt s1 ps1 \<Longrightarrow> walk_post s1 ps1 l pt s2 ps2 \<Longrightarrow> walk_post s ps l pt s2 ps2"
  unfolding walk_post_def using pt_ext_trans by metis

text \<open>A walk in a subtree is a walk in the tree.\<close>

lemma walk_post_child:
  assumes wf: "pt_wf s ps (Suc l) pt" and i: "i < 512" and v: "ent (mem s) pt i AND PTE_V \<noteq> 0"
    and post: "walk_post s ps l (PTE2PA (ent (mem s) pt i)) s' ps'"
  shows "walk_post s ps (Suc l) pt s' ps'" and "ent (mem s') pt i = ent (mem s) pt i"
proof -
  let ?c = "PTE2PA (ent (mem s) pt i)"
  have c: "child (pt_ms (mem s) l) {#} (ent (mem s) pt i) = pt_ms (mem s) l ?c"
    using v by (simp add: child_def)
  have md: "mdistinct (pt_ms (mem s) (Suc l) pt)"
    and ok: "\<And>q. q \<in># pt_ms (mem s) (Suc l) pt \<Longrightarrow> page_aligned q \<and> q \<notin> set ps"
    using wf by (auto simp: pt_wf_def page_ok_def)
  have keep: "page_eq (mem s) (mem s') q" if "page_aligned q" "q \<notin># pt_ms (mem s) l ?c" "q \<notin> set ps" for q
    using post that unfolding walk_post_def pt_ext_def by blast
  have "page_eq (mem s) (mem s') pt"
    using root_not_in_child [OF md i] ok [OF pt_root_in] by (intro keep) (simp_all add: c)
  then have ents: "ent (mem s') pt j = ent (mem s) pt j" if "j < 512" for j
    using that by (intro page_eq_ent)
  then show e: "ent (mem s') pt i = ent (mem s) pt i" using i by simp
  have kids: "page_eq (mem s) (mem s') q"
    if "j < 512" "j \<noteq> i" "q \<in># child (pt_ms (mem s) l) {#} (ent (mem s) pt j)" for j q
    using ok [OF child_in_pt_ms [OF that(1,3)]] child_disjoint [OF md that(1) i that(2,3)]
    by (intro keep) (simp_all add: c)
  from post obtain N where N: "ps = N @ ps'" "pt_ms (mem s') l ?c = pt_ms (mem s) l ?c + mset N"
    unfolding walk_post_def pt_ext_def by blast
  have new: "child (pt_ms (mem s') l) {#} (ent (mem s') pt i) =
      child (pt_ms (mem s) l) {#} (ent (mem s) pt i) + mset N"
    using N(2) v by (simp add: child_def e)
  have ents': "\<forall>j<512. j \<noteq> i \<longrightarrow> ent (mem s') pt j = ent (mem s) pt j" using ents by blast
  have kids': "\<forall>j<512. j \<noteq> i \<longrightarrow> (\<forall>q\<in>#child (pt_ms (mem s) l) {#} (ent (mem s) pt j). page_eq (mem s) (mem s') q)"
    using kids by blast
  note st = pt_step [OF i ents' kids' new]
  have "pte_at (mem s') (Suc l) pt va = pte_at (mem s) (Suc l) pt va" for va
  proof (cases "px (Suc l) va = i")
    case True
    have "pte_at (mem s') l ?c va = pte_at (mem s) l ?c va" using post unfolding walk_post_def pt_ext_def by blast
    then show ?thesis using True e v by (simp add: pte_at_Suc child_def)
  qed (simp add: st(2))
  moreover have "pt_ms (mem s') (Suc l) pt = pt_ms (mem s) (Suc l) pt + mset N" by (rule st(1))
  moreover have "page_eq (mem s) (mem s') q"
    if "page_aligned q" "q \<notin># pt_ms (mem s) (Suc l) pt" "q \<notin> set ps" for q
    using child_in_pt_ms [OF i, of q "mem s" l pt] that c by (intro keep) auto
  moreover have "pt_tables (mem s') (Suc l) pt" if t: "pt_tables (mem s) (Suc l) pt"
  proof (rule st(4) [OF t])
    have "ent (mem s) pt i AND (PTE_R OR PTE_W OR PTE_X) = 0" "pt_tables (mem s) l ?c"
      using t i v by (auto simp: child_def)
    then show "child (\<lambda>c. ent (mem s') pt i AND (PTE_R OR PTE_W OR PTE_X) = 0 \<and> pt_tables (mem s') l c) True
        (ent (mem s') pt i)"
      using post unfolding e child_def walk_post_def pt_ext_def by simp
  qed
  ultimately show "walk_post s ps (Suc l) pt s' ps'"
    using post N(1) unfolding walk_post_def pt_ext_def by blast
qed

lemma PTE2PA_table: "page_aligned p \<Longrightarrow> PTE2PA (PA2PTE p OR PTE_V) = p"
  by (simp add: PTE2PA_flags)

lemma PTE_V_or: "(x OR 1) AND 1 \<noteq> (0 :: u64)"
proof -
  have "bit ((x OR 1) AND 1 :: u64) 0" by (simp add: bit_simps)
  then show ?thesis by (metis bit_0_eq bot_apply bot_bool_def)
qed

lemma PA2PTE_low: "(PA2PTE p OR 1) AND 14 = 0"
proof (rule bit_word_eqI)
  fix n
  have 14: "(14 :: u64) = mask 4 AND NOT 1" by (simp add: mask_eq_exp_minus_1)
  show "bit ((PA2PTE p OR 1) AND 14) n = bit (0 :: u64) n"
    unfolding 14 by (auto simp: PA2PTE_def bit_simps)
qed

text \<open>Linking a fresh, cleared table under an invalid entry.\<close>

lemma walk_post_link:
  assumes wf: "pt_wf s (p # ps) (Suc l) pt" and k: "kmem_wf s (p # ps)" and i: "i < 512"
    and v: "ent (mem s) pt i AND PTE_V = 0"
    and s2: "kmem_wf s2 ps" "kmem_frame s s2" "\<forall>i<512. ent (mem s2) p i = 0"
      "\<forall>q. page_aligned q \<longrightarrow> q \<noteq> p \<longrightarrow> page_eq (mem s) (mem s2) q"
    and s3: "s3 = s2\<lparr>mem := st64 (mem s2) (pt + of_nat (8 * i)) (PA2PTE p OR PTE_V)\<rparr>"
  shows "walk_post s (p # ps) (Suc l) pt s3 ps" and "ent (mem s3) pt i = PA2PTE p OR PTE_V"
proof -
  have md: "mdistinct (pt_ms (mem s) (Suc l) pt)"
    and ok: "\<And>q. q \<in># pt_ms (mem s) (Suc l) pt \<Longrightarrow> page_aligned q \<and> q \<noteq> p \<and> q \<notin> set ps"
    using wf by (auto simp: pt_wf_def page_ok_def)
  have al: "page_aligned p" "page_aligned pt" "pt \<noteq> p" "pt \<notin> set ps"
    using ok [OF pt_root_in] k by (auto simp: kmem_wf_def page_ok_def)
  have eq23: "page_eq (mem s2) (mem s3) q" if "page_aligned q" "q \<noteq> pt" for q
    unfolding s3 using page_eq_st64 [OF al(2) that(1) _ i] that(2) by auto
  have keep: "page_eq (mem s) (mem s3) q" if "page_aligned q" "q \<noteq> pt" "q \<noteq> p" for q
    using page_eq_trans [OF _ eq23] s2(4) that by blast
  show e: "ent (mem s3) pt i = PA2PTE p OR PTE_V" using s3 ent_st64_same by simp
  have ents: "ent (mem s3) pt j = ent (mem s) pt j" if "j < 512" "j \<noteq> i" for j
    using ent_st64_other [OF i that(1)] that page_eq_ent [OF s2(4) [rule_format, OF al(2,3)] that(1)]
    by (simp add: s3)
  have kids: "page_eq (mem s) (mem s3) q"
    if "j < 512" "j \<noteq> i" "q \<in># child (pt_ms (mem s) l) {#} (ent (mem s) pt j)" for j q
    using ok [OF child_in_pt_ms [OF that(1,3)]] root_not_in_child [OF md that(1)] that(3)
    by (intro keep) auto
  have zero: "\<forall>j<512. ent (mem s3) p j = 0"
    using page_eq_ent [OF eq23 [OF al(1)]] al(3) s2(3) by auto
  have e2: "ent (mem s3) pt i AND PTE_V \<noteq> 0" "PTE2PA (ent (mem s3) pt i) = p"
    unfolding e using PTE_V_or PTE2PA_table [OF al(1)] by auto
  have new: "child (pt_ms (mem s3) l) {#} (ent (mem s3) pt i) =
      child (pt_ms (mem s) l) {#} (ent (mem s) pt i) + mset [p]"
    using e2 v by (simp add: child_def empty_table [OF zero])
  have ents': "\<forall>j<512. j \<noteq> i \<longrightarrow> ent (mem s3) pt j = ent (mem s) pt j" using ents by blast
  have kids': "\<forall>j<512. j \<noteq> i \<longrightarrow> (\<forall>q\<in>#child (pt_ms (mem s) l) {#} (ent (mem s) pt j). page_eq (mem s) (mem s3) q)"
    using kids by blast
  note st = pt_step [OF i ents' kids' new]
  have "pte_at (mem s3) (Suc l) pt va = pte_at (mem s) (Suc l) pt va" for va
    using st(2) [where va = va] e2 v empty_table(2) [OF zero]
    by (cases "px (Suc l) va = i") (auto simp: pte_at_Suc child_def)
  moreover have "page_eq (mem s) (mem s3) q"
    if "page_aligned q" "q \<notin># pt_ms (mem s) (Suc l) pt" "q \<notin> set (p # ps)" for q
    using that pt_root_in [of pt "mem s" "Suc l"] by (intro keep) auto
  moreover have "kmem_wf s3 ps"
    using s2(1) al(4) eq23 by (intro kmem_wf_frame [OF s2(1)]) (auto simp: s3 kmem_wf_def page_ok_def)
  moreover have "kmem_frame s s3" using s2(2) by (rule kmem_frame_trans) (simp add: s3)
  moreover have "p # ps = [p] @ ps \<and> pt_ms (mem s3) (Suc l) pt = pt_ms (mem s) (Suc l) pt + mset [p]"
    using st(1) by simp
  moreover have "pt_tables (mem s3) (Suc l) pt" if t: "pt_tables (mem s) (Suc l) pt"
  proof (rule st(4) [OF t])
    have "pt_tables (mem s3) l p" using zero by (cases l) (simp_all add: child_def)
    then show "child (\<lambda>c. ent (mem s3) pt i AND (PTE_R OR PTE_W OR PTE_X) = 0 \<and> pt_tables (mem s3) l c) True
        (ent (mem s3) pt i)"
      using e2 PA2PTE_low [of p] by (simp add: child_def e)
  qed
  ultimately show "walk_post s (p # ps) (Suc l) pt s3 ps"
    unfolding walk_post_def pt_ext_def by blast
qed

lemma walk_loop_alloc:
  assumes "kmem_wf s ps" and "pt_wf s ps l pt"
  shows "\<exists>a s' ps'. walk_loop l pt va True s = Ret (a, s') \<and> walk_post s ps l pt s' ps' \<and>
           (if a = 0 then ps' = [] else pt_walk (mem s') l pt va = Some a)"
  using assms
proof (induction l arbitrary: pt s ps)
  case 0
  have "page_ok s pt" using 0(2) by (simp add: pt_wf_def)
  then have "pt + of_nat (8 * px 0 va) \<noteq> 0" using px_less [of 0 va] by (intro page_ok_offset_nonzero) auto
  then show ?case using walk_post_refl [OF 0(1)] by (auto simp: px_def)
next
  case (Suc l)
  let ?i = "px (Suc l) va"
  show ?case
  proof (cases "ent (mem s) pt ?i AND PTE_V = 0")
    case False
    from Suc.IH [OF Suc.prems(1) pt_wf_child [OF Suc.prems(2) px_less False]]
    obtain a s' ps' where r: "walk_loop l (PTE2PA (ent (mem s) pt ?i)) va True s = Ret (a, s')"
      "walk_post s ps l (PTE2PA (ent (mem s) pt ?i)) s' ps'"
      "if a = 0 then ps' = [] else pt_walk (mem s') l (PTE2PA (ent (mem s) pt ?i)) va = Some a" by blast
    note c = walk_post_child [OF Suc.prems(2) px_less False r(2)]
    show ?thesis using r c False by (auto simp: ent_PX Let_def split: if_splits)
  next
    case True
    show ?thesis
    proof (cases ps)
      case Nil
      then show ?thesis
        using True Suc.prems(1) kalloc_wf_Nil [of s] walk_post_refl [of s "[]"] by (auto simp: ent_PX)
    next
      case (Cons p qs)
      note k = Suc.prems(1) [unfolded Cons] and wf = Suc.prems(2) [unfolded Cons]
      from kalloc_zero [OF k] obtain s1 s2 where s1: "kalloc s = Ret (p, s1)"
        and s2d: "s2 = s1\<lparr>mem := memset p 0 (ucast PGSIZE) (mem s1)\<rparr>" and s2: "kmem_wf s2 qs"
          "kmem_frame s s2" "\<forall>i<512. ent (mem s2) p i = 0"
          "\<forall>q. page_aligned q \<longrightarrow> q \<noteq> p \<longrightarrow> page_eq (mem s) (mem s2) q" by blast
      define s3 where "s3 = s2\<lparr>mem := st64 (mem s2) (pt + of_nat (8 * ?i)) (PA2PTE p OR PTE_V)\<rparr>"
      note ln = walk_post_link [OF wf k px_less True s2 s3_def]
      have p: "page_aligned p" "p \<noteq> 0" using k by (auto simp: kmem_wf_def page_ok_def)
      have k3: "kmem_wf s3 qs" using ln(1) by (simp add: walk_post_def pt_ext_def)
      note wf3 = walk_post_wf [OF k wf ln(1)]
      have e3: "PTE2PA (ent (mem s3) pt ?i) = p" "ent (mem s3) pt ?i AND PTE_V \<noteq> 0"
        unfolding ln(2) using PTE2PA_table [OF p(1)] PTE_V_or by auto
      from Suc.IH [OF k3 pt_wf_child [OF wf3 px_less e3(2)]]
      obtain a s' ps' where r: "walk_loop l p va True s3 = Ret (a, s')" "walk_post s3 qs l p s' ps'"
        "if a = 0 then ps' = [] else pt_walk (mem s') l p va = Some a" unfolding e3(1) by blast
      note c = walk_post_child [OF wf3 px_less e3(2), unfolded e3(1), OF r(2)]
      have "walk_loop (Suc l) pt va True s = Ret (a, s')"
        using True s1 p(2) s2d r(1) unfolding s3_def by (simp add: ent_PX px_def)
      moreover have "walk_post s ps (Suc l) pt s' ps'" unfolding Cons by (rule walk_post_trans [OF ln(1) c(1)])
      ultimately show ?thesis using r(3) c(2) e3 by (auto simp: Let_def)
    qed
  qed
qed

section \<open>Writing a leaf entry\<close>

lemma leaf_update:
  assumes "mdistinct (pt_ms m l pt)" and "\<forall>q\<in>#pt_ms m l pt. page_aligned q"
    and "pt_walk m l pt va = Some a"
  shows "pt_ms (st64 m a v) l pt = pt_ms m l pt"
    and "pt_walk (st64 m a v) l pt va' = pt_walk m l pt va'"
    and "pte_at (st64 m a v) l pt va' = (if \<forall>k\<le>l. px k va' = px k va then v else pte_at m l pt va')"
    and "pt_tables m l pt \<Longrightarrow> pt_tables (st64 m a v) l pt"
proof -
  have "(pt_tables m l pt \<longrightarrow> pt_tables (st64 m a v) l pt) \<and>
      pt_ms (st64 m a v) l pt = pt_ms m l pt \<and> pt_walk (st64 m a v) l pt va' = pt_walk m l pt va' \<and>
      pte_at (st64 m a v) l pt va' = (if \<forall>k\<le>l. px k va' = px k va then v else pte_at m l pt va')"
    using assms
  proof (induction l arbitrary: pt)
    case 0
    then have a: "a = pt + of_nat (8 * px 0 va)" by simp
    have p0: "pte_at m' 0 pt va' = ent m' pt (px 0 va')" for m' by (simp add: pte_at_def ent_def)
    show ?case unfolding p0 a using ent_st64_other [of "px 0 va" "px 0 va'"] ent_st64_same [of m pt "px 0 va" v]
      by simp
  next
    case (Suc l)
    let ?i = "px (Suc l) va" and ?m' = "st64 m a v"
    have v: "ent m pt ?i AND PTE_V \<noteq> 0" and w: "pt_walk m l (PTE2PA (ent m pt ?i)) va = Some a"
      using Suc.prems(3) by (simp_all add: Let_def split: if_splits)
    have c: "child (pt_ms m l) {#} (ent m pt ?i) = pt_ms m l (PTE2PA (ent m pt ?i))"
      using v by (simp add: child_def)
    from pt_walk_page [OF w] obtain q where q: "q \<in># child (pt_ms m l) {#} (ent m pt ?i)"
      and a: "a = q + of_nat (8 * px 0 va)" unfolding c by blast
    have al: "page_aligned r" if "r \<in># pt_ms m (Suc l) pt" for r using Suc.prems(2) that by blast
    have keep: "page_eq m ?m' r" if "page_aligned r" "r \<noteq> q" for r
      unfolding a using al [OF child_in_pt_ms [OF px_less q]] that by (intro page_eq_st64) auto
    have "page_eq m ?m' pt"
      using root_not_in_child [OF Suc.prems(1) px_less] q al [OF pt_root_in] by (intro keep) auto
    then have ents: "ent ?m' pt j = ent m pt j" if "j < 512" for j using that by (rule page_eq_ent)
    have kids: "page_eq m ?m' r" if "j < 512" "j \<noteq> ?i" "r \<in># child (pt_ms m l) {#} (ent m pt j)" for j r
      using al [OF child_in_pt_ms [OF that(1,3)]] child_disjoint [OF Suc.prems(1) that(1) px_less that(2,3)] q
      by (intro keep) auto
    have sub: "mdistinct (pt_ms m l (PTE2PA (ent m pt ?i)))" "\<forall>q\<in>#pt_ms m l (PTE2PA (ent m pt ?i)). page_aligned q"
      using mdistinct_mono [OF child_subset [OF px_less] Suc.prems(1)] al [OF child_in_pt_ms [OF px_less]]
      by (metis c)+
    note ih = Suc.IH [OF sub w]
    have new: "child (pt_ms ?m' l) {#} (ent ?m' pt ?i) = child (pt_ms m l) {#} (ent m pt ?i) + {#}"
      using ih v by (simp add: child_def ents)
    have ents': "\<forall>j<512. j \<noteq> ?i \<longrightarrow> ent ?m' pt j = ent m pt j" using ents by blast
    have kids': "\<forall>j<512. j \<noteq> ?i \<longrightarrow> (\<forall>q\<in>#child (pt_ms m l) {#} (ent m pt j). page_eq m ?m' q)"
      using kids by blast
    note st = pt_step [OF px_less ents' kids' new]
    have tb: "pt_tables ?m' (Suc l) pt" if t: "pt_tables m (Suc l) pt"
    proof (rule st(4) [OF t])
      have "ent m pt ?i AND (PTE_R OR PTE_W OR PTE_X) = 0" "pt_tables m l (PTE2PA (ent m pt ?i))"
        using t v px_less [of "Suc l" va] by (auto simp: child_def)
      then show "child (\<lambda>c. ent ?m' pt ?i AND (PTE_R OR PTE_W OR PTE_X) = 0 \<and> pt_tables ?m' l c) True (ent ?m' pt ?i)"
        using ih unfolding ents [OF px_less] child_def by simp
    qed
    have ms: "pt_ms ?m' (Suc l) pt = pt_ms m (Suc l) pt + {#}"
      by (rule st(1))
    show ?case
    proof (cases "px (Suc l) va' = ?i")
      case True
      then have "(\<forall>k\<le>Suc l. px k va' = px k va) \<longleftrightarrow> (\<forall>k\<le>l. px k va' = px k va)"
        using le_Suc_eq by auto
      moreover have "pt_walk ?m' (Suc l) pt va' = pt_walk m (Suc l) pt va'"
        using ih True v ents [OF px_less] by (simp add: Let_def)
      moreover have "pte_at ?m' (Suc l) pt va' =
          (if \<forall>k\<le>l. px k va' = px k va then v else pte_at m (Suc l) pt va')"
        unfolding pte_at_Suc ents [OF px_less] child_def True using ih v by auto
      ultimately show ?thesis using ms tb by (simp del: pt_tables.simps)
    next
      case False
      then have "\<not> (\<forall>k\<le>Suc l. px k va' = px k va)" by auto
      moreover have "pt_walk ?m' (Suc l) pt va' = pt_walk m (Suc l) pt va'"
        by (rule st(3) [OF False])
      moreover have "pte_at ?m' (Suc l) pt va' = pte_at m (Suc l) pt va'"
        by (rule st(2) [OF False])
      ultimately show ?thesis using ms impI [OF tb] by (simp only: add_0_right if_False simp_thms)
    qed
  qed
  then show "pt_ms (st64 m a v) l pt = pt_ms m l pt"
    and "pt_walk (st64 m a v) l pt va' = pt_walk m l pt va'"
    and "pte_at (st64 m a v) l pt va' = (if \<forall>k\<le>l. px k va' = px k va then v else pte_at m l pt va')"
    and "pt_tables m l pt \<Longrightarrow> pt_tables (st64 m a v) l pt"
    by blast+
qed

text \<open>The virtual page number that the three indices encode: bits 12 to 38 of the address.\<close>

definition vpn :: "u64 \<Rightarrow> nat" where
  "vpn va = unat va div 4096 mod 134217728"

lemma px_nat: "px k va = unat va div 2 ^ (12 + 9 * k) mod 512"
proof -
  have "PX k va = take_bit 9 (drop_bit (12 + 9 * k) va)"
    unfolding PX_def by (simp add: take_bit_eq_mask mask_eq_exp_minus_1)
  then have "px k va = take_bit 9 (drop_bit (12 + 9 * k) (unat va))"
    by (simp only: px_def unsigned_take_bit_eq unat_drop_bit_eq)
  then show ?thesis by (simp add: drop_bit_eq_div take_bit_eq_mod)
qed

lemma digits_512:
  "x mod 134217728 = x mod 512 + 512 * (x div 512 mod 512) + 262144 * (x div 262144 mod 512)" for x :: nat
proof -
  have "x mod 134217728 = x mod (512 * (512 * 512))" by simp
  also have "\<dots> = 512 * (x div 512 mod (512 * 512)) + x mod 512" by (rule mod_mult2_eq)
  also have "x div 512 mod (512 * 512) = 512 * (x div 512 div 512 mod 512) + x div 512 mod 512"
    by (rule mod_mult2_eq)
  also have "x div 512 div 512 = x div 262144" by (simp add: div_mult2_eq [symmetric])
  finally show ?thesis by simp
qed

lemma digits_512_unique:
  fixes a b c a' b' c' :: nat
  assumes "a < 512" and "b < 512" and "a' < 512" and "b' < 512"
  shows "a + 512 * b + 262144 * c = a' + 512 * b' + 262144 * c' \<longleftrightarrow> a = a' \<and> b = b' \<and> c = c'"
proof -
  have split: "x = x' \<and> y = y'" if "x + 512 * y = x' + 512 * y'" "x < 512" "x' < 512" for x y x' y' :: nat
  proof -
    have "x = (x + 512 * y) mod 512" using that(2) by simp
    also have "\<dots> = (x' + 512 * y') mod 512" by (simp only: that(1))
    also have "\<dots> = x'" using that(3) by simp
    finally show ?thesis using that(1) by simp
  qed
  show ?thesis
  proof
    assume "a + 512 * b + 262144 * c = a' + 512 * b' + 262144 * c'"
    then have "a + 512 * (b + 512 * c) = a' + 512 * (b' + 512 * c')" by simp
    from split [OF this assms(1,3)] split [OF _ assms(2,4), of c c'] show "a = a' \<and> b = b' \<and> c = c'" by simp
  qed simp
qed

lemma vpn_px: "vpn va = px 0 va + 512 * px 1 va + 262144 * px 2 va"
  unfolding vpn_def digits_512 [of "unat va div 4096"] by (simp add: px_nat div_mult2_eq [symmetric])

lemma same_vpn: "(\<forall>k\<le>2. px k va' = px k va) \<longleftrightarrow> vpn va' = vpn va"
proof -
  have "(\<forall>k\<le>2. px k va' = px k va) \<longleftrightarrow> px 0 va' = px 0 va \<and> px 1 va' = px 1 va \<and> px 2 va' = px 2 va"
    by (auto simp: le_Suc_eq numeral_2_eq_2)
  also have "\<dots> \<longleftrightarrow> vpn va' = vpn va"
    unfolding vpn_px using digits_512_unique px_less by metis
  finally show ?thesis .
qed

lemma vpn_less [simp]: "vpn va < 134217728"
  by (simp add: vpn_def)

end
