(* ===== verification/Vm_Space.thy ===== *)
theory Vm_Space
  imports Vm_Walk
begin

text \<open>
  Address spaces: translations of virtual pages as a function of the page number, ownership of
  the pages they map, and what \<open>mappages\<close>, \<open>uvmunmap\<close>, \<open>uvmalloc\<close>, \<open>uvmdealloc\<close>, \<open>freewalk\<close>,
  \<open>uvmfree\<close> and the copy routines do to them.
\<close>

section \<open>Translations\<close>

definition pte_of :: "'s kmem_scheme \<Rightarrow> u64 \<Rightarrow> u64 \<Rightarrow> u64" where
  "pte_of s root va = pte_at (mem s) 2 root va"

definition as_wf :: "'s kmem_scheme \<Rightarrow> u64 list \<Rightarrow> u64 \<Rightarrow> bool" where
  "as_wf s ps root \<longleftrightarrow> kmem_wf s ps \<and> pt_wf s ps 2 root"

lemma as_wf_ext: "as_wf s ps root \<Longrightarrow> pt_ext s ps 2 root s' ps' \<Longrightarrow> as_wf s' ps' root"
  using pt_ext_wf [of s ps 2 root s' ps'] by (simp add: as_wf_def) (simp add: pt_ext_def)

lemma pt_extE:
  assumes "pt_ext s ps l pt s' ps'"
  obtains N where "ps = N @ ps'" and "pt_ms (mem s') l pt = pt_ms (mem s) l pt + mset N"
    and "kmem_frame s s'" and "kmem_wf s' ps'"
  using assms unfolding pt_ext_def by (elim conjE exE) (rule that)

lemma pt_ext_refl: "as_wf s ps root \<Longrightarrow> pt_ext s ps 2 root s ps"
  by (simp add: pt_ext_def as_wf_def)

lemma walk_some_nonzero:
  assumes "as_wf s ps root" and "pt_walk (mem s) 2 root va = Some a"
  shows "a \<noteq> 0"
proof -
  from pt_walk_page [OF assms(2)] obtain q where q: "q \<in># pt_ms (mem s) 2 root" "a = q + of_nat (8 * px 0 va)"
    by blast
  then have "page_ok s q" using assms(1) by (simp add: as_wf_def pt_wf_def)
  then show ?thesis using q(2) px_less [of 0 va] page_ok_offset_nonzero [of s q "8 * px 0 va"] by simp
qed

lemma walk_noalloc:
  assumes "va < MAXVA"
  shows "walk root va False s = Ret (case pt_walk (mem s) 2 root va of None \<Rightarrow> 0 | Some a \<Rightarrow> a, s)"
  unfolding walk_def using assms by (simp add: walk_loop_noalloc not_le del: MAXVA_def)

lemma pte_of_walk:
  "pt_walk (mem s) 2 root va = None \<Longrightarrow> pte_of s root va = 0"
  "pt_walk (mem s) 2 root va = Some a \<Longrightarrow> pte_of s root va = ld64 (mem s) a"
  by (simp_all add: pte_of_def pte_at_def)

lemma pte_of_valid_walk:
  assumes "as_wf s ps root" and "pte_of s root va AND PTE_V \<noteq> 0"
  shows "\<exists>a. pt_walk (mem s) 2 root va = Some a \<and> a \<noteq> 0 \<and> ld64 (mem s) a = pte_of s root va"
  using assms walk_some_nonzero [OF assms(1)] pte_of_walk [of s root va]
  by (cases "pt_walk (mem s) 2 root va") auto

lemma vpn_cong:
  assumes "vpn va = vpn va'"
  shows "pte_of s root va = pte_of s root va'"
proof -
  have px: "\<forall>k\<le>2. px k va = px k va'" using same_vpn assms by metis
  have "pt_walk m l pt va = pt_walk m l pt va'" if "\<forall>k\<le>l. px k va = px k va'" for m l pt
    using that by (induction l arbitrary: pt) (simp_all add: Let_def)
  then show ?thesis using px by (simp add: pte_of_def pte_at_def)
qed

text \<open>Writing the leaf entry of one page.\<close>

lemma write_leaf:
  assumes wf: "as_wf s ps root" and w: "pt_walk (mem s) 2 root va = Some a"
    and s': "s' = s\<lparr>mem := st64 (mem s) a v\<rparr>"
  shows "pt_ext s ps 2 root s' ps"
    and "page_aligned r \<Longrightarrow> r \<notin># pt_ms (mem s) 2 root \<Longrightarrow> page_eq (mem s) (mem s') r"
    and "pte_of s' root va' = (if vpn va' = vpn va then v else pte_of s root va')"
proof -
  have md: "mdistinct (pt_ms (mem s) 2 root)" and al: "\<forall>q\<in>#pt_ms (mem s) 2 root. page_aligned q"
    and np: "\<forall>q\<in>#pt_ms (mem s) 2 root. q \<notin> set ps" and k: "kmem_wf s ps"
    using wf by (auto simp: as_wf_def pt_wf_def page_ok_def)
  note lu = leaf_update [OF md al w]
  from pt_walk_page [OF w] obtain q where q: "q \<in># pt_ms (mem s) 2 root" "a = q + of_nat (8 * px 0 va)"
    by blast
  have keep: "page_eq (mem s) (mem s') r" if "page_aligned r" "r \<noteq> q" for r
    using page_eq_st64 [of q r "px 0 va" "mem s" v] al q that by (auto simp: s')
  have "kmem_wf s' ps"
    using k np q(1) keep by (intro kmem_wf_frame [OF k]) (auto simp: s' kmem_wf_def page_ok_def)
  then show "pt_ext s ps 2 root s' ps"
    using lu(1,4) keep q(1) unfolding pt_ext_def by (auto simp: s')
  show "page_eq (mem s) (mem s') r" if "page_aligned r" "r \<notin># pt_ms (mem s) 2 root"
    using keep q(1) that by blast
  show "pte_of s' root va' = (if vpn va' = vpn va then v else pte_of s root va')"
    unfolding pte_of_def s' using lu(3) [of v va'] same_vpn [of va' va] by simp
qed

lemma walk_alloc:
  assumes "as_wf s ps root" and "va < MAXVA"
  shows "\<exists>a s' ps'. walk root va True s = Ret (a, s') \<and> pt_ext s ps 2 root s' ps' \<and> as_wf s' ps' root \<and>
           (\<forall>va. pte_of s' root va = pte_of s root va) \<and>
           (if a = 0 then ps' = [] else pt_walk (mem s') 2 root va = Some a)"
proof -
  from walk_loop_alloc [of s ps 2 root va] assms(1) obtain a s' ps'
    where r: "walk_loop 2 root va True s = Ret (a, s')" "walk_post s ps 2 root s' ps'"
      "if a = 0 then ps' = [] else pt_walk (mem s') 2 root va = Some a"
    unfolding as_wf_def by blast
  moreover have "walk root va True s = Ret (a, s')"
    unfolding walk_def using r(1) assms(2) by (simp add: not_le del: MAXVA_def)
  ultimately show ?thesis using as_wf_ext [OF assms(1)] unfolding walk_post_def pte_of_def by blast
qed

section \<open>Mapping pages\<close>

lemma vpn_step:
  assumes "page_aligned a" and "unat a + 4096 * n \<le> unat MAXVA" and "0 < n"
  shows "a < MAXVA" and "vpn (a + PGSIZE) = Suc (vpn a)" and "page_aligned (a + PGSIZE)"
    and "unat (a + PGSIZE) = unat a + 4096"
proof -
  show "a < MAXVA" using assms(2,3) by (simp add: word_less_nat_alt)
  have "unat a + 4096 < 2 ^ 64" using assms(2,3) by simp
  then show u: "unat (a + PGSIZE) = unat a + 4096" using unat_add_of_nat [of a 4096] by simp
  then show "page_aligned (a + PGSIZE)" using assms(1) by (simp add: page_aligned_unat)
  have d: "(unat a + 4096) div 4096 = Suc (unat a div 4096)" by (simp add: div_add_self2)
  have "Suc (unat a div 4096) < 134217728" using assms(2,3) by simp
  then show "vpn (a + PGSIZE) = Suc (vpn a)" unfolding vpn_def u d by simp
qed

text \<open>The \<open>k\<close> pages from page number \<open>i\<close> on.\<close>

abbreviation in_range :: "nat \<Rightarrow> nat \<Rightarrow> u64 \<Rightarrow> bool" where
  "in_range i k va \<equiv> i \<le> vpn va \<and> vpn va < i + k"

lemma mappages_step:
  assumes wf: "as_wf s ps root" and a: "a < MAXVA" and inv: "pte_of s root a AND PTE_V = 0"
  shows "\<exists>s1 ps1. pt_ext s ps 2 root s1 ps1 \<and> as_wf s1 ps1 root \<and>
     (mappages_loop (Suc f) root a l pa perm s = Ret (-1, s1) \<and> ps1 = [] \<and>
        (\<forall>va. pte_of s1 root va = pte_of s root va) \<or>
      mappages_loop (Suc f) root a l pa perm s =
        (if a = l then kret 0 else mappages_loop f root (a + PGSIZE) l (pa + PGSIZE) perm) s1 \<and>
        (\<forall>va. pte_of s1 root va =
           (if vpn va = vpn a then PA2PTE pa OR perm OR PTE_V else pte_of s root va)))"
proof -
  from walk_alloc [OF wf a] obtain p s1 ps1 where w: "walk root a True s = Ret (p, s1)"
      "pt_ext s ps 2 root s1 ps1" "as_wf s1 ps1 root" "\<forall>va. pte_of s1 root va = pte_of s root va"
      "if p = 0 then ps1 = [] else pt_walk (mem s1) 2 root a = Some p" by auto
  show ?thesis
  proof (cases "p = 0")
    case True
    then show ?thesis using w by (intro exI [of _ s1] exI [of _ ps1]) simp
  next
    case False
    then have pw: "pt_walk (mem s1) 2 root a = Some p" using w(5) by simp
    have z: "ld64 (mem s1) p AND PTE_V = 0" using pte_of_walk(2) [OF pw] w(4) inv by simp
    define s2 where "s2 = s1\<lparr>mem := st64 (mem s1) p (PA2PTE pa OR perm OR PTE_V)\<rparr>"
    note wl = write_leaf [OF w(3) pw s2_def]
    have ext: "pt_ext s ps 2 root s2 ps1" by (rule pt_ext_trans [OF w(2) wl(1)])
    have "mappages_loop (Suc f) root a l pa perm s =
        (if a = l then kret 0 else mappages_loop f root (a + PGSIZE) l (pa + PGSIZE) perm) s2"
      using w(1) False z by (simp add: s2_def)
    moreover have "\<forall>va. pte_of s2 root va =
        (if vpn va = vpn a then PA2PTE pa OR perm OR PTE_V else pte_of s root va)"
      using wl(3) w(4) by simp
    ultimately show ?thesis using ext as_wf_ext [OF wf ext] by blast
  qed
qed

text \<open>
  What mapping \<open>n\<close> pages ends with: all of them are mapped, or the free list is empty and a
  proper prefix is.
\<close>

definition map_result ::
    "'s kmem_scheme \<Rightarrow> u64 list \<Rightarrow> u64 \<Rightarrow> u64 \<Rightarrow> nat \<Rightarrow> u64 \<Rightarrow> u64 \<Rightarrow> int \<Rightarrow> 's kmem_scheme \<Rightarrow> u64 list \<Rightarrow> bool" where
  "map_result s ps root a n pa perm r s' ps' \<longleftrightarrow>
     pt_ext s ps 2 root s' ps' \<and> as_wf s' ps' root \<and>
     (\<exists>k. (r = 0 \<and> k = n \<or> r = -1 \<and> k < n \<and> ps' = []) \<and>
        (\<forall>va. pte_of s' root va =
           (if in_range (vpn a) k va then PA2PTE (pa + of_nat (4096 * (vpn va - vpn a))) OR perm OR PTE_V
            else pte_of s root va)))"

lemma map_result_fail:
  assumes "pt_ext s ps 2 root s1 []" and "as_wf s1 [] root" and "\<forall>va. pte_of s1 root va = pte_of s root va"
  shows "map_result s ps root a (Suc n) pa perm (-1) s1 []"
  using assms unfolding map_result_def by (intro conjI exI [of _ 0]) auto

lemma map_result_one:
  assumes "pt_ext s ps 2 root s1 ps1" and "as_wf s1 ps1 root"
    and "\<forall>va. pte_of s1 root va =
           (if vpn va = vpn a then PA2PTE pa OR perm OR PTE_V else pte_of s root va)"
  shows "map_result s ps root a 1 pa perm 0 s1 ps1"
  using assms unfolding map_result_def by (intro conjI exI [of _ 1]) auto

lemma map_result_Suc:
  assumes s1: "pt_ext s ps 2 root s1 ps1"
    and p1: "\<forall>va. pte_of s1 root va =
           (if vpn va = vpn a then PA2PTE pa OR perm OR PTE_V else pte_of s root va)"
    and nx: "vpn (a + PGSIZE) = Suc (vpn a)"
    and r: "map_result s1 ps1 root (a + PGSIZE) n (pa + PGSIZE) perm r s2 ps2"
  shows "map_result s ps root a (Suc n) pa perm r s2 ps2"
proof -
  from r obtain k where k: "r = 0 \<and> k = n \<or> r = -1 \<and> k < n \<and> ps2 = []"
      "\<forall>va. pte_of s2 root va = (if in_range (Suc (vpn a)) k va then
         PA2PTE (pa + PGSIZE + of_nat (4096 * (vpn va - Suc (vpn a)))) OR perm OR PTE_V else pte_of s1 root va)"
      and s2: "pt_ext s1 ps1 2 root s2 ps2" "as_wf s2 ps2 root"
    unfolding map_result_def nx by blast
  have "pte_of s2 root va = (if in_range (vpn a) (Suc k) va then
      PA2PTE (pa + of_nat (4096 * (vpn va - vpn a))) OR perm OR PTE_V else pte_of s root va)"
    for va
  proof (cases "in_range (Suc (vpn a)) k va")
    case True
    then obtain d where "vpn va = Suc (vpn a) + d" using le_Suc_ex by blast
    then have "pa + PGSIZE + of_nat (4096 * (vpn va - Suc (vpn a))) = pa + of_nat (4096 * (vpn va - vpn a))"
      by (simp add: algebra_simps)
    then show ?thesis using True k(2) by auto
  next
    case False
    then show ?thesis using k(2) p1 by auto
  qed
  then show ?thesis
    unfolding map_result_def using pt_ext_trans [OF s1 s2(1)] s2(2) k(1)
    by (intro conjI exI [of _ "Suc k"]) auto
qed

lemma mappages_loop_ok:
  assumes "as_wf s ps root" and "page_aligned a" and "unat a + 4096 * Suc n \<le> unat MAXVA"
    and "\<forall>va. in_range (vpn a) (Suc n) va \<longrightarrow> pte_of s root va AND PTE_V = 0"
    and "l = a + of_nat (4096 * n)"
  shows "\<exists>r s' ps'. mappages_loop (Suc n) root a l pa perm s = Ret (r, s') \<and>
      map_result s ps root a (Suc n) pa perm r s' ps'"
  using assms
proof (induction n arbitrary: s ps a pa rule: less_induct)
  case (less n)
  note st = vpn_step [OF less.prems(2,3) zero_less_Suc]
  have "pte_of s root a AND PTE_V = 0" using less.prems(4) st(1) by simp
  from mappages_step [OF less.prems(1) st(1) this, of n l pa perm]
  obtain s1 ps1 where s1: "pt_ext s ps 2 root s1 ps1" "as_wf s1 ps1 root" and
    c: "mappages_loop (Suc n) root a l pa perm s = Ret (-1, s1) \<and> ps1 = [] \<and>
        (\<forall>va. pte_of s1 root va = pte_of s root va) \<or>
      mappages_loop (Suc n) root a l pa perm s =
        (if a = l then kret 0 else mappages_loop n root (a + PGSIZE) l (pa + PGSIZE) perm) s1 \<and>
        (\<forall>va. pte_of s1 root va =
           (if vpn va = vpn a then PA2PTE pa OR perm OR PTE_V else pte_of s root va))" by blast
  from c show ?case
  proof (elim disjE conjE)
    assume "mappages_loop (Suc n) root a l pa perm s = Ret (-1, s1)" and "ps1 = []"
      and "\<forall>va. pte_of s1 root va = pte_of s root va"
    then show ?thesis using s1 map_result_fail by blast
  next
    assume run: "mappages_loop (Suc n) root a l pa perm s =
        (if a = l then kret 0 else mappages_loop n root (a + PGSIZE) l (pa + PGSIZE) perm) s1"
      and p1: "\<forall>va. pte_of s1 root va =
           (if vpn va = vpn a then PA2PTE pa OR perm OR PTE_V else pte_of s root va)"
    show ?thesis
    proof (cases n)
      case 0
      then show ?thesis using run map_result_one [OF s1 p1] less.prems(5) by auto
    next
      case (Suc m)
      have "unat l = unat a + 4096 * n"
        unfolding less.prems(5) using less.prems(3) by (intro unat_add_of_nat) simp
      then have ne: "a \<noteq> l" using Suc by auto
      have "\<forall>va. in_range (vpn (a + PGSIZE)) (Suc m) va \<longrightarrow> pte_of s1 root va AND PTE_V = 0"
        using p1 less.prems(4) Suc unfolding st(2) by auto
      moreover have "unat (a + PGSIZE) + 4096 * Suc m \<le> unat MAXVA" using st(4) less.prems(3) Suc by simp
      moreover have "l = a + PGSIZE + of_nat (4096 * m)" using less.prems(5) Suc by (simp add: algebra_simps)
      ultimately obtain r s2 ps2 where r: "mappages_loop (Suc m) root (a + PGSIZE) l (pa + PGSIZE) perm s1 = Ret (r, s2)"
          "map_result s1 ps1 root (a + PGSIZE) (Suc m) (pa + PGSIZE) perm r s2 ps2"
        using less.IH [of m s1 ps1 "a + PGSIZE" "pa + PGSIZE"] s1(2) st(3) Suc by blast
      have "mappages_loop (Suc n) root a l pa perm s = Ret (r, s2)" using run ne r(1) Suc by simp
      moreover have "map_result s ps root a (Suc n) pa perm r s2 ps2"
        unfolding Suc by (rule map_result_Suc [OF s1(1) p1 st(2) r(2)])
      ultimately show ?thesis by blast
    qed
  qed
qed

lemma mappages_ok:
  assumes "as_wf s ps root" and "page_aligned va" and "sz = of_nat (4096 * n)" and "0 < n"
    and "unat va + 4096 * n \<le> unat MAXVA"
    and "\<forall>v. in_range (vpn va) n v \<longrightarrow> pte_of s root v AND PTE_V = 0"
  shows "\<exists>r s' ps'. mappages root va sz pa perm s = Ret (r, s') \<and>
      map_result s ps root va n pa perm r s' ps'"
proof -
  obtain m where n: "n = Suc m" using assms(4) by (cases n) auto
  have u: "unat sz = 4096 * n" unfolding assms(3) using assms(5) by (intro unat_of_nat_u64) simp
  have "va mod PGSIZE = 0" using assms(2) by (simp add: page_aligned_def)
  moreover have "sz mod PGSIZE = 0" "sz \<noteq> 0" using u n by (auto simp: word_unat_eq_iff unat_mod)
  moreover have "va + sz - PGSIZE = va + of_nat (4096 * m)" unfolding assms(3) n by (simp add: algebra_simps)
  moreover have "4096 * Suc m div 4096 = Suc m" by simp
  ultimately have "mappages root va sz pa perm s = mappages_loop (Suc m) root va (va + of_nat (4096 * m)) pa perm s"
    unfolding mappages_def u n by (simp only: simp_thms if_False)
  then show ?thesis using mappages_loop_ok [of s ps root va m _ pa perm] assms(1,2,5,6) n by metis
qed

section \<open>User pages and their ownership\<close>

definition pg :: "nat \<Rightarrow> u64" where
  "pg i = of_nat (4096 * i)"

definition upte :: "'s kmem_scheme \<Rightarrow> u64 \<Rightarrow> nat \<Rightarrow> u64" where
  "upte s root i = pte_of s root (pg i)"

definition upage :: "'s kmem_scheme \<Rightarrow> u64 \<Rightarrow> nat \<Rightarrow> u64" where
  "upage s root i = PTE2PA (upte s root i)"

definition leaf :: "u64 \<Rightarrow> bool" where
  "leaf e \<longleftrightarrow> e AND PTE_V \<noteq> 0 \<and> PTE_FLAGS e \<noteq> PTE_V"

text \<open>
  \<open>uspace s ps root D\<close>: the page numbers in \<open>D\<close> are mapped to legal pages, each owned by one of
  them alone: not free, not a table page, and different from each other.
\<close>

definition uspace :: "'s kmem_scheme \<Rightarrow> u64 list \<Rightarrow> u64 \<Rightarrow> nat set \<Rightarrow> bool" where
  "uspace s ps root D \<longleftrightarrow> as_wf s ps root \<and> inj_on (upage s root) D \<and>
     (\<forall>i\<in>D. i < 67108864 \<and> leaf (upte s root i) \<and> page_ok s (upage s root i) \<and>
        upage s root i \<notin> set ps \<and> upage s root i \<notin># pt_ms (mem s) 2 root)"

lemma pg_facts:
  assumes "i < 134217728"
  shows "vpn (pg i) = i" and "page_aligned (pg i)" and "unat (pg i) = 4096 * i"
proof -
  show u: "unat (pg i) = 4096 * i" unfolding pg_def using assms by (intro unat_of_nat_u64) simp
  show "vpn (pg i) = i" unfolding vpn_def u using assms by simp
  show "page_aligned (pg i)" unfolding page_aligned_unat u by simp
qed

lemma pg_MAXVA: "i < 67108864 \<Longrightarrow> pg i < MAXVA"
  using pg_facts(3) [of i] by (simp add: word_less_nat_alt)

lemma pg_Suc: "pg i + PGSIZE = pg (Suc i)"
  by (simp add: pg_def)

lemma pg_less:
  assumes "i < j" and "j \<le> 67108864"
  shows "pg i < pg j"
proof -
  have "unat (pg j) = 4096 * j" unfolding pg_def using assms by (intro unat_of_nat_u64) simp
  moreover have "unat (pg i) = 4096 * i" using assms by (intro pg_facts) simp
  ultimately show ?thesis using assms by (simp add: word_less_nat_alt)
qed

lemma pte_of_upte: "pte_of s root va = upte s root (vpn va)"
  unfolding upte_def using pg_facts(1) [OF vpn_less] by (intro vpn_cong) simp

lemma kfree_ok:
  assumes "kmem_wf s ps" and "page_ok s p" and "p \<notin> set ps"
  shows "\<exists>s1. kfree p s = Ret ((), s1) \<and> kmem_wf s1 (p # ps) \<and> kmem_frame s s1 \<and>
           (\<forall>q. page_aligned q \<longrightarrow> q \<noteq> p \<longrightarrow> page_eq (mem s) (mem s1) q)"
proof -
  let ?m1 = "mem_store (mem s) p (replicate 4096 1)"
  have "page_eq (mem s) (st64 ?m1 p (freelist s)) q" if "page_aligned q" "q \<noteq> p" for q
    using page_eq_store0 [of p q "replicate 4096 1" "mem s"] page_eq_st64 [of p q 0 ?m1]
      page_ok_aligned [OF assms(2)] that by (auto intro: page_eq_trans)
  then show ?thesis using kfree_wf [OF assms] by (auto simp: kfree_eq [OF assms(2)] kmem_frame_def)
qed

text \<open>An operation that leaves the pages of a tree alone keeps the tree.\<close>

lemma as_wf_frame:
  assumes "pt_wf s ps 2 root" and "kmem_frame s s'" and "kmem_wf s' ps'"
    and "\<forall>q\<in>#pt_ms (mem s) 2 root. page_eq (mem s) (mem s') q \<and> q \<notin> set ps'"
  shows "as_wf s' ps' root" and "pt_ms (mem s') 2 root = pt_ms (mem s) 2 root"
    and "pt_tables (mem s') 2 root = pt_tables (mem s) 2 root"
    and "pt_walk (mem s') 2 root va = pt_walk (mem s) 2 root va" and "pte_of s' root va = pte_of s root va"
proof -
  have eq: "\<forall>q\<in>#pt_ms (mem s) 2 root. page_eq (mem s) (mem s') q" using assms(4) by blast
  note f = pt_frame [OF eq]
  show "as_wf s' ps' root"
    using assms f(1) by (simp add: as_wf_def pt_wf_def kmem_frame_page_ok [OF assms(2)])
  show "pt_ms (mem s') 2 root = pt_ms (mem s) 2 root" by (rule f(1))
  show "pt_tables (mem s') 2 root = pt_tables (mem s) 2 root" by (rule f(4))
  show "pt_walk (mem s') 2 root va = pt_walk (mem s) 2 root va" by (rule f(2))
  show "pte_of s' root va = pte_of s root va" unfolding pte_of_def by (rule f(3))
qed

lemma unmap_one:
  assumes us: "uspace s ps root D" and i: "i \<in> D"
  shows "\<exists>a s1 s2. walk root (pg i) False s = Ret (a, s) \<and> a \<noteq> 0 \<and> ld64 (mem s) a = upte s root i \<and>
     kfree (upage s root i) s = Ret ((), s1) \<and> s2 = s1\<lparr>mem := st64 (mem s1) a 0\<rparr> \<and>
     uspace s2 (upage s root i # ps) root (D - {i}) \<and> kmem_frame s s2 \<and>
     pt_ms (mem s2) 2 root = pt_ms (mem s) 2 root \<and>
     (pt_tables (mem s) 2 root \<longrightarrow> pt_tables (mem s2) 2 root) \<and>
     (\<forall>j < 134217728. upte s2 root j = (if j = i then 0 else upte s root j)) \<and>
     (\<forall>q. page_aligned q \<longrightarrow> q \<noteq> upage s root i \<longrightarrow> q \<notin># pt_ms (mem s) 2 root \<longrightarrow> page_eq (mem s) (mem s2) q)"
proof -
  let ?p = "upage s root i"
  have wf: "as_wf s ps root" "kmem_wf s ps" "pt_wf s ps 2 root" using us by (auto simp: uspace_def as_wf_def)
  have ii: "i < 67108864" "leaf (upte s root i)" "page_ok s ?p" "?p \<notin> set ps" "?p \<notin># pt_ms (mem s) 2 root"
    using us i by (auto simp: uspace_def)
  have pgi: "pg i < MAXVA" "vpn (pg i) = i" using ii(1) pg_MAXVA pg_facts(1) [of i] by auto
  have "pte_of s root (pg i) AND PTE_V \<noteq> 0" using ii(2) by (simp add: leaf_def upte_def)
  from pte_of_valid_walk [OF wf(1) this] obtain a
    where a: "pt_walk (mem s) 2 root (pg i) = Some a" "a \<noteq> 0" "ld64 (mem s) a = upte s root i"
    unfolding upte_def by blast
  from kfree_ok [OF wf(2) ii(3,4)] obtain s1 where s1: "kfree ?p s = Ret ((), s1)" "kmem_wf s1 (?p # ps)"
      "kmem_frame s s1" "\<forall>q. page_aligned q \<longrightarrow> q \<noteq> ?p \<longrightarrow> page_eq (mem s) (mem s1) q" by blast
  have "\<forall>q\<in>#pt_ms (mem s) 2 root. page_eq (mem s) (mem s1) q \<and> q \<notin> set (?p # ps)"
    using s1(4) wf(3) ii(5) by (auto simp: pt_wf_def page_ok_def)
  note f = as_wf_frame [OF wf(3) s1(3,2) this]
  define s2 where "s2 = s1\<lparr>mem := st64 (mem s1) a 0\<rparr>"
  have a1: "pt_walk (mem s1) 2 root (pg i) = Some a" using f(4) a(1) by simp
  note wl = write_leaf [OF f(1) a1 s2_def]
  have ms: "pt_ms (mem s2) 2 root = pt_ms (mem s) 2 root" using wl(1) f(2) by (auto simp: pt_ext_def)
  have fr: "kmem_frame s s2" using s1(3) by (rule kmem_frame_trans) (simp add: s2_def)
  have up: "upte s2 root j = (if j = i then 0 else upte s root j)" if "j < 134217728" for j
    using wl(3) [of "pg j"] pg_facts(1) [OF that] pgi(2) f(5) by (simp add: upte_def)
  have same: "upte s2 root j = upte s root j" "upage s2 root j = upage s root j" if "j \<in> D - {i}" for j
    using us that up [of j] unfolding upage_def uspace_def by auto
  have "inj_on (upage s2 root) (D - {i})"
    using us same(2) unfolding uspace_def by (metis inj_on_cong inj_on_diff)
  moreover have "upage s root j \<noteq> ?p" if "j \<in> D - {i}" for j
    using us i that unfolding uspace_def inj_on_def by auto
  ultimately have "uspace s2 (?p # ps) root (D - {i})"
    using us as_wf_ext [OF f(1) wl(1)] same unfolding uspace_def
    by (simp add: ms kmem_frame_page_ok [OF fr])
  moreover have "page_eq (mem s) (mem s2) q"
    if "page_aligned q" "q \<noteq> ?p" "q \<notin># pt_ms (mem s) 2 root" for q
    using s1(4) wl(2) [of q] f(2) that page_eq_trans by metis
  moreover have "walk root (pg i) False s = Ret (a, s)" using walk_noalloc [OF pgi(1), of root s] a(1) by simp
  moreover have "pt_tables (mem s) 2 root \<longrightarrow> pt_tables (mem s2) 2 root"
    using f(3) wl(1) by (simp add: pt_ext_def)
  ultimately show ?thesis using a(2,3) s1(1) s2_def ms fr up by blast
qed

text \<open>The state after unmapping and freeing the page numbers from \<open>i\<close> below \<open>i + k\<close>.\<close>

definition unmap_result ::
    "'s kmem_scheme \<Rightarrow> u64 list \<Rightarrow> u64 \<Rightarrow> nat set \<Rightarrow> nat \<Rightarrow> nat \<Rightarrow> 's kmem_scheme \<Rightarrow> bool" where
  "unmap_result s ps root D i k s' \<longleftrightarrow>
     uspace s' (rev (map (upage s root) [i..<i + k]) @ ps) root (D - {i..<i + k}) \<and> kmem_frame s s' \<and>
     pt_ms (mem s') 2 root = pt_ms (mem s) 2 root \<and>
     (pt_tables (mem s) 2 root \<longrightarrow> pt_tables (mem s') 2 root) \<and>
     (\<forall>j < 134217728. upte s' root j = (if i \<le> j \<and> j < i + k then 0 else upte s root j)) \<and>
     (\<forall>q. page_aligned q \<longrightarrow> q \<notin> upage s root ` {i..<i + k} \<longrightarrow> q \<notin># pt_ms (mem s) 2 root \<longrightarrow>
        page_eq (mem s) (mem s') q)"

lemma unmap_result_Suc:
  assumes k: "i + Suc k \<le> 67108864" and fr: "kmem_frame s s2"
    and ms: "pt_ms (mem s2) 2 root = pt_ms (mem s) 2 root"
    and tb: "pt_tables (mem s) 2 root \<longrightarrow> pt_tables (mem s2) 2 root"
    and up: "\<forall>j < 134217728. upte s2 root j = (if j = i then 0 else upte s root j)"
    and eq: "\<forall>q. page_aligned q \<longrightarrow> q \<noteq> upage s root i \<longrightarrow> q \<notin># pt_ms (mem s) 2 root \<longrightarrow> page_eq (mem s) (mem s2) q"
    and r: "unmap_result s2 (upage s root i # ps) root (D - {i}) (Suc i) k s'"
  shows "unmap_result s ps root D i (Suc k) s'"
proof -
  have same: "upage s2 root j = upage s root j" if "j \<in> {Suc i..<Suc i + k}" for j
    using up that k by (simp add: upage_def)
  have "map (upage s2 root) [Suc i..<Suc i + k] = map (upage s root) [Suc i..<Suc i + k]"
    using same by (intro map_cong) auto
  then have lists: "rev (map (upage s2 root) [Suc i..<Suc i + k]) @ upage s root i # ps =
      rev (map (upage s root) [i..<i + Suc k]) @ ps"
    by (simp add: upt_conv_Cons del: upt_Suc)
  have img: "upage s2 root ` {Suc i..<Suc i + k} = upage s root ` {Suc i..<Suc i + k}"
    using same by (rule image_cong [OF refl])
  have set1: "{i..<i + Suc k} = insert i {Suc i..<Suc i + k}" by auto
  have D: "D - {i} - {Suc i..<Suc i + k} = D - {i..<i + Suc k}" unfolding set1 by auto
  show ?thesis
    unfolding unmap_result_def
  proof (intro conjI allI)
    show "uspace s' (rev (map (upage s root) [i..<i + Suc k]) @ ps) root (D - {i..<i + Suc k})"
      using r unfolding unmap_result_def lists D by blast
    show "kmem_frame s s'" using fr r kmem_frame_trans unfolding unmap_result_def by blast
    show "pt_ms (mem s') 2 root = pt_ms (mem s) 2 root" using ms r unfolding unmap_result_def by simp
    show "pt_tables (mem s) 2 root \<longrightarrow> pt_tables (mem s') 2 root" using tb r unfolding unmap_result_def by simp
    show "j < 134217728 \<longrightarrow> upte s' root j = (if i \<le> j \<and> j < i + Suc k then 0 else upte s root j)" for j
      using up r unfolding unmap_result_def by auto
    fix q
    show "page_aligned q \<longrightarrow> q \<notin> upage s root ` {i..<i + Suc k} \<longrightarrow> q \<notin># pt_ms (mem s) 2 root \<longrightarrow>
        page_eq (mem s) (mem s') q"
      using eq r page_eq_trans [of "mem s" "mem s2" q "mem s'"] unfolding unmap_result_def img set1 ms by simp
  qed
qed

lemma uvmunmap_loop_ok:
  assumes "uspace s ps root D" and "{i..<i + k} \<subseteq> D" and "i + k \<le> 67108864"
  shows "\<exists>s'. uvmunmap_loop (Suc k) root (pg i) (pg (i + k)) True s = Ret ((), s') \<and>
           unmap_result s ps root D i k s'"
  using assms
proof (induction k arbitrary: i s ps D)
  case 0
  then show ?case by (auto simp: unmap_result_def)
next
  case (Suc k)
  have i: "i \<in> D" "i < 67108864" using Suc.prems(2,3) by auto
  from unmap_one [OF Suc.prems(1) i(1)] obtain a s1 s2 where
    u: "walk root (pg i) False s = Ret (a, s)" "a \<noteq> 0" "ld64 (mem s) a = upte s root i"
      "kfree (upage s root i) s = Ret ((), s1)" "s2 = s1\<lparr>mem := st64 (mem s1) a 0\<rparr>"
      "uspace s2 (upage s root i # ps) root (D - {i})" and fr: "kmem_frame s s2"
      "pt_ms (mem s2) 2 root = pt_ms (mem s) 2 root"
      "pt_tables (mem s) 2 root \<longrightarrow> pt_tables (mem s2) 2 root"
      "\<forall>j < 134217728. upte s2 root j = (if j = i then 0 else upte s root j)"
      "\<forall>q. page_aligned q \<longrightarrow> q \<noteq> upage s root i \<longrightarrow> q \<notin># pt_ms (mem s) 2 root \<longrightarrow> page_eq (mem s) (mem s2) q"
    by blast
  have "leaf (upte s root i)" using Suc.prems(1) i(1) by (simp add: uspace_def)
  moreover have "pg i < pg (i + Suc k)" using Suc.prems(3) by (intro pg_less) auto
  ultimately have run: "uvmunmap_loop (Suc (Suc k)) root (pg i) (pg (i + Suc k)) True s =
      uvmunmap_loop (Suc k) root (pg (Suc i)) (pg (i + Suc k)) True s2"
    unfolding uvmunmap_loop.simps(2) [of "Suc k"] pg_Suc using u(1-5)
    by (simp add: leaf_def upage_def del: uvmunmap_loop.simps)
  have sub: "{Suc i..<Suc i + k} \<subseteq> D - {i}" using Suc.prems(2) by auto
  from Suc.IH [OF u(6) sub] Suc.prems(3) obtain s' where
    r: "uvmunmap_loop (Suc k) root (pg (Suc i)) (pg (Suc i + k)) True s2 = Ret ((), s')"
      "unmap_result s2 (upage s root i # ps) root (D - {i}) (Suc i) k s'" by auto
  from unmap_result_Suc [OF Suc.prems(3) fr r(2)] show ?case using run r(1) by auto
qed

lemma uvmunmap_ok:
  assumes "uspace s ps root D" and "{i..<i + k} \<subseteq> D" and "i + k \<le> 67108864"
  shows "\<exists>s'. uvmunmap root (pg i) (of_nat k) True s = Ret ((), s') \<and> unmap_result s ps root D i k s'"
proof -
  have "pg i mod PGSIZE = 0"
    using pg_facts(2) [of i] assms(3) by (simp add: page_aligned_def)
  moreover have "unat (of_nat k :: u64) + 1 = Suc k" using assms(3) by (simp add: unat_of_nat_u64)
  moreover have "pg i + of_nat k * PGSIZE = pg (i + k)" by (simp add: pg_def algebra_simps)
  ultimately show ?thesis
    using uvmunmap_loop_ok [OF assms] unfolding uvmunmap_def by (simp del: uvmunmap_loop.simps)
qed

section \<open>Growing and shrinking\<close>

definition perm_ok :: "u64 \<Rightarrow> bool" where
  "perm_ok perm \<longleftrightarrow> perm AND NOT 0x3FF = 0 \<and> perm OR PTE_V \<noteq> PTE_V"

lemma PTE_FLAGS_PA2PTE: "f AND NOT 0x3FF = 0 \<Longrightarrow> PTE_FLAGS (PA2PTE p OR f) = f"
proof (rule bit_word_eqI)
  fix n
  assume f: "f AND NOT (0x3FF :: u64) = 0" and "n < LENGTH(64)"
  have 3: "(0x3FF :: u64) = mask 10" by (simp add: mask_eq_exp_minus_1)
  have "bit f n \<Longrightarrow> n < 10"
    using f unfolding 3 by (metis (no_types, opaque_lifting) bit_0_eq bit_and_iff bit_mask_iff bit_not_iff
        bot_apply bot_bool_def impossible_bit)
  then show "bit (PTE_FLAGS (PA2PTE p OR f)) n = bit f n"
    unfolding PTE_FLAGS_def 3 by (auto simp: PA2PTE_def bit_simps)
qed

lemma perm_pte:
  assumes "perm_ok perm" and "page_aligned p"
  shows "leaf (PA2PTE p OR perm OR PTE_V)" and "PTE2PA (PA2PTE p OR perm OR PTE_V) = p"
    and "PTE_FLAGS (PA2PTE p OR perm OR PTE_V) = perm OR PTE_V"
proof -
  have f: "(perm OR PTE_V) AND NOT 0x3FF = 0"
    using assms(1) by (simp add: perm_ok_def bit.conj_disj_distrib2)
  show fl: "PTE_FLAGS (PA2PTE p OR perm OR PTE_V) = perm OR PTE_V" by (rule PTE_FLAGS_PA2PTE [OF f])
  then show "leaf (PA2PTE p OR perm OR PTE_V)"
    using assms(1) PTE_V_or [of "PA2PTE p OR perm"] by (simp add: leaf_def perm_ok_def or.assoc)
  show "PTE2PA (PA2PTE p OR perm OR PTE_V) = p"
    using PTE2PA_flags [OF f, of p] assms(2) by simp
qed

lemma uspace_frame:
  assumes us: "uspace s ps root D" and fr: "kmem_frame s s'" and k: "kmem_wf s' ps'" and sub: "set ps' \<subseteq> set ps"
    and eq: "\<forall>q\<in>#pt_ms (mem s) 2 root. page_eq (mem s) (mem s') q"
  shows "uspace s' ps' root D" and "pt_ms (mem s') 2 root = pt_ms (mem s) 2 root"
    and "upte s' root j = upte s root j" and "pt_tables (mem s') 2 root = pt_tables (mem s) 2 root"
proof -
  have pw: "pt_wf s ps 2 root" using us by (simp add: uspace_def as_wf_def)
  have "\<forall>q\<in>#pt_ms (mem s) 2 root. page_eq (mem s) (mem s') q \<and> q \<notin> set ps'"
    using eq sub pw by (auto simp: pt_wf_def)
  note f = as_wf_frame [OF pw fr k this]
  show u: "upte s' root j = upte s root j" for j unfolding upte_def by (rule f(5))
  then have "upage s' root = upage s root" by (auto simp: upage_def)
  then show "uspace s' ps' root D"
    using us f(1,2) u sub unfolding uspace_def by (auto simp: kmem_frame_page_ok [OF fr])
  show "pt_ms (mem s') 2 root = pt_ms (mem s) 2 root" and "pt_tables (mem s') 2 root = pt_tables (mem s) 2 root"
    by (rule f(2), rule f(3))
qed

lemma uspace_ext:
  assumes us: "uspace s ps root D" and ex: "pt_ext s ps 2 root s' ps'"
    and up: "\<forall>j\<in>D. upte s' root j = upte s root j"
  shows "uspace s' ps' root D"
proof -
  from ex obtain N where N: "ps = N @ ps'" "pt_ms (mem s') 2 root = pt_ms (mem s) 2 root + mset N"
    and fr: "kmem_frame s s'" by (rule pt_extE)
  have pg: "\<forall>j\<in>D. upage s' root j = upage s root j" using up by (simp add: upage_def)
  then have "inj_on (upage s' root) D" using us unfolding uspace_def by (metis inj_on_cong)
  then show ?thesis
    using us as_wf_ext [OF _ ex] up pg N unfolding uspace_def by (auto simp: kmem_frame_page_ok [OF fr])
qed

lemma uspace_insert:
  assumes "uspace s ps root D" and "i < 67108864" and "leaf (upte s root i)" and "page_ok s (upage s root i)"
    and "upage s root i \<notin> set ps" and "upage s root i \<notin># pt_ms (mem s) 2 root"
    and "upage s root i \<notin> upage s root ` (D - {i})"
  shows "uspace s ps root (insert i D)"
  using assms by (simp add: uspace_def inj_on_insert)

text \<open>Mapping one fresh page: it joins the space, or memory is exhausted and nothing is mapped.\<close>

lemma map_user:
  assumes us: "uspace s ps root D" and i: "i < 67108864" "i \<notin> D" and inv: "upte s root i AND PTE_V = 0"
    and p: "page_ok s p" "p \<notin> set ps" "p \<notin># pt_ms (mem s) 2 root" "p \<notin> upage s root ` D"
    and perm: "perm_ok perm"
  shows "\<exists>r s' ps'. mappages root (pg i) PGSIZE p perm s = Ret (r, s') \<and> pt_ext s ps 2 root s' ps' \<and>
     (\<forall>j < 134217728. upte s' root j = (if j = i \<and> r = 0 then PA2PTE p OR perm OR PTE_V else upte s root j)) \<and>
     (r = 0 \<and> uspace s' ps' root (insert i D) \<or> r = -1 \<and> ps' = [] \<and> uspace s' ps' root D)"
proof -
  have i27: "i < 134217728" using i(1) by simp
  note pi = pg_facts [OF i27]
  have wf: "as_wf s ps root" using us by (simp add: uspace_def)
  have al: "page_aligned p" using p(1) by (simp add: page_ok_def)
  have "unat (pg i) + 4096 * 1 \<le> unat MAXVA" using pi(3) i(1) by simp
  moreover have "\<forall>v. in_range (vpn (pg i)) 1 v \<longrightarrow> pte_of s root v AND PTE_V = 0"
    using inv pi(1) by (auto simp: pte_of_upte dest: le_antisym)
  ultimately obtain r s' ps' where r: "mappages root (pg i) PGSIZE p perm s = Ret (r, s')"
      and m: "map_result s ps root (pg i) 1 p perm r s' ps'"
    using mappages_ok [OF wf pi(2), of PGSIZE 1 p perm] by auto
  from m obtain k where k: "r = 0 \<and> k = 1 \<or> r = -1 \<and> k = 0 \<and> ps' = []"
      "\<And>va. pte_of s' root va = (if in_range i k va then PA2PTE (p + of_nat (4096 * (vpn va - i))) OR perm OR PTE_V
         else pte_of s root va)"
      and ex: "pt_ext s ps 2 root s' ps'"
    unfolding map_result_def pi(1) by auto
  have up: "upte s' root j = (if j = i \<and> r = 0 then PA2PTE p OR perm OR PTE_V else upte s root j)"
    if "j < 134217728" for j
    using k(1) k(2) [of "pg j"] pg_facts(1) [OF that] by (auto simp: upte_def)
  have same: "\<forall>j\<in>D. upte s' root j = upte s root j"
  proof
    fix j assume "j \<in> D"
    then have "j < 134217728" "j \<noteq> i" using us i(2) by (auto simp: uspace_def)
    then show "upte s' root j = upte s root j" using up by simp
  qed
  note us' = uspace_ext [OF us ex same]
  have "uspace s' ps' root (insert i D)" if "r = 0"
  proof -
    have ui: "upte s' root i = PA2PTE p OR perm OR PTE_V" using up [OF i27] that by simp
    note pp = perm_pte [OF perm al]
    have gi: "upage s' root i = p" unfolding upage_def ui by (rule pp(2))
    from ex obtain N where N: "ps = N @ ps'" "pt_ms (mem s') 2 root = pt_ms (mem s) 2 root + mset N"
      and fr: "kmem_frame s s'" by (rule pt_extE)
    have "upage s' root ` D = upage s root ` D" using same by (simp add: upage_def)
    then have "upage s' root i \<notin> upage s' root ` (D - {i})" using p(4) gi by auto
    then show ?thesis
      using i(1) pp(1) p(1-3) N by (intro uspace_insert [OF us']) (simp_all add: gi ui kmem_frame_page_ok [OF fr])
  qed
  then show ?thesis using r ex up us' k(1) by blast
qed

end
