(* ===== verification/Vm_User.thy ===== *)
theory Vm_User
  imports Vm_Space
begin

text \<open>
  User memory: growing (\<open>uvmalloc\<close>), shrinking (\<open>uvmdealloc\<close>) and releasing (\<open>freewalk\<close>,
  \<open>uvmfree\<close>) an address space, with an account of every page, and copying between the kernel and
  user memory (\<open>copyout\<close>, \<open>copyin\<close>).
\<close>

section \<open>Growing\<close>

lemma uspaceD:
  assumes "uspace s ps root D" and "j \<in> D"
  shows "j < 67108864" and "leaf (upte s root j)" and "page_ok s (upage s root j)"
    and "page_aligned (upage s root j)" and "upage s root j \<notin> set ps"
    and "upage s root j \<notin># pt_ms (mem s) 2 root"
  using assms by (auto simp: uspace_def page_ok_def)

text \<open>The number of pages of a size in bytes.\<close>

definition npg :: "u64 \<Rightarrow> nat" where
  "npg sz = (unat sz + 4095) div 4096"

lemma PGROUNDUP_pg: "sz \<le> MAXVA \<Longrightarrow> PGROUNDUP sz = pg (npg sz) \<and> npg sz \<le> 67108864"
proof
  assume "sz \<le> MAXVA"
  then have le: "unat sz \<le> 274877906944" by (simp add: word_le_nat_alt)
  then show n: "npg sz \<le> 67108864" by (simp add: npg_def)
  have "unat (PGROUNDUP sz) = npg sz * 4096" using unat_PGROUNDUP [of sz] le by (simp add: npg_def)
  moreover have "unat (pg (npg sz)) = 4096 * npg sz" using n by (intro pg_facts) simp
  ultimately show "PGROUNDUP sz = pg (npg sz)" by (simp add: word_unat_eq_iff)
qed

text \<open>
  \<open>grown s ps root D i k perm s' ps'\<close>: the \<open>k\<close> page numbers from \<open>i\<close> on have been given fresh,
  zero-filled pages with the permissions \<open>perm\<close>; every other translation and every page outside
  the tree and the free list is as it was; and each page that left the free list is now a table
  page or one of the new user pages.
\<close>

definition grown ::
    "'s kmem_scheme \<Rightarrow> u64 list \<Rightarrow> u64 \<Rightarrow> nat set \<Rightarrow> nat \<Rightarrow> nat \<Rightarrow> u64 \<Rightarrow> 's kmem_scheme \<Rightarrow> u64 list \<Rightarrow> bool" where
  "grown s ps root D i k perm s' ps' \<longleftrightarrow>
     uspace s' ps' root (D \<union> {i..<i + k}) \<and> kmem_frame s s' \<and>
     (\<forall>j < 134217728. j \<notin> {i..<i + k} \<longrightarrow> upte s' root j = upte s root j) \<and>
     (\<forall>j\<in>{i..<i + k}. PTE_FLAGS (upte s' root j) = perm OR PTE_V \<and>
        mem_bytes (mem s') (upage s' root j) 4096 = replicate 4096 0) \<and>
     mset ps + pt_ms (mem s) 2 root =
       mset ps' + pt_ms (mem s') 2 root + image_mset (upage s' root) (mset [i..<i + k]) \<and>
     (\<forall>q. page_aligned q \<longrightarrow> q \<notin># pt_ms (mem s) 2 root \<longrightarrow> q \<notin> set ps \<longrightarrow> page_eq (mem s) (mem s') q) \<and>
     (pt_tables (mem s) 2 root \<longrightarrow> pt_tables (mem s') 2 root)"

lemma grownD:
  assumes "grown s ps root D i k perm s' ps'"
  shows "uspace s' ps' root (D \<union> {i..<i + k})" and "kmem_frame s s'"
    and "\<And>j. j < 134217728 \<Longrightarrow> j \<notin> {i..<i + k} \<Longrightarrow> upte s' root j = upte s root j"
    and "\<And>j. j \<in> {i..<i + k} \<Longrightarrow> PTE_FLAGS (upte s' root j) = perm OR PTE_V"
    and "\<And>j. j \<in> {i..<i + k} \<Longrightarrow> mem_bytes (mem s') (upage s' root j) 4096 = replicate 4096 0"
    and "mset ps + pt_ms (mem s) 2 root =
       mset ps' + pt_ms (mem s') 2 root + image_mset (upage s' root) (mset [i..<i + k])"
    and "\<And>q. page_aligned q \<Longrightarrow> q \<notin># pt_ms (mem s) 2 root \<Longrightarrow> q \<notin> set ps \<Longrightarrow> page_eq (mem s) (mem s') q"
    and "pt_tables (mem s) 2 root \<Longrightarrow> pt_tables (mem s') 2 root"
  using assms unfolding grown_def by simp_all

lemma grown_0: "uspace s ps root D \<Longrightarrow> grown s ps root D i 0 perm s ps"
  by (simp add: grown_def)

lemma page_eq_bytes: "page_eq m m' q \<Longrightarrow> mem_bytes m' q 4096 = mem_bytes m q 4096"
  by (rule mem_bytes_cong) (simp add: page_eq_def)

lemma grown_trans:
  assumes g1: "grown s ps root D i k perm s1 ps1"
    and g2: "grown s1 ps1 root (D \<union> {i..<i + k}) (i + k) l perm s2 ps2"
  shows "grown s ps root D i (k + l) perm s2 ps2"
proof -
  note d1 = grownD [OF g1] and d2 = grownD [OF g2]
  have r: "{i..<i + (k + l)} = {i..<i + k} \<union> {i + k..<i + k + l}" by auto
  have lst: "[i..<i + (k + l)] = [i..<i + k] @ [i + k..<i + k + l]"
    by (metis add.assoc le_add1 upt_add_eq_append)
  have old: "upte s2 root j = upte s1 root j" "upage s2 root j = upage s1 root j"
      "page_aligned (upage s1 root j)" "upage s1 root j \<notin># pt_ms (mem s1) 2 root" "upage s1 root j \<notin> set ps1"
    if "j \<in> {i..<i + k}" for j
  proof -
    note uj = uspaceD [OF d1(1), of j]
    have "j < 134217728" using uj(1) that by simp
    then show "upte s2 root j = upte s1 root j" using that by (intro d2(3)) auto
    then show "upage s2 root j = upage s1 root j" by (simp add: upage_def)
    show "page_aligned (upage s1 root j)" "upage s1 root j \<notin># pt_ms (mem s1) 2 root" "upage s1 root j \<notin> set ps1"
      using uj(4-6) that by auto
  qed
  have img: "image_mset (upage s2 root) (mset [i..<i + k]) = image_mset (upage s1 root) (mset [i..<i + k])"
    using old(2) by (intro image_mset_cong) simp
  have sub: "set_mset (pt_ms (mem s1) 2 root) \<union> set ps1 \<subseteq> set_mset (pt_ms (mem s) 2 root) \<union> set ps"
    using arg_cong [OF d1(6), of set_mset] by auto
  show ?thesis
    unfolding grown_def
  proof (intro conjI allI impI ballI)
    show "uspace s2 ps2 root (D \<union> {i..<i + (k + l)})" using d2(1) unfolding r by (simp add: Un_assoc)
    show "kmem_frame s s2" by (rule kmem_frame_trans [OF d1(2) d2(2)])
    show "upte s2 root j = upte s root j" if "j < 134217728" "j \<notin> {i..<i + (k + l)}" for j
      using d1(3) [of j] d2(3) [of j] that unfolding r by simp
    fix j assume j: "j \<in> {i..<i + (k + l)}"
    show "PTE_FLAGS (upte s2 root j) = perm OR PTE_V"
      using j d1(4) [of j] d2(4) [of j] old(1) [of j] unfolding r by auto
    show "mem_bytes (mem s2) (upage s2 root j) 4096 = replicate 4096 0"
      using j d1(5) [of j] d2(5) [of j] old(2-5) [of j] page_eq_bytes [OF d2(7)] unfolding r by auto
  next
    show "mset ps + pt_ms (mem s) 2 root =
        mset ps2 + pt_ms (mem s2) 2 root + image_mset (upage s2 root) (mset [i..<i + (k + l)])"
      unfolding lst using d1(6) d2(6) img by (simp add: ac_simps)
  next
    fix q assume "page_aligned q" "q \<notin># pt_ms (mem s) 2 root" "q \<notin> set ps"
    then show "page_eq (mem s) (mem s2) q" using sub by (intro page_eq_trans [OF d1(7) d2(7)]) auto
  next
    assume "pt_tables (mem s) 2 root"
    then show "pt_tables (mem s2) 2 root" by (intro d2(8) d1(8))
  qed
qed

text \<open>A cleared page taken from the allocator beside an address space.\<close>

definition fresh_page ::
    "'s kmem_scheme \<Rightarrow> u64 list \<Rightarrow> u64 \<Rightarrow> nat set \<Rightarrow> u64 \<Rightarrow> 's kmem_scheme \<Rightarrow> u64 list \<Rightarrow> bool" where
  "fresh_page s ps root D p s' ps' \<longleftrightarrow>
     ps = p # ps' \<and> uspace s' ps' root D \<and> kmem_frame s s' \<and> p \<noteq> 0 \<and> page_ok s' p \<and> p \<notin> set ps' \<and>
     p \<notin># pt_ms (mem s') 2 root \<and> p \<notin> upage s' root ` D \<and> mem_bytes (mem s') p 4096 = replicate 4096 0 \<and>
     pt_ms (mem s') 2 root = pt_ms (mem s) 2 root \<and> (\<forall>j. upte s' root j = upte s root j) \<and>
     pt_tables (mem s') 2 root = pt_tables (mem s) 2 root \<and>
     (\<forall>q. page_aligned q \<longrightarrow> q \<noteq> p \<longrightarrow> page_eq (mem s) (mem s') q)"

lemma kalloc_fresh:
  assumes us: "uspace s (p # qs) root D"
  shows "\<exists>s1 s2. kalloc s = Ret (p, s1) \<and> s2 = s1\<lparr>mem := memset p 0 (ucast PGSIZE) (mem s1)\<rparr> \<and>
           fresh_page s (p # qs) root D p s2 qs"
proof -
  have k: "kmem_wf s (p # qs)" and pw: "pt_wf s (p # qs) 2 root" using us by (auto simp: uspace_def as_wf_def)
  from kalloc_zero [OF k] obtain s1 s2 where s1: "kalloc s = Ret (p, s1)"
    and s2d: "s2 = s1\<lparr>mem := memset p 0 (ucast PGSIZE) (mem s1)\<rparr>" and s2: "kmem_wf s2 qs" "kmem_frame s s2"
      "mem_bytes (mem s2) p 4096 = replicate 4096 0"
      "\<forall>q. page_aligned q \<longrightarrow> q \<noteq> p \<longrightarrow> page_eq (mem s) (mem s2) q" by blast
  have p: "page_ok s p" "p \<noteq> 0" "p \<notin> set qs" using k by (auto simp: kmem_wf_def page_ok_def)
  have ptp: "p \<notin># pt_ms (mem s) 2 root" using pw by (auto simp: pt_wf_def)
  have eq: "\<forall>q\<in>#pt_ms (mem s) 2 root. page_eq (mem s) (mem s2) q"
    using s2(4) pw by (auto simp: pt_wf_def page_ok_def)
  have sub: "set qs \<subseteq> set (p # qs)" by auto
  note f = uspace_frame [OF us s2(2,1) sub eq]
  have "upage s2 root = upage s root" using f(3) by (auto simp: upage_def)
  then have "p \<notin> upage s2 root ` D" using uspaceD(5) [OF us] by auto
  then have "fresh_page s (p # qs) root D p s2 qs"
    unfolding fresh_page_def using f s2 p ptp by (simp add: kmem_frame_page_ok [OF s2(2)])
  then show ?thesis using s1 s2d by blast
qed

lemma grown_map:
  assumes fp: "fresh_page s ps root D p s2 qs" and i: "i < 67108864" and perm: "perm_ok perm"
    and ex: "pt_ext s2 qs 2 root s3 ps3" and us3: "uspace s3 ps3 root (insert i D)"
    and up: "\<And>j. j < 134217728 \<Longrightarrow> upte s3 root j = (if j = i then PA2PTE p OR perm OR PTE_V else upte s root j)"
  shows "grown s ps root D i 1 perm s3 ps3"
proof -
  from ex obtain N where N: "qs = N @ ps3" "pt_ms (mem s3) 2 root = pt_ms (mem s2) 2 root + mset N"
    and fr3: "kmem_frame s2 s3" by (rule pt_extE)
  have al: "page_aligned p" using fp by (auto simp: fresh_page_def page_ok_def)
  have ui: "upte s3 root i = PA2PTE p OR perm OR PTE_V" using up [of i] i by simp
  have gi: "upage s3 root i = p" unfolding upage_def ui by (rule perm_pte(2) [OF perm al])
  have eq23: "page_eq (mem s2) (mem s3) q" if "page_aligned q" "q \<notin># pt_ms (mem s2) 2 root" "q \<notin> set qs" for q
    using ex that by (simp add: pt_ext_def)
  show ?thesis
    unfolding grown_def
  proof (intro conjI allI impI ballI)
    show "uspace s3 ps3 root (D \<union> {i..<i + 1})" using us3 by simp
    show "kmem_frame s s3" using fp fr3 by (auto simp: fresh_page_def intro: kmem_frame_trans)
    show "upte s3 root j = upte s root j" if "j < 134217728" "j \<notin> {i..<i + 1}" for j using up that by simp
    fix j assume "j \<in> {i..<i + 1}"
    then have j: "j = i" by simp
    show "PTE_FLAGS (upte s3 root j) = perm OR PTE_V" unfolding j ui by (rule perm_pte(3) [OF perm al])
    show "mem_bytes (mem s3) (upage s3 root j) 4096 = replicate 4096 0"
      using page_eq_bytes [OF eq23 [OF al]] fp unfolding j gi fresh_page_def by auto
  next
    show "mset ps + pt_ms (mem s) 2 root =
        mset ps3 + pt_ms (mem s3) 2 root + image_mset (upage s3 root) (mset [i..<i + 1])"
      using fp N gi by (auto simp: fresh_page_def)
  next
    fix q assume q: "page_aligned q" "q \<notin># pt_ms (mem s) 2 root" "q \<notin> set ps"
    have "page_eq (mem s) (mem s2) q" using fp q by (auto simp: fresh_page_def)
    moreover have "page_eq (mem s2) (mem s3) q" using fp q by (intro eq23) (auto simp: fresh_page_def)
    ultimately show "page_eq (mem s) (mem s3) q" by (rule page_eq_trans)
  next
    assume "pt_tables (mem s) 2 root"
    then show "pt_tables (mem s3) 2 root" using fp ex by (auto simp: fresh_page_def pt_ext_def)
  qed
qed

lemma grown_undo:
  assumes fp: "fresh_page s ps root D p s2 qs" and ex: "pt_ext s2 qs 2 root s3 []" and us3: "uspace s3 [] root D"
    and up: "\<And>j. j < 134217728 \<Longrightarrow> upte s3 root j = upte s root j"
  shows "\<exists>s4. kfree p s3 = Ret ((), s4) \<and> grown s ps root D i 0 perm s4 [p]"
proof -
  from ex obtain N where N: "qs = N @ []" "pt_ms (mem s3) 2 root = pt_ms (mem s2) 2 root + mset N"
    and fr3: "kmem_frame s2 s3" and k3: "kmem_wf s3 []" by (rule pt_extE)
  have ok: "page_ok s3 p" using fp fr3 by (simp add: fresh_page_def kmem_frame_page_ok)
  from kfree_ok [OF k3 ok] obtain s4 where s4: "kfree p s3 = Ret ((), s4)" "kmem_wf s4 [p]"
      "kmem_frame s3 s4" "\<forall>q. page_aligned q \<longrightarrow> q \<noteq> p \<longrightarrow> page_eq (mem s3) (mem s4) q" by auto
  have np: "p \<notin># pt_ms (mem s3) 2 root" using fp N by (auto simp: fresh_page_def)
  have pw3: "pt_wf s3 [] 2 root" using us3 by (simp add: uspace_def as_wf_def)
  have "\<forall>q\<in>#pt_ms (mem s3) 2 root. page_eq (mem s3) (mem s4) q \<and> q \<notin> set [p]"
    using s4(4) pw3 np by (auto simp: pt_wf_def page_ok_def)
  note f = as_wf_frame [OF pw3 s4(3,2) this]
  have u: "upte s4 root j = upte s3 root j" for j unfolding upte_def by (rule f(5))
  then have g: "upage s4 root = upage s3 root" by (auto simp: upage_def)
  have "upage s3 root j \<noteq> p" if "j \<in> D" for j
    using fp up uspaceD(1) [OF us3 that] that by (auto simp: fresh_page_def upage_def)
  then have us4: "uspace s4 [p] root D"
    using us3 f(1,2) u unfolding uspace_def g by (auto simp: kmem_frame_page_ok [OF s4(3)])
  have "page_eq (mem s) (mem s4) q" if q: "page_aligned q" "q \<notin># pt_ms (mem s) 2 root" "q \<notin> set ps" for q
  proof -
    have "page_eq (mem s) (mem s2) q" "q \<noteq> p" using fp q by (auto simp: fresh_page_def)
    moreover have "page_eq (mem s2) (mem s3) q" using fp ex q by (auto simp: fresh_page_def pt_ext_def)
    moreover have "page_eq (mem s3) (mem s4) q" using s4(4) q \<open>q \<noteq> p\<close> by blast
    ultimately show ?thesis by (blast intro: page_eq_trans)
  qed
  moreover have "kmem_frame s s4" using fp fr3 s4(3) by (auto simp: fresh_page_def intro: kmem_frame_trans)
  moreover have "mset ps + pt_ms (mem s) 2 root = mset [p] + pt_ms (mem s4) 2 root"
    using fp N f(2) by (auto simp: fresh_page_def)
  moreover have "pt_tables (mem s) 2 root \<Longrightarrow> pt_tables (mem s4) 2 root"
    using fp ex f(3) by (auto simp: fresh_page_def pt_ext_def)
  ultimately show ?thesis using s4(1) us4 u up unfolding grown_def by auto
qed

text \<open>One round of \<open>uvmalloc\<close>.\<close>

lemma alloc_one:
  assumes us: "uspace s ps root D" and i: "i < 67108864" "i \<notin> D" and inv: "upte s root i = 0"
    and perm: "perm_ok perm"
  shows "ps = [] \<and> kalloc s = Ret (0, s) \<or>
    (\<exists>p s1 r s3 ps3. kalloc s = Ret (p, s1) \<and> p \<noteq> 0 \<and>
       mappages root (pg i) PGSIZE p perm (s1\<lparr>mem := memset p 0 (ucast PGSIZE) (mem s1)\<rparr>) = Ret (r, s3) \<and>
       (r = 0 \<and> grown s ps root D i 1 perm s3 ps3 \<or>
        r \<noteq> 0 \<and> (\<exists>s4. kfree p s3 = Ret ((), s4) \<and> grown s ps root D i 0 perm s4 [p])))"
proof (cases ps)
  case Nil
  then show ?thesis using us kalloc_wf_Nil by (auto simp: uspace_def as_wf_def)
next
  case (Cons p qs)
  from kalloc_fresh [OF us [unfolded Cons]] obtain s1 s2 where s1: "kalloc s = Ret (p, s1)"
    and s2: "s2 = s1\<lparr>mem := memset p 0 (ucast PGSIZE) (mem s1)\<rparr>" and fp: "fresh_page s ps root D p s2 qs"
    unfolding Cons by blast
  have f: "uspace s2 qs root D" "upte s2 root i AND PTE_V = 0" "page_ok s2 p" "p \<notin> set qs"
      "p \<notin># pt_ms (mem s2) 2 root" "p \<notin> upage s2 root ` D" "p \<noteq> 0" and u2: "\<forall>j. upte s2 root j = upte s root j"
    using fp inv by (auto simp: fresh_page_def)
  from map_user [OF f(1) i f(2-6) perm] obtain r s3 ps3 where
    m: "mappages root (pg i) PGSIZE p perm s2 = Ret (r, s3)" and ex: "pt_ext s2 qs 2 root s3 ps3"
    and up: "\<And>j. j < 134217728 \<Longrightarrow> upte s3 root j = (if j = i \<and> r = 0 then PA2PTE p OR perm OR PTE_V else upte s root j)"
    and c: "r = 0 \<and> uspace s3 ps3 root (insert i D) \<or> r = -1 \<and> ps3 = [] \<and> uspace s3 ps3 root D"
    using u2 by auto
  show ?thesis
  proof (cases "r = 0")
    case True
    then have "grown s ps root D i 1 perm s3 ps3" using c up by (intro grown_map [OF fp i(1) perm ex]) auto
    then show ?thesis using s1 f(7) s2 m True by blast
  next
    case False
    then have "\<exists>s4. kfree p s3 = Ret ((), s4) \<and> grown s ps root D i 0 perm s4 [p]"
      using c up ex by (intro grown_undo [OF fp]) auto
    then show ?thesis using s1 f(7) s2 m False by blast
  qed
qed

section \<open>Shrinking\<close>

text \<open>The page count of \<open>uvmdealloc\<close> passes through a C \<open>int\<close>, which is harmless below \<open>2 ^ 31\<close> pages.\<close>

lemma scast_ucast_small: "k < 2 ^ 31 \<Longrightarrow> scast (ucast (of_nat k :: u64) :: u32) = (of_nat k :: u64)"
  by (simp add: unsigned_of_nat signed_of_nat take_bit_nat_eq_self signed_take_bit_int_eq_self)

lemma uvmdealloc_ok:
  assumes us: "uspace s ps root D" and le: "newsz < oldsz" "oldsz \<le> MAXVA"
    and sub: "{npg newsz..<npg oldsz} \<subseteq> D"
  shows "\<exists>s'. uvmdealloc root oldsz newsz s = Ret (newsz, s') \<and>
     unmap_result s ps root D (npg newsz) (npg oldsz - npg newsz) s'"
proof -
  have r: "PGROUNDUP oldsz = pg (npg oldsz)" "npg oldsz \<le> 67108864" "PGROUNDUP newsz = pg (npg newsz)"
    using PGROUNDUP_pg [of oldsz] PGROUNDUP_pg [of newsz] le by auto
  have mono: "npg newsz \<le> npg oldsz" using le(1) by (simp add: npg_def word_less_nat_alt div_le_mono)
  define k where "k = npg oldsz - npg newsz"
  have k: "npg newsz + k = npg oldsz" using mono by (simp add: k_def)
  note un = uvmunmap_ok [OF us, of "npg newsz" k, unfolded k, OF sub r(2)]
  show ?thesis
  proof (cases "k = 0")
    case True
    then have "\<not> PGROUNDUP newsz < PGROUNDUP oldsz" using r k by simp
    then show ?thesis using us le(1) True unfolding uvmdealloc_def k_def [symmetric]
      by (auto simp: unmap_result_def)
  next
    case False
    have uk: "unat (of_nat k :: u64) = k" using k r(2) by (intro unat_of_nat_u64) simp
    have "pg (npg oldsz) - pg (npg newsz) = of_nat (4096 * k)" using k [symmetric] by (simp add: pg_def algebra_simps)
    moreover have "unat (of_nat (4096 * k) :: u64) = 4096 * k" using k r(2) by (intro unat_of_nat_u64) simp
    ultimately have d: "(pg (npg oldsz) - pg (npg newsz)) div PGSIZE = of_nat k"
      using uk by (simp add: word_unat_eq_iff unat_div)
    have c: "scast (ucast (of_nat k :: u64) :: u32) = (of_nat k :: u64)"
      using k r(2) by (intro scast_ucast_small) simp
    have "pg (npg newsz) < pg (npg oldsz)" using False k r(2) by (intro pg_less) auto
    then show ?thesis using un le(1) unfolding uvmdealloc_def r k_def [symmetric]
      by (auto simp: d c Let_def simp del: PGSIZE_def)
  qed
qed

lemma grown_unmap:
  assumes g: "grown s ps root D i k perm s1 ps1" and new: "D \<inter> {i..<i + k} = {}"
    and z: "\<forall>j\<in>{i..<i + k}. upte s root j = 0"
    and u: "unmap_result s1 ps1 root (D \<union> {i..<i + k}) i k s2"
  shows "\<exists>ps2. grown s ps root D i 0 perm s2 ps2"
proof -
  note d = grownD [OF g]
  let ?ps2 = "rev (map (upage s1 root) [i..<i + k]) @ ps1"
  from u have us: "uspace s2 ?ps2 root (D \<union> {i..<i + k} - {i..<i + k})" and fr: "kmem_frame s1 s2"
    and ms: "pt_ms (mem s2) 2 root = pt_ms (mem s1) 2 root"
    and tb: "pt_tables (mem s1) 2 root \<Longrightarrow> pt_tables (mem s2) 2 root"
    and up: "\<And>j. j < 134217728 \<Longrightarrow> upte s2 root j = (if i \<le> j \<and> j < i + k then 0 else upte s1 root j)"
    and eq: "\<And>q. page_aligned q \<Longrightarrow> q \<notin> upage s1 root ` {i..<i + k} \<Longrightarrow> q \<notin># pt_ms (mem s1) 2 root \<Longrightarrow>
        page_eq (mem s1) (mem s2) q"
    unfolding unmap_result_def by simp_all
  have D: "D \<union> {i..<i + k} - {i..<i + k} = D" using new by auto
  have acc: "mset ps + pt_ms (mem s) 2 root = mset ?ps2 + pt_ms (mem s2) 2 root"
    using d(6) ms by (simp add: ac_simps)
  have sub: "set ?ps2 \<union> set_mset (pt_ms (mem s1) 2 root) = set ps \<union> set_mset (pt_ms (mem s) 2 root)"
    using arg_cong [OF acc, of set_mset] ms by simp
  have "grown s ps root D i 0 perm s2 ?ps2"
    unfolding grown_def
  proof (intro conjI allI impI)
    show "uspace s2 ?ps2 root (D \<union> {i..<i + 0})" using us D by simp
    show "kmem_frame s s2" by (rule kmem_frame_trans [OF d(2) fr])
    show "upte s2 root j = upte s root j" if "j < 134217728" for j
      using up [OF that] d(3) [OF that] z by auto
    show "mset ps + pt_ms (mem s) 2 root =
        mset ?ps2 + pt_ms (mem s2) 2 root + image_mset (upage s2 root) (mset [i..<i + 0])" using acc by simp
    show "page_eq (mem s) (mem s2) q" if "page_aligned q" "q \<notin># pt_ms (mem s) 2 root" "q \<notin> set ps" for q
      using that sub by (intro page_eq_trans [OF d(7) eq]) auto
    show "pt_tables (mem s2) 2 root" if "pt_tables (mem s) 2 root" using that by (intro tb d(8))
  qed simp
  then show ?thesis by blast
qed

section \<open>The whole of uvmalloc\<close>

lemma npg_pg: "i \<le> 67108864 \<Longrightarrow> npg (pg i) = i"
  using pg_facts(3) [of i] by (simp add: npg_def)

text \<open>Undoing a partial growth returns every user page and keeps only table pages.\<close>

lemma grown_dealloc:
  assumes g: "grown s ps root D i k perm s1 ps1" and le: "i + k \<le> 67108864" and new: "D \<inter> {i..<i + k} = {}"
    and z: "\<forall>j\<in>{i..<i + k}. upte s root j = 0"
  shows "\<exists>s2. uvmdealloc root (pg (i + k)) (pg i) s1 = Ret (pg i, s2) \<and> (\<exists>ps2. grown s ps root D i 0 perm s2 ps2)"
proof (cases "k = 0")
  case True
  then show ?thesis using g by (auto simp: uvmdealloc_def)
next
  case False
  have "pg i < pg (i + k)" using False le by (intro pg_less) auto
  moreover have "pg (i + k) \<le> MAXVA" using pg_facts(3) [of "i + k"] le by (simp add: word_le_nat_alt)
  moreover have "npg (pg i) = i" "npg (pg (i + k)) = i + k" using le by (auto intro!: npg_pg)
  ultimately obtain s2 where "uvmdealloc root (pg (i + k)) (pg i) s1 = Ret (pg i, s2)"
      "unmap_result s1 ps1 root (D \<union> {i..<i + k}) i k s2"
    using uvmdealloc_ok [OF grownD(1) [OF g], of "pg i" "pg (i + k)"] by auto
  then show ?thesis using grown_unmap [OF g new z] by blast
qed

lemma uvmalloc_loop_ok:
  assumes "grown s ps root D i k (PTE_R OR PTE_U OR xperm) s1 ps1" and "i + k + n = npg newsz"
    and "npg newsz \<le> 67108864" and "D \<inter> {i..<npg newsz} = {}"
    and "\<forall>j\<in>{i..<npg newsz}. upte s root j = 0" and "perm_ok (PTE_R OR PTE_U OR xperm)"
    and "unat newsz \<le> 4096 * npg newsz" and "n < fuel" and "4096 * npg newsz < unat newsz + 4096"
  shows "\<exists>r s' ps'. uvmalloc_loop fuel root (pg (i + k)) (pg i) newsz xperm s1 = Ret (r, s') \<and>
     (r = newsz \<and> grown s ps root D i (k + n) (PTE_R OR PTE_U OR xperm) s' ps' \<or>
      r = 0 \<and> grown s ps root D i 0 (PTE_R OR PTE_U OR xperm) s' ps')"
  using assms
proof (induction n arbitrary: fuel k s1 ps1)
  case 0
  then obtain f where f: "fuel = Suc f" by (cases fuel) auto
  have "unat (pg (i + k)) = 4096 * (i + k)" using 0(2,3) by (intro pg_facts) simp
  then have "\<not> pg (i + k) < newsz" using 0(2,7) by (simp add: word_less_nat_alt)
  then show ?case using 0(1) f by auto
next
  case (Suc n)
  let ?perm = "PTE_R OR PTE_U OR xperm" and ?i = "i + k"
  from Suc.prems(8) obtain f where f: "fuel = Suc f" "n < f" by (cases fuel) auto
  have i: "?i < 67108864" "?i \<notin> D \<union> {i..<?i}" using Suc.prems(2-4) by auto
  have z: "upte s1 root ?i = 0" using grownD(3) [OF Suc.prems(1), of ?i] i Suc.prems(2,5) by auto
  have "unat (pg ?i) = 4096 * ?i" using i(1) by (intro pg_facts) simp
  then have lt: "pg ?i < newsz" using Suc.prems(2,9) by (simp add: word_less_nat_alt)
  have undo: "\<exists>s'. uvmdealloc root (pg ?i) (pg i) s2 = Ret (pg i, s') \<and> (\<exists>ps'. grown s ps root D i 0 ?perm s' ps')"
    if g: "grown s ps root D i k ?perm s2 ps2" for s2 ps2
    using Suc.prems(2-5) by (intro grown_dealloc [OF g]) auto
  from alloc_one [OF grownD(1) [OF Suc.prems(1)] i z Suc.prems(6)] show ?case
  proof (elim disjE exE conjE)
    assume "kalloc s1 = Ret (0, s1)"
    then show ?thesis using undo [OF Suc.prems(1)] lt f(1) by auto
  next
    fix p s2 r s3 ps3
    assume a: "kalloc s1 = Ret (p, s2)" "p \<noteq> 0"
      "mappages root (pg ?i) PGSIZE p ?perm (s2\<lparr>mem := memset p 0 (ucast PGSIZE) (mem s2)\<rparr>) = Ret (r, s3)"
      "r = 0" and g: "grown s1 ps1 root (D \<union> {i..<?i}) ?i 1 ?perm s3 ps3"
    have "grown s ps root D i (Suc k) ?perm s3 ps3" using grown_trans [OF Suc.prems(1) g] by simp
    then have "\<exists>r s' ps'. uvmalloc_loop f root (pg (i + Suc k)) (pg i) newsz xperm s3 = Ret (r, s') \<and>
       (r = newsz \<and> grown s ps root D i (Suc k + n) ?perm s' ps' \<or> r = 0 \<and> grown s ps root D i 0 ?perm s' ps')"
      using Suc.prems f(2) by (intro Suc.IH) auto
    moreover have "uvmalloc_loop fuel root (pg ?i) (pg i) newsz xperm s1 =
        uvmalloc_loop f root (pg (i + Suc k)) (pg i) newsz xperm s3"
      using a lt pg_Suc [of ?i] unfolding f(1) by (simp del: PGSIZE_def)
    ultimately show ?thesis by simp
  next
    fix p s2 r s3 ps3 s4
    assume a: "kalloc s1 = Ret (p, s2)" "p \<noteq> 0"
      "mappages root (pg ?i) PGSIZE p ?perm (s2\<lparr>mem := memset p 0 (ucast PGSIZE) (mem s2)\<rparr>) = Ret (r, s3)"
      "r \<noteq> 0" "kfree p s3 = Ret ((), s4)" and g: "grown s1 ps1 root (D \<union> {i..<?i}) ?i 0 ?perm s4 [p]"
    have "grown s ps root D i k ?perm s4 [p]" using grown_trans [OF Suc.prems(1) g] by simp
    from undo [OF this] show ?thesis using a lt unfolding f(1) by (auto simp del: PGSIZE_def)
  qed
qed

lemma uvmalloc_ok:
  assumes us: "uspace s ps root D" and le: "oldsz \<le> newsz" "newsz \<le> MAXVA"
    and new: "D \<inter> {npg oldsz..<npg newsz} = {}" and z: "\<forall>j\<in>{npg oldsz..<npg newsz}. upte s root j = 0"
    and perm: "perm_ok (PTE_R OR PTE_U OR xperm)"
  shows "\<exists>r s' ps'. uvmalloc root oldsz newsz xperm s = Ret (r, s') \<and>
     (r = newsz \<and> grown s ps root D (npg oldsz) (npg newsz - npg oldsz) (PTE_R OR PTE_U OR xperm) s' ps' \<or>
      r = 0 \<and> grown s ps root D (npg oldsz) 0 (PTE_R OR PTE_U OR xperm) s' ps')"
proof -
  have mono: "npg oldsz \<le> npg newsz" using le(1) by (simp add: npg_def word_le_nat_alt div_le_mono)
  have r: "PGROUNDUP oldsz = pg (npg oldsz)" using PGROUNDUP_pg [of oldsz] le by auto
  have up: "npg newsz \<le> 67108864" using PGROUNDUP_pg [OF le(2)] by simp
  have b: "unat newsz \<le> 4096 * npg newsz" "4096 * npg newsz < unat newsz + 4096"
    "npg newsz \<le> unat newsz div 4096 + 1" by (auto simp: npg_def)
  have "uvmalloc root oldsz newsz xperm s =
      uvmalloc_loop (unat newsz div 4096 + 2) root (pg (npg oldsz + 0)) (pg (npg oldsz)) newsz xperm s"
    using le(1) by (simp add: uvmalloc_def Let_def r not_less [symmetric])
  moreover have eq: "npg oldsz + 0 + (npg newsz - npg oldsz) = npg newsz" using mono by simp
  moreover have lt: "npg newsz - npg oldsz < unat newsz div 4096 + 2" using b(3) by simp
  ultimately show ?thesis
    using uvmalloc_loop_ok [OF grown_0 [OF us] eq up new z perm b(1) lt b(2)] by (simp only: add_0)
qed

section \<open>Releasing the tables\<close>

text \<open>The pages that \<open>freewalk\<close> has still to release when \<open>k\<close> entries are left.\<close>

definition sub_ms :: "memory \<Rightarrow> nat \<Rightarrow> u64 \<Rightarrow> nat \<Rightarrow> u64 multiset" where
  "sub_ms m d pt i = (case d of 0 \<Rightarrow> {#} | Suc l \<Rightarrow> child (pt_ms m l) {#} (ent m pt i))"

definition pt_from :: "memory \<Rightarrow> nat \<Rightarrow> nat \<Rightarrow> u64 \<Rightarrow> u64 multiset" where
  "pt_from m d k pt = add_mset pt (\<Sum>i\<in>{512 - k..<512}. sub_ms m d pt i)"

text \<open>Nothing is mapped any more: entries of the last level are invalid, the others point to tables.\<close>

primrec pt_clear :: "memory \<Rightarrow> nat \<Rightarrow> u64 \<Rightarrow> bool" where
  "pt_clear m 0 pt \<longleftrightarrow> (\<forall>i<512. ent m pt i AND PTE_V = 0)"
| "pt_clear m (Suc l) pt \<longleftrightarrow> (\<forall>i<512. ent m pt i AND PTE_V \<noteq> 0 \<longrightarrow>
     ent m pt i AND (PTE_R OR PTE_W OR PTE_X) = 0 \<and> pt_clear m l (PTE2PA (ent m pt i)))"

lemma pt_from_all: "pt_from m d 512 pt = pt_ms m d pt"
  by (cases d) (simp_all add: pt_from_def sub_ms_def atLeast0LessThan)

lemma pt_from_Suc:
  assumes "k < 512"
  shows "pt_from m d (Suc k) pt = pt_from m d k pt + sub_ms m d pt (512 - Suc k)"
proof -
  have "{512 - Suc k..<512} = insert (512 - Suc k) {512 - k..<512}" "512 - Suc k \<notin> {512 - k..<512}"
    using assms by auto
  then show ?thesis by (simp only: pt_from_def sum.insert finite_atLeastLessThan) simp
qed

lemma pt_clear_frame:
  assumes "\<forall>q\<in>#pt_ms m l pt. page_eq m m' q" and "pt_clear m l pt"
  shows "pt_clear m' l pt"
  using assms
proof (induction l arbitrary: pt)
  case 0
  then show ?case using page_eq_ent by simp
next
  case (Suc l)
  have e: "ent m' pt i = ent m pt i" if "i < 512" for i
    using Suc.prems(1) that by (intro page_eq_ent) simp_all
  have "pt_clear m' l (PTE2PA (ent m pt i))" if i: "i < 512" "ent m pt i AND PTE_V \<noteq> 0" for i
  proof (rule Suc.IH)
    show "pt_clear m l (PTE2PA (ent m pt i))" using Suc.prems(2) i by simp
    have "child (pt_ms m l) {#} (ent m pt i) = pt_ms m l (PTE2PA (ent m pt i))" using i(2) by (simp add: child_def)
    then show "\<forall>q\<in>#pt_ms m l (PTE2PA (ent m pt i)). page_eq m m' q"
      using child_in_pt_ms [OF i(1)] Suc.prems(1) by metis
  qed
  then show ?case using e Suc.prems(2) by simp
qed

definition entry_clear :: "memory \<Rightarrow> nat \<Rightarrow> u64 \<Rightarrow> bool" where
  "entry_clear m d e \<longleftrightarrow> (case d of 0 \<Rightarrow> e AND PTE_V = 0
     | Suc l \<Rightarrow> e AND PTE_V \<noteq> 0 \<longrightarrow> e AND (PTE_R OR PTE_W OR PTE_X) = 0 \<and> pt_clear m l (PTE2PA e))"

lemma pt_clear_entries: "pt_clear m d pt \<longleftrightarrow> (\<forall>i<512. entry_clear m d (ent m pt i))"
  by (cases d) (simp_all add: entry_clear_def)

lemma entry_frame:
  assumes "ent m' pt j = ent m pt j" and "\<forall>q\<in>#sub_ms m d pt j. page_eq m m' q"
  shows "sub_ms m' d pt j = sub_ms m d pt j"
    and "entry_clear m d (ent m pt j) \<Longrightarrow> entry_clear m' d (ent m' pt j)"
proof -
  show "sub_ms m' d pt j = sub_ms m d pt j"
    using assms pt_frame(1) [of m _ "PTE2PA (ent m pt j)" m'] by (auto simp: sub_ms_def child_def split: nat.splits)
  show "entry_clear m' d (ent m' pt j)" if "entry_clear m d (ent m pt j)"
    using assms that pt_clear_frame [of m _ "PTE2PA (ent m pt j)" m']
    by (auto simp: sub_ms_def child_def entry_clear_def split: nat.splits)
qed

text \<open>Releasing a multiset of pages: they all go to the free list and nothing else changes.\<close>

definition released :: "'s kmem_scheme \<Rightarrow> u64 list \<Rightarrow> u64 multiset \<Rightarrow> 's kmem_scheme \<Rightarrow> u64 list \<Rightarrow> bool" where
  "released s ps M s' ps' \<longleftrightarrow> kmem_wf s' ps' \<and> kmem_frame s s' \<and> mset ps' = mset ps + M \<and>
     (\<forall>q. page_aligned q \<longrightarrow> q \<notin># M \<longrightarrow> page_eq (mem s) (mem s') q)"

definition owned :: "'s kmem_scheme \<Rightarrow> u64 list \<Rightarrow> u64 multiset \<Rightarrow> bool" where
  "owned s ps M \<longleftrightarrow> mdistinct M \<and> (\<forall>p\<in>#M. page_ok s p \<and> p \<notin> set ps)"

lemma owned_union:
  "owned s ps (A + B) \<longleftrightarrow> owned s ps A \<and> owned s ps B \<and> set_mset A \<inter> set_mset B = {}"
  by (auto simp: owned_def mdistinct_union)

lemma released_trans:
  "released s ps A s1 ps1 \<Longrightarrow> released s1 ps1 B s2 ps2 \<Longrightarrow> released s ps (A + B) s2 ps2"
  unfolding released_def by (auto intro: kmem_frame_trans page_eq_trans)

lemma released_owned:
  assumes "released s ps A s1 ps1" and "owned s ps (A + B)"
  shows "owned s1 ps1 B"
proof -
  have "mset ps1 = mset ps + A" "kmem_frame s s1" using assms(1) by (auto simp: released_def)
  moreover from this(1) have "set ps1 = set ps \<union> set_mset A" by (metis set_mset_mset set_mset_union)
  ultimately show ?thesis
    using assms(2) by (auto simp: owned_def mdistinct_union kmem_frame_page_ok)
qed

lemma kfree_released:
  assumes "kmem_wf s ps" and "owned s ps {#p#}"
  shows "\<exists>s' ps'. kfree p s = Ret ((), s') \<and> released s ps {#p#} s' ps'"
proof -
  from kfree_ok [of s ps p] assms obtain s' where "kfree p s = Ret ((), s')" "kmem_wf s' (p # ps)" "kmem_frame s s'"
      "\<forall>q. page_aligned q \<longrightarrow> q \<noteq> p \<longrightarrow> page_eq (mem s) (mem s') q" by (auto simp: owned_def)
  then have "released s ps {#p#} s' (p # ps)" by (simp add: released_def)
  then show ?thesis using \<open>kfree p s = Ret ((), s')\<close> by blast
qed

lemma freewalk_step_keep:
  assumes "ent (mem s) pt (512 - Suc k) AND PTE_V = 0" and "k < 512"
  shows "freewalk_loop d (Suc k) pt s = freewalk_loop d k pt s"
    and "pt_from (mem s) d (Suc k) pt = pt_from (mem s) d k pt"
proof -
  have "ld64 (mem s) (pt + 8 * of_nat (512 - Suc k)) = ent (mem s) pt (512 - Suc k)" by (simp add: ent_def)
  then show "freewalk_loop d (Suc k) pt s = freewalk_loop d k pt s"
    using assms by (simp add: freewalk_loop.simps(2) Let_def)
  show "pt_from (mem s) d (Suc k) pt = pt_from (mem s) d k pt"
    using assms by (simp add: pt_from_Suc sub_ms_def child_def split: nat.split)
qed

lemma freewalk_step_child:
  assumes wf: "kmem_wf s ps" and k: "k < 512" and own: "owned s ps (pt_from (mem s) (Suc l) (Suc k) pt)"
    and v: "ent (mem s) pt (512 - Suc k) AND PTE_V \<noteq> 0"
    and clr: "\<forall>i\<in>{512 - Suc k..<512}. entry_clear (mem s) (Suc l) (ent (mem s) pt i)"
    and s1: "freewalk_loop l 512 (PTE2PA (ent (mem s) pt (512 - Suc k))) s = Ret ((), s1)"
      "released s ps (sub_ms (mem s) (Suc l) pt (512 - Suc k)) s1 ps1"
  shows "\<exists>s2. freewalk_loop (Suc l) (Suc k) pt s = freewalk_loop (Suc l) k pt s2 \<and> kmem_wf s2 ps1 \<and>
     kmem_frame s1 s2 \<and> pt_from (mem s2) (Suc l) k pt = pt_from (mem s) (Suc l) k pt \<and>
     (\<forall>i\<in>{512 - k..<512}. entry_clear (mem s2) (Suc l) (ent (mem s2) pt i)) \<and>
     (\<forall>q. page_aligned q \<longrightarrow> q \<noteq> pt \<longrightarrow> page_eq (mem s1) (mem s2) q)"
proof -
  let ?i = "512 - Suc k"
  have i: "?i < 512" by simp
  define s2 where "s2 = s1\<lparr>mem := st64 (mem s1) (pt + of_nat (8 * ?i)) 0\<rparr>"
  have "ld64 (mem s) (pt + 8 * of_nat ?i) = ent (mem s) pt ?i" by (simp add: ent_def)
  moreover have "entry_clear (mem s) (Suc l) (ent (mem s) pt ?i)" using clr k by simp
  ultimately have run: "freewalk_loop (Suc l) (Suc k) pt s = freewalk_loop (Suc l) k pt s2"
    using v s1(1) by (simp add: freewalk_loop.simps(2) entry_clear_def s2_def Let_def)
  let ?A = "sub_ms (mem s) (Suc l) pt ?i" and ?B = "pt_from (mem s) (Suc l) k pt"
  have dis: "set_mset ?A \<inter> set_mset ?B = {}" and okB: "owned s ps ?B"
    using own unfolding pt_from_Suc [OF k] owned_union by auto
  have rel: "page_eq (mem s) (mem s1) q" if "page_aligned q" "q \<notin># ?A" for q
    using s1(2) that by (auto simp: released_def)
  have ptB: "pt \<in># ?B" by (simp add: pt_from_def)
  then have pt: "page_aligned pt" "pt \<notin># ?A" using dis okB by (auto simp: owned_def page_ok_def)
  have eq12: "page_eq (mem s1) (mem s2) q" if "page_aligned q" "q \<noteq> pt" for q
    using page_eq_st64 [OF pt(1) that(1) _ i] that(2) by (simp add: s2_def)
  have ents: "ent (mem s2) pt j = ent (mem s) pt j" if "j \<in> {512 - k..<512}" for j
  proof -
    have "ent (mem s2) pt j = ent (mem s1) pt j"
      using ent_st64_other [OF i, of j "mem s1" pt 0] that k by (auto simp: s2_def)
    then show ?thesis using page_eq_ent [OF rel [OF pt], of j] that by simp
  qed
  have subB: "sub_ms (mem s) (Suc l) pt j \<subseteq># ?B - {#pt#}" if "j \<in> {512 - k..<512}" for j
    using that by (simp add: pt_from_def sum.remove)
  have "mdistinct ?B" using okB by (simp add: owned_def)
  then have "pt \<notin># ?B - {#pt#}" by (simp add: pt_from_def mdistinct_add)
  then have kids: "\<forall>q\<in>#sub_ms (mem s) (Suc l) pt j. page_eq (mem s) (mem s2) q" if "j \<in> {512 - k..<512}" for j
  proof -
    have "page_aligned q \<and> q \<noteq> pt \<and> q \<notin># ?A" if "q \<in># sub_ms (mem s) (Suc l) pt j" for q
    proof -
      have "q \<in># ?B - {#pt#}" using subB [OF \<open>j \<in> {512 - k..<512}\<close>] that by (rule mset_subset_eqD)
      then have "q \<noteq> pt" "q \<in># ?B" using \<open>pt \<notin># ?B - {#pt#}\<close> by (auto dest: in_diffD)
      then show ?thesis using dis okB by (auto simp: owned_def page_ok_def)
    qed
    then show ?thesis using page_eq_trans [OF rel eq12] by blast
  qed
  note ef = entry_frame [OF ents kids]
  have "pt_from (mem s2) (Suc l) k pt = ?B"
    unfolding pt_from_def using ef(1) by (metis (no_types, lifting) sum.cong)
  moreover have "\<forall>i\<in>{512 - k..<512}. entry_clear (mem s2) (Suc l) (ent (mem s2) pt i)"
  proof
    fix i assume "i \<in> {512 - k..<512}"
    then show "entry_clear (mem s2) (Suc l) (ent (mem s2) pt i)" using clr by (intro ef(2)) auto
  qed
  moreover have "kmem_wf s2 ps1"
  proof -
    have k1: "kmem_wf s1 ps1" using s1(2) by (simp add: released_def)
    have "owned s1 ps1 ?B"
      using own by (intro released_owned [OF s1(2)]) (simp add: pt_from_Suc [OF k] ac_simps)
    then have "pt \<notin> set ps1" using ptB by (auto simp: owned_def)
    then show ?thesis using eq12 k1 by (intro kmem_wf_frame [OF k1]) (auto simp: s2_def kmem_wf_def page_ok_def)
  qed
  moreover have "kmem_frame s1 s2" by (simp add: s2_def)
  ultimately show ?thesis using run eq12 by blast
qed

lemma freewalk_loop_ok:
  assumes "kmem_wf s ps" and "k \<le> 512" and "owned s ps (pt_from (mem s) d k pt)"
    and "\<forall>i\<in>{512 - k..<512}. entry_clear (mem s) d (ent (mem s) pt i)"
  shows "\<exists>s' ps'. freewalk_loop d k pt s = Ret ((), s') \<and> released s ps (pt_from (mem s) d k pt) s' ps'"
  using assms
proof (induction d arbitrary: k pt s ps rule: less_induct)
  case (less d)
  note outer = less.IH
  from less.prems show ?case
  proof (induction k arbitrary: s ps)
    case 0
    then show ?case using kfree_released [of s ps pt] by (simp add: pt_from_def freewalk_loop.simps)
  next
    case (Suc k)
    have k: "k < 512" using Suc.prems(2) by simp
    show ?case
    proof (cases "ent (mem s) pt (512 - Suc k) AND PTE_V = 0")
      case True
      note keep = freewalk_step_keep [OF True k]
      have "{512 - k..<512} \<subseteq> {512 - Suc k..<512}" by auto
      then show ?thesis using Suc.IH [of s ps] Suc.prems unfolding keep by auto
    next
      case False
      have clr: "entry_clear (mem s) d (ent (mem s) pt (512 - Suc k))" using Suc.prems(4) k by simp
      then obtain l where d: "d = Suc l" using False by (cases d) (auto simp: entry_clear_def)
      let ?c = "PTE2PA (ent (mem s) pt (512 - Suc k))"
      let ?A = "sub_ms (mem s) d pt (512 - Suc k)" and ?B = "pt_from (mem s) d k pt"
      have A: "?A = pt_ms (mem s) l ?c" using False d by (simp add: sub_ms_def child_def)
      have own: "owned s ps (?A + ?B)" using Suc.prems(3) by (simp add: pt_from_Suc [OF k] ac_simps)
      then have "owned s ps (pt_from (mem s) l 512 ?c)" unfolding pt_from_all A [symmetric] owned_union by blast
      moreover have "\<forall>i\<in>{512 - 512..<512}. entry_clear (mem s) l (ent (mem s) ?c i)"
        using clr False d by (simp add: entry_clear_def [of _ "Suc l"] pt_clear_entries)
      ultimately obtain s1 ps1 where s1: "freewalk_loop l 512 ?c s = Ret ((), s1)" "released s ps ?A s1 ps1"
        using outer [of l s ps 512 ?c] Suc.prems(1) d unfolding pt_from_all A [symmetric] by auto
      from freewalk_step_child [OF Suc.prems(1) k, of l pt s1 ps1] Suc.prems(3,4) False s1 d obtain s2 where
        s2: "freewalk_loop d (Suc k) pt s = freewalk_loop d k pt s2" "kmem_wf s2 ps1" "kmem_frame s1 s2"
          "pt_from (mem s2) d k pt = ?B" "\<forall>i\<in>{512 - k..<512}. entry_clear (mem s2) d (ent (mem s2) pt i)"
          "\<forall>q. page_aligned q \<longrightarrow> q \<noteq> pt \<longrightarrow> page_eq (mem s1) (mem s2) q" by blast
      have "owned s2 ps1 ?B"
        using released_owned [OF s1(2) own] s2(3) by (simp add: owned_def kmem_frame_page_ok)
      then obtain s' ps' where r: "freewalk_loop d k pt s2 = Ret ((), s')" "released s2 ps1 ?B s' ps'"
        using Suc.IH [OF s2(2)] k s2(4,5) by (auto simp: less_imp_le)
      have "released s1 ps1 ?B s' ps'"
        using r(2) s2(3,6) by (auto simp: released_def pt_from_def intro: kmem_frame_trans page_eq_trans)
      from released_trans [OF s1(2) this] show ?thesis
        using s2(1) r(1) by (auto simp: pt_from_Suc [OF k] ac_simps)
    qed
  qed
qed

lemma freewalk_ok:
  assumes "kmem_wf s ps" and "pt_wf s ps 2 root" and "pt_clear (mem s) 2 root"
  shows "\<exists>s' ps'. freewalk root s = Ret ((), s') \<and> released s ps (pt_ms (mem s) 2 root) s' ps'"
  using freewalk_loop_ok [of s ps 512 2 root] assms
  by (simp add: freewalk_def pt_from_all owned_def pt_wf_def pt_clear_entries)

text \<open>A tree without valid translations is clear: every path of indices is the path of some address.\<close>

lemma pt_walk_cong: "\<forall>k\<le>l. px k va = px k va' \<Longrightarrow> pt_walk m l pt va = pt_walk m l pt va'"
  by (induction l arbitrary: pt) (simp_all add: Let_def)

lemma digit_lower:
  "x mod (C * (512 * E)) + i * (C * (512 * E)) = y \<Longrightarrow> 0 < C \<Longrightarrow> y div C mod 512 = x div C mod (512 :: nat)"
proof -
  assume y: "x mod (C * (512 * E)) + i * (C * (512 * E)) = y" and C: "0 < C"
  have "x mod (C * (512 * E)) = C * (x div C mod (512 * E)) + x mod C" by (rule mod_mult2_eq)
  then have "y = x mod C + C * (x div C mod (512 * E) + 512 * (i * E))"
    unfolding y [symmetric] by (simp add: algebra_simps)
  then have "y div C = x div C mod (512 * E) + 512 * (i * E)" using C by simp
  then show ?thesis by (simp add: mod_mod_cancel)
qed

lemma px_override:
  assumes "Suc l \<le> 2" and "i < 512"
  shows "\<exists>va'. px (Suc l) va' = i \<and> (\<forall>k\<le>l. px k va' = px k va)"
proof -
  define B :: nat where "B = 2 ^ (12 + 9 * Suc l)"
  let ?x = "unat va"
  have B: "B \<le> 2 ^ 30" unfolding B_def using assms(1) by (intro power_increasing) auto
  moreover have "?x mod B < B" by (simp add: B_def)
  moreover have "i * B \<le> 511 * 2 ^ 30" using assms(2) B by (intro mult_mono) auto
  ultimately have "?x mod B + i * B < 2 ^ 64" by simp
  then have u: "unat (of_nat (?x mod B + i * B) :: u64) = ?x mod B + i * B" by (rule unat_of_nat_u64)
  have "px (Suc l) (of_nat (?x mod B + i * B)) = i"
    unfolding px_nat u B_def [symmetric] using assms(2) by (simp add: B_def)
  moreover have "px k (of_nat (?x mod B + i * B)) = px k va" if "k \<le> l" for k
  proof -
    have "12 + 9 * Suc l = (12 + 9 * k) + (9 + 9 * (l - k))" using that by simp
    then have "B = 2 ^ (12 + 9 * k) * (512 * 2 ^ (9 * (l - k)))" unfolding B_def by (simp only: power_add) simp
    then show ?thesis unfolding px_nat u by (intro digit_lower) auto
  qed
  ultimately show ?thesis by blast
qed

lemma pt_clear_no_translation:
  assumes "pt_tables m l pt" and "l \<le> 2" and "\<forall>va. pte_at m l pt va AND PTE_V = 0"
  shows "pt_clear m l pt"
  using assms
proof (induction l arbitrary: pt)
  case 0
  have "ent m pt i AND PTE_V = 0" if "i < 512" for i
  proof -
    have "px 0 (pg i) = i" using that pg_facts(3) [of i] by (simp add: px_nat)
    then have "pte_at m 0 pt (pg i) = ent m pt i" by (simp add: pte_at_def ent_def)
    then show ?thesis using 0(3) by metis
  qed
  then show ?case by simp
next
  case (Suc l)
  have "ent m pt i AND (PTE_R OR PTE_W OR PTE_X) = 0 \<and> pt_clear m l (PTE2PA (ent m pt i))"
    if i: "i < 512" "ent m pt i AND PTE_V \<noteq> 0" for i
  proof
    show "ent m pt i AND (PTE_R OR PTE_W OR PTE_X) = 0" using Suc.prems(1) i by (auto simp: child_def)
    have "pte_at m l (PTE2PA (ent m pt i)) va AND PTE_V = 0" for va
    proof -
      from px_override [OF Suc.prems(2) i(1)] obtain va' where
        va': "px (Suc l) va' = i" "\<forall>k\<le>l. px k va' = px k va" by blast
      have "pte_at m (Suc l) pt va' = pte_at m l (PTE2PA (ent m pt i)) va"
        using va'(1) i(2) pt_walk_cong [OF va'(2)] by (simp add: pte_at_Suc child_def) (simp add: pte_at_def)
      then show ?thesis using Suc.prems(3) by metis
    qed
    then show "pt_clear m l (PTE2PA (ent m pt i))"
      using Suc.prems(1,2) i by (intro Suc.IH) (auto simp: child_def)
  qed
  then show ?case by simp
qed

section \<open>Releasing a whole address space\<close>

lemma uvmfree_ok:
  assumes us: "uspace s ps root {..<npg sz}" and sz: "sz \<le> MAXVA" and tb: "pt_tables (mem s) 2 root"
    and out: "\<forall>j < 134217728. npg sz \<le> j \<longrightarrow> upte s root j AND PTE_V = 0"
  shows "\<exists>s' ps'. uvmfree root sz s = Ret ((), s') \<and> kmem_wf s' ps' \<and> kmem_frame s s' \<and>
     mset ps' = mset ps + pt_ms (mem s) 2 root + image_mset (upage s root) (mset [0..<npg sz])"
proof -
  note r = PGROUNDUP_pg [OF sz]
  have "\<exists>s1. (if sz > 0 then uvmunmap root 0 (PGROUNDUP sz div PGSIZE) True else kret ()) s = Ret ((), s1) \<and>
      unmap_result s ps root {..<npg sz} 0 (npg sz) s1"
  proof (cases "sz = 0")
    case True
    then show ?thesis using us by (auto simp: npg_def unmap_result_def)
  next
    case False
    have "unat (of_nat (npg sz) :: u64) = npg sz" using r by (intro unat_of_nat_u64) simp
    then have "PGROUNDUP sz div PGSIZE = of_nat (npg sz)"
      using r pg_facts(3) [of "npg sz"] by (simp add: word_unat_eq_iff unat_div)
    then show ?thesis
      using uvmunmap_ok [OF us, of 0 "npg sz"] r False
      by (auto simp: pg_def word_neq_0_conv atLeast0LessThan)
  qed
  then obtain s1 where s1: "(if sz > 0 then uvmunmap root 0 (PGROUNDUP sz div PGSIZE) True else kret ()) s = Ret ((), s1)"
      and u: "unmap_result s ps root {..<npg sz} 0 (npg sz) s1" by blast
  let ?ps1 = "rev (map (upage s root) [0..<npg sz]) @ ps"
  from u have us1: "uspace s1 ?ps1 root ({..<npg sz} - {0..<0 + npg sz})" and fr: "kmem_frame s s1"
    and ms: "pt_ms (mem s1) 2 root = pt_ms (mem s) 2 root" and tb1: "pt_tables (mem s1) 2 root"
    and up: "\<And>j. j < 134217728 \<Longrightarrow> upte s1 root j = (if j < npg sz then 0 else upte s root j)"
    using tb unfolding unmap_result_def by simp_all
  have "pte_at (mem s1) 2 root va AND PTE_V = 0" for va
    using pte_of_upte [of s1 root va] up [OF vpn_less, of va] out vpn_less [of va]
    by (auto simp: pte_of_def not_less)
  then have "pt_clear (mem s1) 2 root" using tb1 by (intro pt_clear_no_translation) auto
  then obtain s2 ps2 where s2: "freewalk root s1 = Ret ((), s2)" "released s1 ?ps1 (pt_ms (mem s1) 2 root) s2 ps2"
    using freewalk_ok [of s1 ?ps1 root] us1 by (auto simp: uspace_def as_wf_def)
  have "uvmfree root sz s = Ret ((), s2)" using s1 s2(1) by (simp add: uvmfree_def del: PGSIZE_def)
  then show ?thesis using s2(2) fr ms by (auto simp: released_def ac_simps intro: kmem_frame_trans)
qed

end
