(* ===== verification/Vm_Copy.thy ===== *)
theory Vm_Copy
  imports Vm_User
begin

text \<open>
  Copying between the kernel and user memory: \<open>copyout\<close>, \<open>copyin\<close> and \<open>copyinstr\<close> see user memory
  as the bytes of the mapped pages, page after page.
\<close>

section \<open>User memory as bytes\<close>

definition ubyte :: "'s kmem_scheme \<Rightarrow> u64 \<Rightarrow> nat \<Rightarrow> u8" where
  "ubyte s root a = mem s (upage s root (a div 4096) + of_nat (a mod 4096))"

definition readable :: "u64 \<Rightarrow> bool" where
  "readable e \<longleftrightarrow> e AND PTE_V \<noteq> 0 \<and> e AND PTE_U \<noteq> 0"

definition writable :: "u64 \<Rightarrow> bool" where
  "writable e \<longleftrightarrow> e AND PTE_V \<noteq> 0 \<and> e AND PTE_U \<noteq> 0 \<and> e AND PTE_W \<noteq> 0"

lemma page_split:
  assumes "va < MAXVA"
  shows "PGROUNDDOWN va = pg (unat va div 4096)" and "unat va div 4096 < 67108864"
    and "va - PGROUNDDOWN va = of_nat (unat va mod 4096)" and "page_room va = 4096 - unat va mod 4096"
    and "PGROUNDDOWN va + PGSIZE = pg (Suc (unat va div 4096))" and "PGROUNDDOWN va < MAXVA"
proof -
  have lt: "unat va < 274877906944" using assms by (simp add: word_less_nat_alt)
  then show j: "unat va div 4096 < 67108864" by simp
  have "unat (pg (unat va div 4096)) = unat va div 4096 * 4096" using j pg_facts(3) by simp
  then show p: "PGROUNDDOWN va = pg (unat va div 4096)" by (simp add: word_unat_eq_iff unat_PGROUNDDOWN)
  have "va = pg (unat va div 4096) + of_nat (unat va mod 4096)"
    unfolding pg_def by (metis mult_div_mod_eq of_nat_add of_nat_unat ucast_id)
  then show d: "va - PGROUNDDOWN va = of_nat (unat va mod 4096)" unfolding p by (metis add_diff_cancel_left')
  have "unat (of_nat (unat va mod 4096) :: u64) = unat va mod 4096"
    by (rule unat_of_nat_u64) (rule order_less_trans [OF mod_less_divisor], simp_all)
  then show "page_room va = 4096 - unat va mod 4096" unfolding page_room_def d by simp
  show "PGROUNDDOWN va + PGSIZE = pg (Suc (unat va div 4096))" unfolding p by (rule pg_Suc)
  show "PGROUNDDOWN va < MAXVA" unfolding p using j by (rule pg_MAXVA)
qed

lemma PGROUNDDOWN_MAXVA: "MAXVA \<le> va \<Longrightarrow> MAXVA \<le> PGROUNDDOWN va"
  by (simp add: word_le_nat_alt unat_PGROUNDDOWN)

text \<open>What the walk to a page finds.\<close>

lemma walk_upte:
  assumes "as_wf s ps root" and "j < 67108864"
  shows "\<exists>a. walk root (pg j) False s = Ret (a, s) \<and>
    (a = 0 \<and> upte s root j = 0 \<or> a \<noteq> 0 \<and> ld64 (mem s) a = upte s root j)"
proof (cases "pt_walk (mem s) 2 root (pg j)")
  case None
  then show ?thesis using walk_noalloc [OF pg_MAXVA [OF assms(2)], of root s] pte_of_walk(1) by (auto simp: upte_def)
next
  case (Some a)
  then show ?thesis
    using walk_noalloc [OF pg_MAXVA [OF assms(2)], of root s] pte_of_walk(2) [OF Some] walk_some_nonzero [OF assms(1) Some]
    by (auto simp: upte_def)
qed

section \<open>copyout\<close>

lemma copyout_step:
  assumes wf: "as_wf s ps root" and va: "va < MAXVA" and ne: "src \<noteq> []"
  defines "j \<equiv> unat va div 4096" and "off \<equiv> unat va mod 4096"
  shows "copyout root va src s =
    (if \<not> writable (upte s root j) then Ret (-1, s)
     else let n = min (4096 - off) (length src) in
       copyout root (pg (Suc j)) (drop n src)
         (s\<lparr>mem := mem_store (mem s) (upage s root j + of_nat off) (take n src)\<rparr>))"
proof -
  note ps = page_split [OF va, folded j_def off_def]
  from walk_upte [OF wf ps(2)] obtain a where a: "walk root (pg j) False s = Ret (a, s)"
    "a = 0 \<and> upte s root j = 0 \<or> a \<noteq> 0 \<and> ld64 (mem s) a = upte s root j" by blast
  have "\<not> MAXVA \<le> pg j" using ps(1,6) by simp
  then show ?thesis
    using ne a ps(1,3,4) pg_Suc [of j]
    by (subst copyout.simps) (auto simp: Let_def writable_def upage_def simp del: MAXVA_def PGSIZE_def)
qed

lemma copyout_high: "MAXVA \<le> va \<Longrightarrow> src \<noteq> [] \<Longrightarrow> copyout root va src s = Ret (-1, s)"
  using PGROUNDDOWN_MAXVA [of va] by (subst copyout.simps) (simp add: Let_def del: MAXVA_def)

text \<open>A store into one user page.\<close>

lemma ubyte_page: "k < 4096 \<Longrightarrow> ubyte s root (4096 * j + k) = mem s (upage s root j + of_nat k)"
  by (simp add: ubyte_def)

lemma store_user:
  assumes us: "uspace s ps root D" and j: "j \<in> D" and le: "off + length bs \<le> 4096"
    and s': "s' = s\<lparr>mem := mem_store (mem s) (upage s root j + of_nat off) bs\<rparr>"
  shows "uspace s' ps root D" and "upte s' root i = upte s root i"
    and "a div 4096 \<in> D \<Longrightarrow> ubyte s' root a =
      (if 4096 * j + off \<le> a \<and> a < 4096 * j + off + length bs then bs ! (a - (4096 * j + off)) else ubyte s root a)"
    and "page_aligned q \<Longrightarrow> q \<noteq> upage s root j \<Longrightarrow> page_eq (mem s) (mem s') q"
proof -
  note uj = uspaceD [OF us j]
  have wf: "kmem_wf s ps" "pt_wf s ps 2 root" using us by (auto simp: uspace_def as_wf_def)
  have eq: "page_eq (mem s) (mem s') q" if "page_aligned q" "q \<noteq> upage s root j" for q
    unfolding s' using page_eq_store [OF uj(4) that(1) _ le] that(2) by auto
  then show "page_aligned q \<Longrightarrow> q \<noteq> upage s root j \<Longrightarrow> page_eq (mem s) (mem s') q" .
  have k: "kmem_wf s' ps" unfolding s' by (rule kmem_wf_store_other [OF wf(1) uj(4,5) le])
  have fr: "kmem_frame s s'" by (simp add: s')
  have tree: "\<forall>q\<in>#pt_ms (mem s) 2 root. page_eq (mem s) (mem s') q"
    using eq uj(6) wf(2) by (auto simp: pt_wf_def page_ok_def)
  note f = uspace_frame [OF us fr k subset_refl tree]
  show "uspace s' ps root D" and u: "upte s' root i = upte s root i" for i by (rule f(1), rule f(3))
  then have up: "upage s' root i = upage s root i" for i by (simp add: upage_def)
  define i where "i = a div 4096"
  define k where "k = a mod 4096"
  have a: "a = 4096 * i + k" "k < 4096" by (simp_all add: i_def k_def)
  assume "a div 4096 \<in> D"
  then have iD: "i \<in> D" by (simp add: i_def)
  have st: "ubyte s' root a = mem_store (mem s) (upage s root j + of_nat off) bs (upage s root i + of_nat k)"
    unfolding a(1) ubyte_page [OF a(2)] up by (simp add: s')
  have old: "ubyte s root a = mem s (upage s root i + of_nat k)" unfolding a(1) by (rule ubyte_page [OF a(2)])
  show "ubyte s' root a =
      (if 4096 * j + off \<le> a \<and> a < 4096 * j + off + length bs then bs ! (a - (4096 * j + off)) else ubyte s root a)"
  proof (cases "i = j")
    case False
    then have "upage s root i \<noteq> upage s root j" using us iD j by (auto simp: uspace_def inj_on_def)
    then have "ubyte s' root a = ubyte s root a"
      unfolding st old using page_offset_diff [OF uspaceD(4) [OF us iD] uj(4) _ a(2) le] by (intro mem_store_out)
    moreover have "\<not> (4096 * j + off \<le> a \<and> a < 4096 * j + off + length bs)" using False le a by auto
    ultimately show ?thesis by (simp only: if_False)
  next
    case True
    show ?thesis
    proof (cases "off \<le> k \<and> k < off + length bs")
      case in_range: True
      have "mem_store (mem s) (upage s root j + of_nat off) bs (upage s root j + of_nat off + of_nat (k - off)) = bs ! (k - off)"
        using in_range le by (intro mem_store_in) auto
      then show ?thesis using in_range True a unfolding st by (simp add: add.assoc flip: of_nat_add)
    next
      case out: False
      then have "ubyte s' root a = ubyte s root a"
        unfolding st old True using a(2) le by (intro mem_store_out same_page_offset_diff) auto
      then show ?thesis using out True a by auto
    qed
  qed
qed

text \<open>
  The outcome of copying \<open>src\<close> to the user address \<open>va\<close>: the first \<open>n\<close> bytes have been written,
  where \<open>n\<close> is the whole length exactly when the call succeeds, and otherwise the place of the
  first byte that is not user-writable.
\<close>

definition copied ::
    "'s kmem_scheme \<Rightarrow> u64 list \<Rightarrow> u64 \<Rightarrow> nat set \<Rightarrow> nat \<Rightarrow> u8 list \<Rightarrow> nat \<Rightarrow> int \<Rightarrow> 's kmem_scheme \<Rightarrow> bool" where
  "copied s ps root D va src n r s' \<longleftrightarrow>
     uspace s' ps root D \<and> kmem_frame s s' \<and> (\<forall>i. upte s' root i = upte s root i) \<and>
     (\<forall>a. va \<le> a \<and> a < va + n \<longrightarrow> a < unat MAXVA \<and> writable (upte s root (a div 4096))) \<and>
     (if r = 0 then n = length src
      else r = -1 \<and> n < length src \<and> (unat MAXVA \<le> va + n \<or> \<not> writable (upte s root ((va + n) div 4096)))) \<and>
     (\<forall>a. a div 4096 \<in> D \<longrightarrow> ubyte s' root a = (if va \<le> a \<and> a < va + n then src ! (a - va) else ubyte s root a)) \<and>
     (\<forall>q. page_aligned q \<longrightarrow> q \<notin> upage s root ` D \<longrightarrow> page_eq (mem s) (mem s') q)"

lemma copied_stop:
  "uspace s ps root D \<Longrightarrow> src \<noteq> [] \<Longrightarrow> unat MAXVA \<le> va \<or> \<not> writable (upte s root (va div 4096)) \<Longrightarrow>
   copied s ps root D va src 0 (-1) s"
  unfolding copied_def by auto

lemma splice_chunk:
  assumes b1: "b1 = (if va \<le> a \<and> a < va + m then take m src ! (a - va) else b0)"
    and b2: "b2 = (if w \<le> a \<and> a < w + n then drop m src ! (a - w) else b1)"
    and m: "m \<le> length src" "va + m \<le> w" and nx: "n = 0 \<or> va + m = (w :: nat)"
  shows "b2 = (if va \<le> a \<and> a < va + (m + n) then src ! (a - va) else b0)"
proof (cases "w \<le> a \<and> a < w + n")
  case True
  then have "va + m = w" using nx by auto
  then have "va \<le> a \<and> a < va + (m + n)" "a - va = m + (a - w)" using True by auto
  then show ?thesis unfolding b2 using True m(1) by simp
next
  case False
  have "va \<le> a \<and> a < va + (m + n) \<longleftrightarrow> va \<le> a \<and> a < va + m" using False nx m(2) by auto
  moreover have "take m src ! (a - va) = src ! (a - va)" if "va \<le> a \<and> a < va + m"
    using that by (intro nth_take) auto
  ultimately show ?thesis unfolding b2 b1 using False by (simp only: if_False split: if_split) blast
qed

lemma copied_chunk:
  assumes us: "uspace s ps root D" and w: "writable (upte s root j)" and j: "j \<in> D"
    and va: "va = 4096 * j + off" "off < 4096" and m: "m = min (4096 - off) (length src)"
    and s1: "s1 = s\<lparr>mem := mem_store (mem s) (upage s root j + of_nat off) (take m src)\<rparr>"
    and c: "copied s1 ps root D (4096 * Suc j) (drop m src) n r s2"
  shows "copied s ps root D va src (m + n) r s2"
proof -
  have len: "length (take m src) = m" "off + length (take m src) \<le> 4096" using va(2) m by auto
  note st = store_user [OF us j len(2) s1, unfolded len(1)]
  have up: "upage s1 root = upage s root" using st(2) by (auto simp: upage_def)
  have nl: "n \<le> length src - m" using c by (auto simp: copied_def split: if_splits)
  have nx: "length src = m \<and> n = 0 \<or> va + m = 4096 * Suc j" using nl va m by auto
  have jl: "j < 67108864" using uspaceD(1) [OF us j] .
  show ?thesis
    unfolding copied_def
  proof (intro conjI allI impI)
    show "uspace s2 ps root D" "kmem_frame s s2" "\<And>i. upte s2 root i = upte s root i"
      using c st(2) kmem_frame_trans [of s s1 s2] by (auto simp: copied_def s1)
    fix a
    show "a < unat MAXVA" "writable (upte s root (a div 4096))" if "va \<le> a \<and> a < va + (m + n)"
    proof -
      have "a div 4096 = j \<or> 4096 * Suc j \<le> a \<and> a < 4096 * Suc j + n" using that nx va m by auto
      then show "a < unat MAXVA" "writable (upte s root (a div 4096))"
        using c w jl by (auto simp: copied_def st(2))
    qed
  next
    show "if r = 0 then m + n = length src
      else r = -1 \<and> m + n < length src \<and>
        (unat MAXVA \<le> va + (m + n) \<or> \<not> writable (upte s root ((va + (m + n)) div 4096)))"
    proof (cases "r = 0")
      case True
      then have "n = length src - m" using c by (simp add: copied_def)
      then show ?thesis using True m by simp
    next
      case False
      then have f: "r = -1" "n < length src - m"
          "unat MAXVA \<le> 4096 * Suc j + n \<or> \<not> writable (upte s root ((4096 * Suc j + n) div 4096))"
        using c by (simp_all add: copied_def st(2))
      have e: "va + (m + n) = 4096 * Suc j + n" and l: "m + n < length src" using nx f(2) by auto
      show ?thesis unfolding e using False f(1,3) l by (simp only: if_False simp_thms)
    qed
  next
    fix a assume a: "a div 4096 \<in> D"
    show "ubyte s2 root a = (if va \<le> a \<and> a < va + (m + n) then src ! (a - va) else ubyte s root a)"
    proof -
      have 1: "ubyte s1 root a = (if va \<le> a \<and> a < va + m then take m src ! (a - va) else ubyte s root a)"
        using st(3) [OF a] by (simp only: va(1))
      have 2: "ubyte s2 root a = (if 4096 * Suc j \<le> a \<and> a < 4096 * Suc j + n
          then drop m src ! (a - 4096 * Suc j) else ubyte s1 root a)"
        using c a by (simp add: copied_def)
      have "m \<le> length src" "va + m \<le> 4096 * Suc j" using va m by auto
      then show ?thesis using nx by (intro splice_chunk [OF 1 2]) auto
    qed
  next
    fix q assume "page_aligned q" "q \<notin> upage s root ` D"
    then show "page_eq (mem s) (mem s2) q"
      using c st(4) [of q] j page_eq_trans unfolding copied_def up by blast
  qed
qed

lemma copyout_ok:
  assumes "uspace s ps root D" and "\<forall>j < 67108864. writable (upte s root j) \<longrightarrow> j \<in> D"
  shows "\<exists>r n s'. copyout root va src s = Ret (r, s') \<and> copied s ps root D (unat va) src n r s'"
  using assms
proof (induction "length src" arbitrary: va src s rule: less_induct)
  case less
  note us = less.prems(1)
  have wf: "as_wf s ps root" using us by (simp add: uspace_def)
  consider "src = []" | "src \<noteq> []" "MAXVA \<le> va" | "src \<noteq> []" "va < MAXVA" by fastforce
  then show ?case
  proof cases
    case 1
    have "copied s ps root D (unat va) [] 0 0 s" using us unfolding copied_def by auto
    then show ?thesis using 1 by (subst copyout.simps) auto
  next
    case 2
    then have "unat MAXVA \<le> unat va" by (simp add: word_le_nat_alt)
    then show ?thesis using copyout_high [OF 2(2,1)] copied_stop [OF us 2(1)] by blast
  next
    case 3
    define j where "j = unat va div 4096"
    define off where "off = unat va mod 4096"
    define m where "m = min (4096 - off) (length src)"
    have va: "unat va = 4096 * j + off" "off < 4096" by (simp_all add: j_def off_def)
    have j: "j < 67108864" using page_split(2) [OF 3(2)] by (simp add: j_def)
    note step = copyout_step [OF wf 3(2,1), folded j_def off_def]
    show ?thesis
    proof (cases "writable (upte s root j)")
      case False
      then show ?thesis using step copied_stop [OF us 3(1), of "unat va"] by (auto simp: j_def)
    next
      case True
      then have jD: "j \<in> D" using less.prems(2) j by blast
      define s1 where "s1 = s\<lparr>mem := mem_store (mem s) (upage s root j + of_nat off) (take m src)\<rparr>"
      have "off + length (take m src) \<le> 4096" using va(2) by (simp add: m_def)
      note st = store_user [OF us jD this s1_def]
      have run: "copyout root va src s = copyout root (pg (Suc j)) (drop m src) s1"
        using step True by (simp add: m_def s1_def Let_def)
      have "length (drop m src) < length src" using va(2) 3(1) by (simp add: m_def)
      then obtain r n s2 where r: "copyout root (pg (Suc j)) (drop m src) s1 = Ret (r, s2)"
          "copied s1 ps root D (unat (pg (Suc j))) (drop m src) n r s2"
        using less.hyps [of "drop m src" s1] st(1,2) less.prems(2) by metis
      have "unat (pg (Suc j)) = 4096 * Suc j" using j by (intro pg_facts) simp
      then have "copied s ps root D (unat va) src (m + n) r s2"
        using r(2) by (intro copied_chunk [OF us True jD va m_def s1_def]) simp
      then show ?thesis using run r(1) by auto
    qed
  qed
qed

section \<open>copyin\<close>

lemma walkaddr_upte:
  assumes "as_wf s ps root" and "j < 67108864"
  shows "walkaddr root (pg j) s = Ret (if readable (upte s root j) then upage s root j else 0, s)"
proof -
  from walk_upte [OF assms] obtain a where a: "walk root (pg j) False s = Ret (a, s)"
    "a = 0 \<and> upte s root j = 0 \<or> a \<noteq> 0 \<and> ld64 (mem s) a = upte s root j" by blast
  have "\<not> MAXVA \<le> pg j" using pg_MAXVA [OF assms(2)] by simp
  then show ?thesis using a by (auto simp: walkaddr_def readable_def upage_def simp del: MAXVA_def)
qed

lemma walkaddr_high: "MAXVA \<le> va \<Longrightarrow> walkaddr root va s = Ret (0, s)"
  by (simp add: walkaddr_def)

lemma ubytes_chunk:
  assumes "off + n \<le> 4096"
  shows "mem_bytes (mem s) (upage s root j + of_nat off) n = map (ubyte s root) [4096 * j + off..<4096 * j + off + n]"
proof (rule nth_equalityI)
  fix i assume "i < length (mem_bytes (mem s) (upage s root j + of_nat off) n)"
  then have "i < n" by simp
  then show "mem_bytes (mem s) (upage s root j + of_nat off) n ! i =
      map (ubyte s root) [4096 * j + off..<4096 * j + off + n] ! i"
    using ubyte_page [of "off + i" s root j] assms by (simp add: add.assoc)
qed simp

lemma copyin_step:
  assumes wf: "as_wf s ps root" and va: "va < MAXVA" and len: "len \<noteq> 0"
    and nz: "readable (upte s root (unat va div 4096)) \<longrightarrow> upage s root (unat va div 4096) \<noteq> 0"
  shows "copyin root va len s =
    (if \<not> readable (upte s root (unat va div 4096)) then Ret ((-1, []), s)
     else let m = min (4096 - unat va mod 4096) len in
       kbind (copyin root (pg (Suc (unat va div 4096))) (len - m))
         (\<lambda>(r, rest). kret (r, map (ubyte s root) [unat va..<unat va + m] @ rest)) s)"
proof -
  define j where "j = unat va div 4096"
  define off where "off = unat va mod 4096"
  define m where "m = min (4096 - off) len"
  have va4: "unat va = 4096 * j + off" "off < 4096" by (simp_all add: j_def off_def)
  note ps = page_split [OF va, folded j_def off_def]
  note wa = walkaddr_upte [OF wf ps(2)]
  have bytes: "mem_bytes (mem s) (upage s root j + of_nat off) m = map (ubyte s root) [unat va..<unat va + m]"
    unfolding va4(1) using va4(2) by (intro ubytes_chunk) (simp add: m_def)
  have "copyin root va len s = (if \<not> readable (upte s root j) then Ret ((-1, []), s)
     else kbind (copyin root (pg (Suc j)) (len - m))
         (\<lambda>(r, rest). kret (r, map (ubyte s root) [unat va..<unat va + m] @ rest)) s)"
    using len wa ps(1,3,4,5) nz [folded j_def] bytes pg_Suc [of j] unfolding m_def
    by (subst copyin.simps) (simp add: Let_def del: PGSIZE_def)
  then show ?thesis by (simp add: Let_def j_def m_def off_def)
qed

lemma upt_chunk: "[a..<a + m] @ [a + m..<a + m + n] = [a..<a + (m + n)]"
  by (metis add.assoc le_add1 upt_add_eq_append)

lemma range_chunk:
  assumes chunk: "\<And>a. va \<le> a \<Longrightarrow> a < va + m \<Longrightarrow> P a" and rest: "\<forall>a. w \<le> a \<and> a < w + n \<longrightarrow> P a"
    and nx: "n = 0 \<or> va + m = (w :: nat)"
  shows "\<forall>a. va \<le> a \<and> a < va + (m + n) \<longrightarrow> P a"
proof (intro allI impI)
  fix a assume "va \<le> a \<and> a < va + (m + n)"
  then show "P a" using chunk [of a] rest nx by (cases "a < va + m") auto
qed

text \<open>
  \<open>copyin\<close> returns the bytes of user memory up to the first that is not user-readable, and
  succeeds exactly when that is all of them.
\<close>

definition fetched :: "'s kmem_scheme \<Rightarrow> u64 \<Rightarrow> nat \<Rightarrow> nat \<Rightarrow> int \<Rightarrow> nat \<Rightarrow> bool" where
  "fetched s root va len r n \<longleftrightarrow>
     (\<forall>a. va \<le> a \<and> a < va + n \<longrightarrow> a < unat MAXVA \<and> readable (upte s root (a div 4096))) \<and>
     (if r = 0 then n = len
      else r = -1 \<and> n < len \<and> (unat MAXVA \<le> va + n \<or> \<not> readable (upte s root ((va + n) div 4096))))"

lemma fetched_chunk:
  assumes rd: "readable (upte s root j)" and j: "j < 67108864" and va: "va = 4096 * j + off" "off < 4096"
    and m: "m = min (4096 - off) len" and f: "fetched s root (4096 * Suc j) (len - m) r n"
  shows "fetched s root va len r (m + n)" and "n = 0 \<or> va + m = 4096 * Suc j"
proof -
  have nl: "n \<le> len - m" using f by (auto simp: fetched_def split: if_splits)
  then have nx: "n = 0 \<and> len = m \<or> va + m = 4096 * Suc j" using va by (auto simp: m)
  then show "n = 0 \<or> va + m = 4096 * Suc j" by blast
  have chunk: "a < unat MAXVA \<and> readable (upte s root (a div 4096))" if "va \<le> a" "a < va + m" for a
  proof -
    have "a div 4096 = j" using that va m by auto
    then show ?thesis using rd j by auto
  qed
  have "if r = 0 then m + n = len else r = -1 \<and> m + n < len \<and>
      (unat MAXVA \<le> va + (m + n) \<or> \<not> readable (upte s root ((va + (m + n)) div 4096)))"
  proof (cases "r = 0")
    case True
    then show ?thesis using f m by (simp add: fetched_def)
  next
    case False
    then have g: "r = -1" "n < len - m" "unat MAXVA \<le> 4096 * Suc j + n \<or> \<not> readable (upte s root ((4096 * Suc j + n) div 4096))"
      using f by (simp_all add: fetched_def)
    have e: "va + (m + n) = 4096 * Suc j + n" and l: "m + n < len" using nx g(2) by auto
    show ?thesis unfolding e using False g(1,3) l by (simp only: if_False simp_thms)
  qed
  moreover have "\<forall>a. va \<le> a \<and> a < va + (m + n) \<longrightarrow> a < unat MAXVA \<and> readable (upte s root (a div 4096))"
    using f nx by (intro range_chunk [where w = "4096 * Suc j"] chunk) (auto simp: fetched_def)
  ultimately show "fetched s root va len r (m + n)" unfolding fetched_def by blast
qed

lemma copyin_ok:
  assumes wf: "as_wf s ps root" and nz: "\<forall>j < 67108864. readable (upte s root j) \<longrightarrow> upage s root j \<noteq> 0"
  shows "\<exists>r n. copyin root va len s = Ret ((r, map (ubyte s root) [unat va..<unat va + n]), s) \<and>
     fetched s root (unat va) len r n"
proof (induction len arbitrary: va rule: less_induct)
  case (less len)
  consider "len = 0" | "len \<noteq> 0" "MAXVA \<le> va" | "len \<noteq> 0" "va < MAXVA" by fastforce
  then show ?case
  proof cases
    case 1
    then show ?thesis by (subst copyin.simps) (auto simp: fetched_def)
  next
    case 2
    then have "fetched s root (unat va) len (-1) 0" unfolding fetched_def word_le_nat_alt by auto
    moreover have "copyin root va len s = Ret ((-1, []), s)"
      using walkaddr_high [OF PGROUNDDOWN_MAXVA [OF 2(2)], of root s] 2(1)
      by (subst copyin.simps) (simp add: Let_def)
    ultimately show ?thesis by (intro exI [of _ "-1"] exI [of _ 0]) simp
  next
    case 3
    let ?j = "unat va div 4096" and ?m = "min (4096 - unat va mod 4096) len"
    have j: "?j < 67108864" by (rule page_split(2) [OF 3(2)])
    note step = copyin_step [OF wf 3(2,1)]
    show ?thesis
    proof (cases "readable (upte s root ?j)")
      case False
      have "fetched s root (unat va) len (-1) 0" using False 3(1) unfolding fetched_def by auto
      then show ?thesis using step False by (intro exI [of _ "-1"] exI [of _ 0]) simp
    next
      case True
      have va: "unat va = 4096 * ?j + unat va mod 4096" "unat va mod 4096 < 4096" by simp_all
      have lt: "len - ?m < len" using 3(1) va(2) by auto
      have nv: "unat (pg (Suc ?j)) = 4096 * Suc ?j" using j by (intro pg_facts) simp
      from less.IH [OF lt, of "pg (Suc ?j)"] obtain r n where
        r: "copyin root (pg (Suc ?j)) (len - ?m) s = Ret ((r, map (ubyte s root) [4096 * Suc ?j..<4096 * Suc ?j + n]), s)"
          "fetched s root (4096 * Suc ?j) (len - ?m) r n" unfolding nv by blast
      note fc = fetched_chunk [OF True j va refl r(2)]
      have "[unat va..<unat va + ?m] @ [4096 * Suc ?j..<4096 * Suc ?j + n] = [unat va..<unat va + (?m + n)]"
        using fc(2) upt_chunk [of "unat va" ?m n] by (elim disjE) simp_all
      then have "copyin root va len s = Ret ((r, map (ubyte s root) [unat va..<unat va + (?m + n)]), s)"
        using step True nz j r(1) by (simp add: Let_def flip: map_append)
      then show ?thesis using fc(1) by blast
    qed
  qed
qed

end
