(* ===== verification/Vm_Props.thy ===== *)
theory Vm_Props
  imports Vm_Copy
begin

text \<open>
  The properties of \<^verbatim>\<open>kernel/vm.c\<close>, and a small concrete machine state (one address space with one
  user page, one free page) on which they are instantiated.
\<close>

section \<open>A concrete address space\<close>

text \<open>Root, middle and last table, user page and free page, at the top of memory.\<close>

definition demo_mem :: memory where
  "demo_mem =
     st64 (st64 (st64 (\<lambda>_. 0) 0x87fff000 (PA2PTE 0x87ffe000 OR PTE_V)) 0x87ffe000 (PA2PTE 0x87ffd000 OR PTE_V))
       0x87ffd000 (PA2PTE 0x87ffc000 OR (PTE_R OR PTE_W OR PTE_U) OR PTE_V)"

definition demo :: kmem where
  "demo = \<lparr>mem = demo_mem, kend = 0x80020000, freelist = 0x87ffb000\<rparr>"

lemma st64_ent:
  assumes "page_aligned p" and "page_aligned q" and "i < 512"
  shows "ent (st64 m q v) p i = (if p = q \<and> i = 0 then v else ent m p i)"
proof (cases "p = q")
  case True
  then show ?thesis using ent_st64_same [of m q 0 v] ent_st64_other [of 0 i m q v] assms(3) by auto
next
  case False
  then show ?thesis using page_eq_ent [OF page_eq_st64 [of q p 0 m v], of i] assms by auto
qed

lemma demo_ent:
  assumes "i < 512"
  shows "ent demo_mem 0x87fff000 i = (if i = 0 then PA2PTE 0x87ffe000 OR PTE_V else 0)"
    and "ent demo_mem 0x87ffe000 i = (if i = 0 then PA2PTE 0x87ffd000 OR PTE_V else 0)"
    and "ent demo_mem 0x87ffd000 i =
      (if i = 0 then PA2PTE 0x87ffc000 OR (PTE_R OR PTE_W OR PTE_U) OR PTE_V else 0)"
proof -
  have al: "page_aligned 0x87fff000" "page_aligned 0x87ffe000" "page_aligned 0x87ffd000"
    by (simp_all add: page_aligned_def)
  have z: "ent (\<lambda>_. 0) p i = 0" for p by (simp add: ent_def)
  note st = st64_ent [OF al(1) _ assms] st64_ent [OF al(2) _ assms] st64_ent [OF al(3) _ assms]
  show "ent demo_mem 0x87fff000 i = (if i = 0 then PA2PTE 0x87ffe000 OR PTE_V else 0)"
    and "ent demo_mem 0x87ffe000 i = (if i = 0 then PA2PTE 0x87ffd000 OR PTE_V else 0)"
    and "ent demo_mem 0x87ffd000 i =
      (if i = 0 then PA2PTE 0x87ffc000 OR (PTE_R OR PTE_W OR PTE_U) OR PTE_V else 0)"
    unfolding demo_mem_def using st(1) [OF al(1)] st(1) [OF al(2)] st(1) [OF al(3)] st(2) [OF al(1)] st(2) [OF al(2)]
      st(2) [OF al(3)] st(3) [OF al(1)] st(3) [OF al(2)] st(3) [OF al(3)] z by simp_all
qed

lemma sum_one:
  assumes "\<And>i. i < 512 \<Longrightarrow> g i = (if i = 0 then e else 0)"
  shows "(\<Sum>i<(512::nat). child f {#} (g i)) = child f {#} e"
proof -
  have "(\<Sum>i<(512::nat). child f {#} (g i)) = (\<Sum>i<(512::nat). if i = 0 then child f {#} e else {#})"
    using assms by (intro sum.cong refl) (simp add: child_def)
  then show ?thesis by simp
qed

lemma demo_pt: "pt_ms demo_mem 2 0x87fff000 = {#0x87fff000, 0x87ffe000, 0x87ffd000#}"
proof -
  have c: "PTE2PA (PA2PTE 0x87ffe000 OR PTE_V) = 0x87ffe000" "PTE2PA (PA2PTE 0x87ffd000 OR PTE_V) = 0x87ffd000"
    by (rule PTE2PA_table, simp add: page_aligned_def)+
  have v: "(PA2PTE p OR PTE_V) AND PTE_V \<noteq> 0" for p using PTE_V_or by simp
  have sum1: "(\<Sum>i<512. child f {#} (ent demo_mem 0x87ffe000 i)) = child f {#} (PA2PTE 0x87ffd000 OR PTE_V)"
    "(\<Sum>i<512. child f {#} (ent demo_mem 0x87fff000 i)) = child f {#} (PA2PTE 0x87ffe000 OR PTE_V)"
    for f :: "u64 \<Rightarrow> u64 multiset"
    by (rule sum_one, erule demo_ent)+
  have l1: "pt_ms demo_mem (Suc 0) 0x87ffe000 = {#0x87ffe000, 0x87ffd000#}"
    unfolding pt_ms.simps(2) sum1(1) using v c by (simp add: child_def)
  show ?thesis
    unfolding numeral_2_eq_2 pt_ms.simps(2) [of _ "Suc 0"] sum1(2) using v c l1
    by (simp add: child_def del: pt_ms.simps)
qed

lemma demo_upte:
  "upte demo 0x87fff000 0 = PA2PTE 0x87ffc000 OR (PTE_R OR PTE_W OR PTE_U) OR PTE_V"
  "0 < j \<Longrightarrow> j < 134217728 \<Longrightarrow> upte demo 0x87fff000 j = 0"
proof -
  have c: "PTE2PA (PA2PTE 0x87ffe000 OR PTE_V) = 0x87ffe000" "PTE2PA (PA2PTE 0x87ffd000 OR PTE_V) = 0x87ffd000"
    by (rule PTE2PA_table, simp add: page_aligned_def)+
  have v: "(PA2PTE p OR PTE_V) AND PTE_V \<noteq> 0" for p using PTE_V_or by simp
  have "pte_at demo_mem 0 0x87ffd000 va = ent demo_mem 0x87ffd000 (px 0 va)" for va
    by (simp add: pte_at_def ent_def)
  then have "pte_at demo_mem (Suc 0) 0x87ffe000 va =
      (if px (Suc 0) va = 0 then ent demo_mem 0x87ffd000 (px 0 va) else 0)" for va
    unfolding pte_at_Suc demo_ent(2) [OF px_less] using v c by (simp add: child_def)
  then have "pte_at demo_mem 2 0x87fff000 va = (if px 2 va = 0 \<and> px 1 va = 0 then ent demo_mem 0x87ffd000 (px 0 va) else 0)" for va
    unfolding numeral_2_eq_2 One_nat_def pte_at_Suc [of _ "Suc 0"] demo_ent(1) [OF px_less] using v c
    by (simp add: child_def)
  then have u: "upte demo 0x87fff000 i =
      (if px 2 (pg i) = 0 \<and> px 1 (pg i) = 0 then ent demo_mem 0x87ffd000 (px 0 (pg i)) else 0)" for i
    by (simp add: upte_def pte_of_def demo_def)
  have "px k (pg 0) = 0" for k by (simp add: px_nat pg_def)
  then show "upte demo 0x87fff000 0 = PA2PTE 0x87ffc000 OR (PTE_R OR PTE_W OR PTE_U) OR PTE_V"
    unfolding u using demo_ent(3) [of 0] by simp
  assume j: "0 < j" "j < 134217728"
  then have "px 0 (pg j) \<noteq> 0 \<or> px 1 (pg j) \<noteq> 0 \<or> px 2 (pg j) \<noteq> 0"
    using pg_facts(1) [of j] vpn_px [of "pg j"] by auto
  then show "upte demo 0x87fff000 j = 0" unfolding u using demo_ent(3) [OF px_less, of 0 "pg j"] by auto
qed

lemma demo_upage: "upage demo 0x87fff000 0 = 0x87ffc000"
  unfolding upage_def demo_upte(1)
  by (rule perm_pte(2)) (simp_all add: perm_ok_def page_aligned_def)

lemma demo_uspace: "uspace demo [0x87ffb000] 0x87fff000 {0}"
proof -
  have "ld64 demo_mem 0x87ffb000 = 0"
  proof -
    have "ent demo_mem 0x87ffb000 0 = 0"
      unfolding demo_mem_def by (simp add: st64_ent page_aligned_def) (simp add: ent_def)
    then show ?thesis by (simp add: ent_def)
  qed
  then have k: "kmem_wf demo [0x87ffb000]"
    by (simp add: kmem_wf_def page_ok_def page_aligned_def demo_def)
  have "pt_wf demo [0x87ffb000] 2 0x87fff000"
    by (simp add: pt_wf_def demo_def demo_pt mdistinct_add page_ok_def page_aligned_def) (simp add: mdistinct_def)
  moreover have "leaf (upte demo 0x87fff000 0)"
    unfolding demo_upte(1) by (rule perm_pte(1)) (simp_all add: perm_ok_def page_aligned_def)
  ultimately show ?thesis
    using k by (simp add: uspace_def as_wf_def demo_upage page_ok_def page_aligned_def)
      (simp add: demo_def demo_pt)
qed

lemma demo_tables: "pt_tables (mem demo) 2 0x87fff000"
proof -
  have c: "PTE2PA (PA2PTE 0x87ffe000 OR PTE_V) = 0x87ffe000"
    by (rule PTE2PA_table, simp add: page_aligned_def)
  show ?thesis
    unfolding numeral_2_eq_2 demo_def using PA2PTE_low c by (simp add: demo_ent child_def)
qed

section \<open>Reading back what was written\<close>

lemma copied_then_copyin:
  assumes c: "copied s ps root D (unat va) src n 0 s'" and rd: "\<forall>j < 67108864. readable (upte s root j) \<longrightarrow> j \<in> D"
  shows "copyin root va (length src) s' = Ret ((0, src), s')"
proof -
  have us: "uspace s' ps root D" and up: "\<And>i. upte s' root i = upte s root i" and n: "n = length src"
    using c by (simp_all add: copied_def)
  have rng: "a < unat MAXVA" "readable (upte s root (a div 4096))" "a div 4096 \<in> D"
    if "unat va \<le> a" "a < unat va + length src" for a
  proof -
    show a: "a < unat MAXVA" and r: "readable (upte s root (a div 4096))"
      using c that n unfolding copied_def readable_def writable_def by auto
    show "a div 4096 \<in> D" using rd r a by auto
  qed
  have "as_wf s' ps root" using us by (simp add: uspace_def)
  moreover have "\<forall>j < 67108864. readable (upte s' root j) \<longrightarrow> upage s' root j \<noteq> 0"
    using rd uspaceD(3) [OF us] by (auto simp: up page_ok_def)
  ultimately obtain r k where r: "copyin root va (length src) s' = Ret ((r, map (ubyte s' root) [unat va..<unat va + k]), s')"
      and f: "fetched s' root (unat va) (length src) r k"
    using copyin_ok by blast
  have r0: "r = 0"
  proof (rule ccontr)
    assume "r \<noteq> 0"
    then have "k < length src" "unat MAXVA \<le> unat va + k \<or> \<not> readable (upte s root ((unat va + k) div 4096))"
      using f by (simp_all add: fetched_def up del: MAXVA_def)
    then show False using rng [of "unat va + k"] by auto
  qed
  then have k: "k = length src" using f by (simp add: fetched_def)
  have "map (ubyte s' root) [unat va..<unat va + k] = src"
  proof (rule nth_equalityI)
    fix i assume "i < length (map (ubyte s' root) [unat va..<unat va + k])"
    then have i: "i < length src" using k by simp
    then have "(unat va + i) div 4096 \<in> D" by (intro rng(3)) simp_all
    then have "ubyte s' root (unat va + i) = src ! i" using c i n unfolding copied_def by simp
    then show "map (ubyte s' root) [unat va..<unat va + k] ! i = src ! i" using i k by simp
  qed (simp add: k)
  then show ?thesis using r r0 by simp
qed

section \<open>Properties\<close>

text \<open>
  Property C17. \<open>mappages\<close> on a well-formed page table and an unmapped, page-aligned range below
  \<open>MAXVA\<close> never panics. When it returns 0 exactly the pages of the range are mapped, the first to
  \<open>pa\<close> and each next one to the next physical page, with the given permissions; when it returns
  -1 the allocator is empty. Every translation outside the range is unchanged, and every page
  taken from the free list has become a table page of this tree.
\<close>

theorem mappages_maps:
  assumes "as_wf s ps root" and "page_aligned va" and "sz = of_nat (4096 * n)" and "0 < n"
    and "unat va + 4096 * n \<le> unat MAXVA"
    and "\<forall>v. vpn va \<le> vpn v \<and> vpn v < vpn va + n \<longrightarrow> pte_of s root v AND PTE_V = 0"
  shows "\<exists>r s' ps' k N. mappages root va sz pa perm s = Ret (r, s') \<and> as_wf s' ps' root \<and>
     (r = 0 \<and> k = n \<or> r = -1 \<and> k < n \<and> ps' = []) \<and>
     (\<forall>v. pte_of s' root v =
        (if vpn va \<le> vpn v \<and> vpn v < vpn va + k then PA2PTE (pa + of_nat (4096 * (vpn v - vpn va))) OR perm OR PTE_V
         else pte_of s root v)) \<and>
     ps = N @ ps' \<and> pt_ms (mem s') 2 root = pt_ms (mem s) 2 root + mset N"
proof -
  from mappages_ok [OF assms] obtain r s' ps' where r: "mappages root va sz pa perm s = Ret (r, s')"
      and m: "map_result s ps root va n pa perm r s' ps'" by blast
  from m have "pt_ext s ps 2 root s' ps'" by (simp add: map_result_def)
  then obtain N where "ps = N @ ps'" "pt_ms (mem s') 2 root = pt_ms (mem s) 2 root + mset N"
    by (rule pt_extE)
  with r m show ?thesis unfolding map_result_def by blast
qed

theorem mappages_maps_witness:
  "\<exists>r s' ps' k N. mappages 0x87fff000 0x1000 (of_nat (4096 * 2)) 0x80000000 (PTE_R OR PTE_X) demo = Ret (r, s') \<and>
     as_wf s' ps' 0x87fff000 \<and> (r = 0 \<and> k = 2 \<or> r = -1 \<and> k < 2 \<and> ps' = []) \<and>
     (\<forall>v. pte_of s' 0x87fff000 v =
        (if vpn 0x1000 \<le> vpn v \<and> vpn v < vpn 0x1000 + k
         then PA2PTE (0x80000000 + of_nat (4096 * (vpn v - vpn 0x1000))) OR (PTE_R OR PTE_X) OR PTE_V
         else pte_of demo 0x87fff000 v)) \<and>
     [0x87ffb000] = N @ ps' \<and> pt_ms (mem s') 2 0x87fff000 = pt_ms (mem demo) 2 0x87fff000 + mset N"
proof (rule mappages_maps [OF _ _ refl])
  show "as_wf demo [0x87ffb000] 0x87fff000" using demo_uspace by (simp add: uspace_def)
  show "\<forall>v. vpn 0x1000 \<le> vpn v \<and> vpn v < vpn 0x1000 + 2 \<longrightarrow> pte_of demo 0x87fff000 v AND PTE_V = 0"
    by (auto simp: vpn_def [of "0x1000"] pte_of_upte demo_upte(2))
qed (simp_all add: page_aligned_def)

text \<open>
  Property C8. \<open>uvmalloc\<close> is all or nothing and accounts for every page. From an address space that
  owns its pages it returns \<open>newsz\<close>, and then each page number between the old and the new size
  has its own fresh zero-filled page with the requested permissions; or it returns 0, and then
  every translation is as before. In both cases all other pages and translations are untouched,
  and the pages that left the free list are the new user pages and new table pages, none lost.
\<close>

theorem uvmalloc_all_or_nothing:
  assumes "uspace s ps root D" and "oldsz \<le> newsz" and "newsz \<le> MAXVA"
    and "D \<inter> {npg oldsz..<npg newsz} = {}" and "\<forall>j\<in>{npg oldsz..<npg newsz}. upte s root j = 0"
    and "perm_ok (PTE_R OR PTE_U OR xperm)"
  shows "\<exists>r s' ps' k. uvmalloc root oldsz newsz xperm s = Ret (r, s') \<and>
     (r = newsz \<and> k = npg newsz - npg oldsz \<or> r = 0 \<and> k = 0) \<and>
     uspace s' ps' root (D \<union> {npg oldsz..<npg oldsz + k}) \<and>
     (\<forall>j < 134217728. j \<notin> {npg oldsz..<npg oldsz + k} \<longrightarrow> upte s' root j = upte s root j) \<and>
     (\<forall>j\<in>{npg oldsz..<npg oldsz + k}. PTE_FLAGS (upte s' root j) = PTE_R OR PTE_U OR xperm OR PTE_V \<and>
        mem_bytes (mem s') (upage s' root j) 4096 = replicate 4096 0) \<and>
     mset ps + pt_ms (mem s) 2 root =
       mset ps' + pt_ms (mem s') 2 root + image_mset (upage s' root) (mset [npg oldsz..<npg oldsz + k]) \<and>
     (\<forall>q. page_aligned q \<longrightarrow> q \<notin># pt_ms (mem s) 2 root \<longrightarrow> q \<notin> set ps \<longrightarrow> page_eq (mem s) (mem s') q)"
proof -
  from uvmalloc_ok [OF assms] obtain r s' ps' k where r: "uvmalloc root oldsz newsz xperm s = Ret (r, s')"
      "r = newsz \<and> k = npg newsz - npg oldsz \<or> r = 0 \<and> k = 0"
      and g: "grown s ps root D (npg oldsz) k (PTE_R OR PTE_U OR xperm) s' ps'" by blast
  show ?thesis using r g unfolding grown_def or.assoc by blast
qed

theorem uvmalloc_all_or_nothing_witness:
  "\<exists>r s' ps' k. uvmalloc 0x87fff000 4096 6000 PTE_W demo = Ret (r, s') \<and> (r = 6000 \<and> k = 1 \<or> r = 0 \<and> k = 0) \<and>
     uspace s' ps' 0x87fff000 ({0} \<union> {1..<1 + k})"
proof -
  have n: "npg 4096 = 1" "npg 6000 = 2" by (simp_all add: npg_def)
  have "perm_ok (PTE_R OR PTE_U OR PTE_W)" by (simp add: perm_ok_def)
  moreover have "\<forall>j\<in>{npg 4096..<npg 6000}. upte demo 0x87fff000 j = 0" using demo_upte(2) by (auto simp: n)
  ultimately obtain r s' ps' k where "uvmalloc 0x87fff000 4096 6000 PTE_W demo = Ret (r, s')"
      "r = 6000 \<and> k = npg 6000 - npg 4096 \<or> r = 0 \<and> k = 0" "uspace s' ps' 0x87fff000 ({0} \<union> {npg 4096..<npg 4096 + k})"
    using uvmalloc_all_or_nothing [OF demo_uspace, of 4096 6000 PTE_W] n by auto
  then show ?thesis unfolding n by auto
qed

text \<open>
  Property C6. \<open>uvmfree\<close> gives everything back: for an address space whose mapped pages are
  exactly those below its size it neither panics nor loops, and afterwards the free list holds
  the former free pages, all table pages of the tree and all user pages, each once.
\<close>

theorem uvmfree_returns_all:
  assumes "uspace s ps root {..<npg sz}" and "sz \<le> MAXVA" and "pt_tables (mem s) 2 root"
    and "\<forall>j < 134217728. npg sz \<le> j \<longrightarrow> upte s root j AND PTE_V = 0"
  shows "\<exists>s' ps'. uvmfree root sz s = Ret ((), s') \<and> kmem_wf s' ps' \<and>
     mset ps' = mset ps + pt_ms (mem s) 2 root + image_mset (upage s root) (mset [0..<npg sz])"
  using uvmfree_ok [OF assms] by blast

theorem uvmfree_returns_all_witness:
  "\<exists>s' ps'. uvmfree 0x87fff000 4096 demo = Ret ((), s') \<and> kmem_wf s' ps' \<and>
     mset ps' = {#0x87ffc000, 0x87ffb000, 0x87fff000, 0x87ffe000, 0x87ffd000#}"
proof -
  have n: "npg 4096 = 1" by (simp add: npg_def)
  have "uspace demo [0x87ffb000] 0x87fff000 {..<npg 4096}" using demo_uspace n by (simp add: lessThan_Suc)
  moreover have "\<forall>j < 134217728. npg 4096 \<le> j \<longrightarrow> upte demo 0x87fff000 j AND PTE_V = 0"
    using demo_upte(2) n by auto
  ultimately show ?thesis
    using uvmfree_returns_all [of demo "[0x87ffb000]" "0x87fff000" 4096] demo_tables
    by (simp add: n demo_upage) (simp add: demo_def demo_pt)
qed

text \<open>
  Property C7. Copying out and back in. For an address space that owns every page a user can
  access, \<open>copyout\<close> always returns; if it returns 0, \<open>copyin\<close> of the same range returns 0 and the
  copied bytes; if not, it returns -1 and some byte of the range is not user-writable. It
  changes no byte of user memory outside the range and no page that is not a user page.
\<close>

theorem copyout_copyin:
  assumes "uspace s ps root D" and "\<forall>j < 67108864. readable (upte s root j) \<longrightarrow> j \<in> D"
  shows "\<exists>r s'. copyout root va src s = Ret (r, s') \<and> uspace s' ps root D \<and>
     (r = 0 \<longrightarrow> copyin root va (length src) s' = Ret ((0, src), s')) \<and>
     (r \<noteq> 0 \<longrightarrow> r = -1 \<and> (\<exists>a. unat va \<le> a \<and> a < unat va + length src \<and>
        (unat MAXVA \<le> a \<or> \<not> writable (upte s root (a div 4096))))) \<and>
     (\<forall>a. a div 4096 \<in> D \<and> (a < unat va \<or> unat va + length src \<le> a) \<longrightarrow> ubyte s' root a = ubyte s root a) \<and>
     (\<forall>q. page_aligned q \<longrightarrow> q \<notin> upage s root ` D \<longrightarrow> page_eq (mem s) (mem s') q)"
proof -
  have "\<forall>j < 67108864. writable (upte s root j) \<longrightarrow> j \<in> D"
    using assms(2) by (auto simp: readable_def writable_def)
  from copyout_ok [OF assms(1) this] obtain r n s' where run: "copyout root va src s = Ret (r, s')"
    and c: "copied s ps root D (unat va) src n r s'" by blast
  have us: "uspace s' ps root D" and up: "\<And>i. upte s' root i = upte s root i" using c by (simp_all add: copied_def)
  have "copyin root va (length src) s' = Ret ((0, src), s')" if "r = 0"
    using copied_then_copyin [OF c [unfolded that] assms(2)] .
  moreover have "\<exists>a. unat va \<le> a \<and> a < unat va + length src \<and>
      (unat MAXVA \<le> a \<or> \<not> writable (upte s root (a div 4096)))" if "r \<noteq> 0"
    using c that unfolding copied_def by (intro exI [of _ "unat va + n"]) (simp del: MAXVA_def)
  moreover have "n \<le> length src" and "r \<noteq> 0 \<longrightarrow> r = -1" using c by (auto simp: copied_def split: if_splits)
  ultimately show ?thesis
    using run us c unfolding copied_def by (intro exI [of _ r] exI [of _ s']) auto
qed

theorem copyout_copyin_witness:
  "\<exists>s'. copyout 0x87fff000 100 [104, 105] demo = Ret (0, s') \<and>
     copyin 0x87fff000 100 2 s' = Ret ((0, [104, 105]), s')"
proof -
  have "\<forall>j < 67108864. readable (upte demo 0x87fff000 j) \<longrightarrow> j \<in> {0}"
  proof (intro allI impI)
    fix j :: nat assume "j < 67108864" and "readable (upte demo 0x87fff000 j)"
    then show "j \<in> {0}" using demo_upte(2) [of j] by (cases "j = 0") (auto simp: readable_def)
  qed
  from copyout_copyin [OF demo_uspace this, of 100 "[104, 105]"] obtain r s' where
    r: "copyout 0x87fff000 100 [104, 105] demo = Ret (r, s')"
      "r = 0 \<longrightarrow> copyin 0x87fff000 100 (length [104, 105 :: u8]) s' = Ret ((0, [104, 105]), s')"
      "r \<noteq> 0 \<longrightarrow> (\<exists>a. unat (100 :: u64) \<le> a \<and> a < unat (100 :: u64) + length [104, 105 :: u8] \<and>
        (unat MAXVA \<le> a \<or> \<not> writable (upte demo 0x87fff000 (a div 4096))))" by blast
  have "writable (upte demo 0x87fff000 0)" unfolding demo_upte(1) writable_def by (simp add: PA2PTE_def)
  then have "r = 0" using r(3) by auto
  then show ?thesis using r(1,2) by (simp add: numeral_2_eq_2)
qed

end
