(* ===== verification/Spinlock.thy ===== *)
theory Spinlock
  imports Xv6_Prelude
begin

text \<open>
  \<^verbatim>\<open>kernel/spinlock.c\<close> and the per-CPU state of \<^verbatim>\<open>kernel/proc.h\<close> it uses. The operations are functions
  on a CPU and a lock; \<open>sl_step\<close> interleaves, one shared-memory access at a time, any number of
  CPUs that go through \<open>acquire\<close> and \<open>release\<close> of one lock.
\<close>

section \<open>Definitions\<close>

record spinlock =
  locked :: bool
  lkname :: string
  lkcpu :: "nat option"

text \<open>\<open>struct cpu\<close>; \<open>sie\<close> is the interrupt-enable bit of \<open>sstatus\<close>, \<open>cproc\<close> a process-table index.\<close>

record cpu =
  cproc :: "nat option"
  noff :: int
  intena :: bool
  sie :: bool

definition initlock :: "string \<Rightarrow> spinlock" where
  "initlock name = \<lparr>locked = False, lkname = name, lkcpu = None\<rparr>"

definition push_off :: "cpu \<Rightarrow> cpu" where
  "push_off c =
     (let old = sie c; c = c\<lparr>sie := False\<rparr>; c = (if noff c = 0 then c\<lparr>intena := old\<rparr> else c)
      in c\<lparr>noff := noff c + 1\<rparr>)"

definition pop_off :: "cpu \<Rightarrow> cpu outcome" where
  "pop_off c =
     (if sie c then Panic ''pop_off - interruptible''
      else if noff c < 1 then Panic ''pop_off''
      else let c = c\<lparr>noff := noff c - 1\<rparr>
           in Ret (if noff c = 0 \<and> intena c then c\<lparr>sie := True\<rparr> else c))"

definition holding :: "nat \<Rightarrow> spinlock \<Rightarrow> bool" where
  "holding h lk \<longleftrightarrow> locked lk \<and> lkcpu lk = Some h"

text \<open>On one CPU with nobody else running, \<open>acquire\<close> of a lock that is taken spins for ever.\<close>

definition acquire :: "nat \<Rightarrow> spinlock \<Rightarrow> cpu \<Rightarrow> (spinlock \<times> cpu) outcome" where
  "acquire h lk c =
     (let c = push_off c in
      if holding h lk then Panic ''acquire''
      else if locked lk then Diverge
      else Ret (lk\<lparr>locked := True, lkcpu := Some h\<rparr>, c))"

definition release :: "nat \<Rightarrow> spinlock \<Rightarrow> cpu \<Rightarrow> (spinlock \<times> cpu) outcome" where
  "release h lk c =
     (if \<not> holding h lk then Panic ''release''
      else obind (pop_off c) (\<lambda>c. Ret (lk\<lparr>lkcpu := None, locked := False\<rparr>, c)))"

section \<open>Nesting of interrupt disabling\<close>

datatype offop = Push | Pop

fun run_off :: "offop list \<Rightarrow> cpu \<Rightarrow> cpu outcome" where
  "run_off [] c = Ret c"
| "run_off (Push # ops) c = run_off ops (push_off c)"
| "run_off (Pop # ops) c = obind (pop_off c) (run_off ops)"

text \<open>The nesting depth after a sequence, when no \<open>pop_off\<close> is unmatched.\<close>

fun depth :: "offop list \<Rightarrow> nat \<Rightarrow> nat option" where
  "depth [] d = Some d"
| "depth (Push # ops) d = depth ops (Suc d)"
| "depth (Pop # ops) 0 = None"
| "depth (Pop # ops) (Suc d) = depth ops d"

definition off_inv :: "bool \<Rightarrow> nat \<Rightarrow> cpu \<Rightarrow> bool" where
  "off_inv i d c \<longleftrightarrow> noff c = int d \<and> (if d = 0 then sie c = i else \<not> sie c \<and> intena c = i)"

lemma push_off_inv: "off_inv i d c \<Longrightarrow> off_inv i (Suc d) (push_off c)"
  by (auto simp: off_inv_def push_off_def Let_def split: if_splits)

lemma pop_off_inv: "off_inv i (Suc d) c \<Longrightarrow> \<exists>c'. pop_off c = Ret c' \<and> off_inv i d c'"
  by (auto simp: off_inv_def pop_off_def Let_def split: if_splits)

lemma run_off_inv:
  "off_inv i d c \<Longrightarrow> depth ops d = Some e \<Longrightarrow> \<exists>c'. run_off ops c = Ret c' \<and> off_inv i e c'"
proof (induction ops d arbitrary: c rule: depth.induct)
  case (4 ops d)
  then show ?case using pop_off_inv [of i d c] by auto
qed (auto dest: push_off_inv)

section \<open>Interleaved acquire and release\<close>

text \<open>
  Where a CPU is: outside; spinning in the test-and-set loop; past it; in the critical section;
  after clearing \<open>lk->cpu\<close>; after clearing \<open>lk->locked\<close>; or stopped by a panic.
\<close>

datatype slpc = Outside | Spinning | Won | Critical | Leaving | Unlocked | Panicked

record sl_state =
  slk :: spinlock
  scpu :: "nat \<Rightarrow> cpu"
  spc :: "nat \<Rightarrow> slpc"

inductive sl_step :: "sl_state \<Rightarrow> sl_state \<Rightarrow> bool" where
  enter: "spc s h = Outside \<Longrightarrow>
     sl_step s (s\<lparr>scpu := (scpu s)(h := push_off (scpu s h)),
                  spc := (spc s)(h := if holding h (slk s) then Panicked else Spinning)\<rparr>)"
| test_and_set: "spc s h = Spinning \<Longrightarrow>
     sl_step s (s\<lparr>slk := (slk s)\<lparr>locked := True\<rparr>,
                  spc := (spc s)(h := if locked (slk s) then Spinning else Won)\<rparr>)"
| own: "spc s h = Won \<Longrightarrow>
     sl_step s (s\<lparr>slk := (slk s)\<lparr>lkcpu := Some h\<rparr>, spc := (spc s)(h := Critical)\<rparr>)"
| disown: "spc s h = Critical \<Longrightarrow> holding h (slk s) \<Longrightarrow>
     sl_step s (s\<lparr>slk := (slk s)\<lparr>lkcpu := None\<rparr>, spc := (spc s)(h := Leaving)\<rparr>)"
| disown_panic: "spc s h = Critical \<Longrightarrow> \<not> holding h (slk s) \<Longrightarrow>
     sl_step s (s\<lparr>spc := (spc s)(h := Panicked)\<rparr>)"
| unlock: "spc s h = Leaving \<Longrightarrow>
     sl_step s (s\<lparr>slk := (slk s)\<lparr>locked := False\<rparr>, spc := (spc s)(h := Unlocked)\<rparr>)"
| leave: "spc s h = Unlocked \<Longrightarrow> pop_off (scpu s h) = Ret c \<Longrightarrow>
     sl_step s (s\<lparr>scpu := (scpu s)(h := c), spc := (spc s)(h := Outside)\<rparr>)"
| leave_panic: "spc s h = Unlocked \<Longrightarrow> pop_off (scpu s h) = Panic e \<Longrightarrow>
     sl_step s (s\<lparr>spc := (spc s)(h := Panicked)\<rparr>)"

inductive_cases sl_stepE: "sl_step s s'"

definition sl_init :: "sl_state \<Rightarrow> bool" where
  "sl_init s \<longleftrightarrow> slk s = initlock (lkname (slk s)) \<and> (\<forall>h. spc s h = Outside \<and> noff (scpu s h) = 0)"

fun owner_pc :: "slpc \<Rightarrow> bool" where
  "owner_pc Won = True"
| "owner_pc Critical = True"
| "owner_pc Leaving = True"
| "owner_pc _ = False"

text \<open>
  The lock bit is set exactly while one CPU is between winning the test-and-set and clearing it,
  the recorded CPU is the one in the critical section, and inside interrupts are off.
\<close>

definition sl_unique :: "sl_state \<Rightarrow> bool" where
  "sl_unique s \<longleftrightarrow> (\<forall>h h'. owner_pc (spc s h) \<longrightarrow> owner_pc (spc s h') \<longrightarrow> h = h')"

definition sl_bit :: "sl_state \<Rightarrow> bool" where
  "sl_bit s \<longleftrightarrow> (locked (slk s) \<longleftrightarrow> (\<exists>h. owner_pc (spc s h)))"

definition sl_owner :: "sl_state \<Rightarrow> bool" where
  "sl_owner s \<longleftrightarrow> (\<forall>h. spc s h = Critical \<longleftrightarrow> lkcpu (slk s) = Some h)"

definition sl_cpus :: "sl_state \<Rightarrow> bool" where
  "sl_cpus s \<longleftrightarrow> (\<forall>h. spc s h \<noteq> Panicked \<and>
     (if spc s h = Outside then noff (scpu s h) = 0 else noff (scpu s h) = 1 \<and> \<not> sie (scpu s h)))"

definition sl_inv :: "sl_state \<Rightarrow> bool" where
  "sl_inv s \<longleftrightarrow> sl_unique s \<and> sl_bit s \<and> sl_owner s \<and> sl_cpus s"

lemmas sl_inv_defs = sl_inv_def sl_unique_def sl_bit_def sl_owner_def sl_cpus_def

lemma sl_init_inv: "sl_init s \<Longrightarrow> sl_inv s"
proof -
  assume i: "sl_init s"
  then have "locked (slk s) = False" "lkcpu (slk s) = None"
    unfolding sl_init_def initlock_def by (metis spinlock.select_convs)+
  then show ?thesis using i by (simp add: sl_inv_defs sl_init_def)
qed

lemma pop_off_one: "noff c = 1 \<Longrightarrow> \<not> sie c \<Longrightarrow> \<exists>c'. pop_off c = Ret c' \<and> noff c' = 0"
  by (auto simp: pop_off_def Let_def)

lemma push_off_zero: "noff c = 0 \<Longrightarrow> noff (push_off c) = 1 \<and> \<not> sie (push_off c)"
  by (simp add: push_off_def Let_def)

lemma sl_holding: "sl_inv s \<Longrightarrow> holding h (slk s) \<longleftrightarrow> spc s h = Critical"
  unfolding sl_inv_defs holding_def by (metis owner_pc.simps(2))

lemma sl_step_unique: "sl_step s s' \<Longrightarrow> sl_inv s \<Longrightarrow> sl_unique s'"
  by (erule sl_stepE) (auto simp: sl_inv_def sl_unique_def sl_bit_def)

lemma ex_owner_upd:
  "owner_pc x = owner_pc (f h) \<Longrightarrow> (\<exists>k. owner_pc ((f(h := x)) k)) \<longleftrightarrow> (\<exists>k. owner_pc (f k))"
  by (metis fun_upd_apply)

lemma sl_step_bit: "sl_step s s' \<Longrightarrow> sl_inv s \<Longrightarrow> sl_bit s'"
proof (erule sl_stepE)
  fix h
  assume i: "sl_inv s" and h: "spc s h = Spinning"
    and s': "s' = s\<lparr>slk := slk s\<lparr>locked := True\<rparr>, spc := (spc s)(h := if locked (slk s) then Spinning else Won)\<rparr>"
  show "sl_bit s'"
  proof (cases "locked (slk s)")
    case True
    then show ?thesis
      using i h ex_owner_upd [of Spinning "spc s" h] by (simp add: s' sl_inv_def sl_bit_def del: fun_upd_apply)
  next
    case False
    then show ?thesis by (auto simp: s' sl_bit_def)
  qed
next
  fix h
  assume i: "sl_inv s" and h: "spc s h = Leaving"
    and s': "s' = s\<lparr>slk := slk s\<lparr>locked := False\<rparr>, spc := (spc s)(h := Unlocked)\<rparr>"
  have "\<not> owner_pc (spc s k)" if "k \<noteq> h" for k
    using i h that unfolding sl_inv_def sl_unique_def by (metis owner_pc.simps(3))
  then show "sl_bit s'" by (simp add: s' sl_bit_def)
next
  fix h
  assume "sl_inv s" "spc s h = Critical" "\<not> holding h (slk s)"
  then show "sl_bit s'" using sl_holding by blast
qed (simp_all add: sl_inv_def sl_bit_def ex_owner_upd del: fun_upd_apply)

lemma sl_step_owner: "sl_step s s' \<Longrightarrow> sl_inv s \<Longrightarrow> sl_owner s'"
proof (erule sl_stepE)
  fix h
  assume i: "sl_inv s" and h: "spc s h = Won"
    and s': "s' = s\<lparr>slk := slk s\<lparr>lkcpu := Some h\<rparr>, spc := (spc s)(h := Critical)\<rparr>"
  have "spc s k \<noteq> Critical" if "k \<noteq> h" for k
    using i h that unfolding sl_inv_def sl_unique_def by (metis owner_pc.simps(1,2))
  then show "sl_owner s'" by (auto simp: s' sl_owner_def)
next
  fix h
  assume "sl_inv s" "spc s h = Critical" "\<not> holding h (slk s)"
  then show "sl_owner s'" using sl_holding by blast
qed (auto simp: sl_inv_def sl_owner_def holding_def, (metis slpc.distinct)+)

lemma sl_step_cpus: "sl_step s s' \<Longrightarrow> sl_inv s \<Longrightarrow> sl_cpus s'"
proof (erule sl_stepE)
  fix h
  assume i: "sl_inv s" and h: "spc s h = Outside"
    and s': "s' = s\<lparr>scpu := (scpu s)(h := push_off (scpu s h)),
        spc := (spc s)(h := if holding h (slk s) then Panicked else Spinning)\<rparr>"
  have "\<not> holding h (slk s)" using i h by (simp add: sl_holding)
  then show "sl_cpus s'" using i h push_off_zero [of "scpu s h"] by (simp add: s' sl_inv_def sl_cpus_def)
next
  fix h c
  assume i: "sl_inv s" and h: "spc s h = Unlocked" "pop_off (scpu s h) = Ret c"
    and s': "s' = s\<lparr>scpu := (scpu s)(h := c), spc := (spc s)(h := Outside)\<rparr>"
  then have "noff c = 0" using pop_off_one [of "scpu s h"] by (force simp: sl_inv_def sl_cpus_def)
  then show "sl_cpus s'" using i by (simp add: s' sl_inv_def sl_cpus_def)
next
  fix h
  assume i: "sl_inv s" and h: "spc s h = Critical" "\<not> holding h (slk s)"
  then show "sl_cpus s'" by (simp add: sl_holding)
next
  fix h e
  assume i: "sl_inv s" and h: "spc s h = Unlocked" "pop_off (scpu s h) = Panic e"
  then show "sl_cpus s'" using pop_off_one [of "scpu s h"] by (force simp: sl_inv_def sl_cpus_def)
qed (simp_all add: sl_inv_def sl_cpus_def)

lemma sl_step_inv: "sl_inv s \<Longrightarrow> sl_step s s' \<Longrightarrow> sl_inv s'"
  using sl_step_unique sl_step_bit sl_step_owner sl_step_cpus unfolding sl_inv_def by blast

interpretation sl: step_invariant sl_init sl_step sl_inv
  by unfold_locales (auto intro: sl_init_inv sl_step_inv)

section \<open>Properties\<close>


definition demo_spin :: sl_state where
  "demo_spin = \<lparr>slk = initlock ''kmem'', scpu = (\<lambda>h. \<lparr>cproc = None, noff = 0, intena = False, sie = True\<rparr>),
     spc = (\<lambda>h. Outside)\<rparr>"


text \<open>
  Property C18. Interrupt disabling nests. After any sequence of \<open>push_off\<close> and \<open>pop_off\<close> in which
  no \<open>pop_off\<close> is unmatched, nothing has panicked, \<open>noff\<close> is the nesting depth, interrupts are off
  while the depth is positive, and back at depth 0 they are as they were at the start.
\<close>

theorem push_off_nests:
  assumes "noff c = 0" and "depth ops 0 = Some d"
  shows "\<exists>c'. run_off ops c = Ret c' \<and> noff c' = int d \<and> sie c' = (sie c \<and> d = 0)"
proof -
  have "off_inv (sie c) 0 c" using assms(1) by (simp add: off_inv_def)
  from run_off_inv [OF this assms(2)] show ?thesis by (auto simp: off_inv_def split: if_splits)
qed

theorem push_off_nests_witness:
  "\<exists>c'. run_off [Push, Push, Pop, Pop] \<lparr>cproc = None, noff = 0, intena = False, sie = True\<rparr> = Ret c' \<and> sie c'"
  using push_off_nests [of "\<lparr>cproc = None, noff = 0, intena = False, sie = True\<rparr>" "[Push, Push, Pop, Pop]" 0] by auto

end
