(* ===== verification/Sleep.thy ===== *)
theory Sleep
  imports Spinlock
begin

text \<open>
  \<open>sleep\<close> and \<open>wakeup\<close> of \<^verbatim>\<open>kernel/proc.c\<close> as interleaved steps, for one process that waits for a
  condition protected by a lock \<open>lk\<close> and any number of processes that make the condition true
  and call \<open>wakeup\<close>; and the sleep locks of \<^verbatim>\<open>kernel/sleeplock.c\<close>. Taking and releasing a spinlock
  is one step here (theory \<open>Spinlock\<close> justifies it).
\<close>

section \<open>The waiting protocol\<close>

datatype procstate = UNUSED | USED | SLEEPING | RUNNABLE | RUNNING | ZOMBIE

text \<open>
  The waiter runs \<open>acquire(lk); while(!cond) sleep(chan, lk); release(lk)\<close>. Its positions in
  \<open>sleep\<close>: before \<open>acquire(&p->lock)\<close>, between that and \<open>release(lk)\<close>, before the assignments,
  before \<open>sched\<close>, switched out, switched in again, before the last \<open>release(&p->lock)\<close>.
\<close>

datatype slp_pc = Want_lk | Check | In_sleep | Both_locks | Marking | To_sched | Off_cpu | Back_on | Tidy | Done

text \<open>A waker runs \<open>acquire(lk); cond = 1; wakeup(chan); release(lk)\<close>.\<close>

datatype wk_pc = W_start | W_locked | W_wakeup | W_visit | W_after | W_done

datatype agent = Sleeper | Waker nat

record sw_state =
  cond :: bool
  lk :: "agent option"
  plock :: "agent option"
  pstate :: procstate
  pchan :: "nat option"
  slp :: slp_pc
  wk :: "nat \<Rightarrow> wk_pc"

inductive sw_step :: "sw_state \<Rightarrow> sw_state \<Rightarrow> bool" where
  s_acquire: "slp s = Want_lk \<Longrightarrow> lk s = None \<Longrightarrow> sw_step s (s\<lparr>lk := Some Sleeper, slp := Check\<rparr>)"
| s_check_true: "slp s = Check \<Longrightarrow> cond s \<Longrightarrow> sw_step s (s\<lparr>lk := None, slp := Done\<rparr>)"
| s_check_false: "slp s = Check \<Longrightarrow> \<not> cond s \<Longrightarrow> sw_step s (s\<lparr>slp := In_sleep\<rparr>)"
| s_plock: "slp s = In_sleep \<Longrightarrow> plock s = None \<Longrightarrow> sw_step s (s\<lparr>plock := Some Sleeper, slp := Both_locks\<rparr>)"
| s_release: "slp s = Both_locks \<Longrightarrow> sw_step s (s\<lparr>lk := None, slp := Marking\<rparr>)"
| s_mark: "slp s = Marking \<Longrightarrow> sw_step s (s\<lparr>pchan := Some 0, pstate := SLEEPING, slp := To_sched\<rparr>)"
| s_sched: "slp s = To_sched \<Longrightarrow> sw_step s (s\<lparr>plock := None, slp := Off_cpu\<rparr>)"
| s_run: "slp s = Off_cpu \<Longrightarrow> pstate s = RUNNABLE \<Longrightarrow> plock s = None \<Longrightarrow>
     sw_step s (s\<lparr>plock := Some Sleeper, pstate := RUNNING, slp := Back_on\<rparr>)"
| s_tidy: "slp s = Back_on \<Longrightarrow> sw_step s (s\<lparr>pchan := None, slp := Tidy\<rparr>)"
| s_again: "slp s = Tidy \<Longrightarrow> sw_step s (s\<lparr>plock := None, slp := Want_lk\<rparr>)"
| w_acquire: "wk s w = W_start \<Longrightarrow> lk s = None \<Longrightarrow> sw_step s (s\<lparr>lk := Some (Waker w), wk := (wk s)(w := W_locked)\<rparr>)"
| w_cond: "wk s w = W_locked \<Longrightarrow> sw_step s (s\<lparr>cond := True, wk := (wk s)(w := W_wakeup)\<rparr>)"
| w_plock: "wk s w = W_wakeup \<Longrightarrow> plock s = None \<Longrightarrow>
     sw_step s (s\<lparr>plock := Some (Waker w), wk := (wk s)(w := W_visit)\<rparr>)"
| w_visit: "wk s w = W_visit \<Longrightarrow>
     sw_step s (s\<lparr>pstate := (if pstate s = SLEEPING \<and> pchan s = Some 0 then RUNNABLE else pstate s),
                  plock := None, wk := (wk s)(w := W_after)\<rparr>)"
| w_release: "wk s w = W_after \<Longrightarrow> sw_step s (s\<lparr>lk := None, wk := (wk s)(w := W_done)\<rparr>)"

inductive_cases sw_stepE: "sw_step s s'"

definition sw_init :: "sw_state \<Rightarrow> bool" where
  "sw_init s \<longleftrightarrow> \<not> cond s \<and> lk s = None \<and> plock s = None \<and> pstate s = RUNNING \<and> pchan s = None \<and>
     slp s = Want_lk \<and> (\<forall>w. wk s w = W_start)"

fun s_lk :: "slp_pc \<Rightarrow> bool" where
  "s_lk Check = True"
| "s_lk In_sleep = True"
| "s_lk Both_locks = True"
| "s_lk _ = False"

fun s_plock :: "slp_pc \<Rightarrow> bool" where
  "s_plock Both_locks = True"
| "s_plock Marking = True"
| "s_plock To_sched = True"
| "s_plock Back_on = True"
| "s_plock Tidy = True"
| "s_plock _ = False"

fun w_lk :: "wk_pc \<Rightarrow> bool" where
  "w_lk W_start = False"
| "w_lk W_done = False"
| "w_lk _ = True"

definition sw_lk :: "sw_state \<Rightarrow> bool" where
  "sw_lk s \<longleftrightarrow> (s_lk (slp s) \<longleftrightarrow> lk s = Some Sleeper) \<and> (\<forall>w. w_lk (wk s w) \<longleftrightarrow> lk s = Some (Waker w))"

definition sw_plock :: "sw_state \<Rightarrow> bool" where
  "sw_plock s \<longleftrightarrow>
     (s_plock (slp s) \<longleftrightarrow> plock s = Some Sleeper) \<and> (\<forall>w. wk s w = W_visit \<longleftrightarrow> plock s = Some (Waker w))"

definition sw_proc :: "sw_state \<Rightarrow> bool" where
  "sw_proc s \<longleftrightarrow>
     (pstate s = SLEEPING \<longrightarrow> slp s \<in> {To_sched, Off_cpu}) \<and>
     (slp s \<in> {To_sched, Off_cpu} \<longrightarrow> pchan s = Some 0 \<and> pstate s \<in> {SLEEPING, RUNNABLE})"

text \<open>
  The heart of the protocol: while the waiter is on its way to sleep or asleep, a condition that
  has become true is still to be announced by some waker.
\<close>

fun announcing :: "wk_pc \<Rightarrow> bool" where
  "announcing W_wakeup = True"
| "announcing W_visit = True"
| "announcing _ = False"

definition sw_pending :: "sw_state \<Rightarrow> bool" where
  "sw_pending s \<longleftrightarrow>
     (slp s = In_sleep \<or> slp s = Both_locks \<longrightarrow> \<not> cond s) \<and>
     ((slp s = Marking \<or> pstate s = SLEEPING) \<and> cond s \<longrightarrow> (\<exists>w. announcing (wk s w)))"

definition sw_inv :: "sw_state \<Rightarrow> bool" where
  "sw_inv s \<longleftrightarrow> sw_lk s \<and> sw_plock s \<and> sw_proc s \<and> sw_pending s"

lemma sw_init_inv: "sw_init s \<Longrightarrow> sw_inv s"
  by (simp add: sw_init_def sw_inv_def sw_lk_def sw_plock_def sw_proc_def sw_pending_def)

text \<open>A lock has one holder.\<close>

lemma sw_lk_unique:
  assumes "sw_lk s"
  shows "w_lk (wk s w) \<Longrightarrow> w_lk (wk s v) \<Longrightarrow> v = w" and "w_lk (wk s w) \<Longrightarrow> \<not> s_lk (slp s)"
    and "lk s = None \<Longrightarrow> \<not> w_lk (wk s w)"
  using assms unfolding sw_lk_def by auto

lemma sw_plock_unique:
  assumes "sw_plock s"
  shows "wk s w = W_visit \<Longrightarrow> wk s v = W_visit \<Longrightarrow> v = w" and "wk s w = W_visit \<Longrightarrow> \<not> s_plock (slp s)"
    and "plock s = None \<Longrightarrow> wk s w \<noteq> W_visit"
  using assms unfolding sw_plock_def by auto

lemma sw_step_lk: "sw_step s s' \<Longrightarrow> sw_lk s \<Longrightarrow> sw_lk s'"
  by (erule sw_stepE)
    (simp_all add: sw_lk_def, (metis w_lk.simps option.inject agent.inject agent.distinct(1))+)

lemma sw_step_plock: "sw_step s s' \<Longrightarrow> sw_plock s \<Longrightarrow> sw_plock s'"
  by (erule sw_stepE)
    (simp_all add: sw_plock_def, (metis wk_pc.distinct option.inject agent.inject agent.distinct(1))+)

lemma sw_step_proc: "sw_step s s' \<Longrightarrow> sw_plock s \<Longrightarrow> sw_proc s \<Longrightarrow> sw_proc s'"
  by (erule sw_stepE) (auto simp: sw_proc_def sw_plock_def)

lemma announcing_w_lk: "announcing p \<Longrightarrow> w_lk p"
  by (cases p) simp_all

lemma sw_step_pending:
  assumes "sw_step s s'" and i: "sw_inv s"
  shows "sw_pending s'"
  using assms(1)
proof cases
  case (w_acquire w)
  have "announcing (wk s v) \<Longrightarrow> announcing (wk s' v)" for v using w_acquire by auto
  then show ?thesis using i w_acquire(1) unfolding sw_inv_def sw_pending_def by fastforce
next
  case (w_cond w)
  then have "\<not> s_lk (slp s)" using i sw_lk_unique(2) [of s w] by (simp add: sw_inv_def)
  moreover have "announcing (wk s' w)" using w_cond by simp
  ultimately show ?thesis unfolding sw_pending_def w_cond(1) by (cases "slp s") auto
next
  case (w_plock w)
  have "announcing (wk s v) \<Longrightarrow> announcing (wk s' v)" for v using w_plock by auto
  then show ?thesis using i w_plock(1) unfolding sw_inv_def sw_pending_def by fastforce
next
  case (w_visit w)
  have np: "\<not> s_plock (slp s)" using i w_visit sw_plock_unique(2) [of s w] by (simp add: sw_inv_def)
  have "pstate s' \<noteq> SLEEPING" using i w_visit by (auto simp: sw_inv_def sw_proc_def)
  moreover have "slp s' \<noteq> Marking" "slp s' \<noteq> Both_locks" using np w_visit by auto
  moreover have "slp s' = In_sleep \<Longrightarrow> \<not> cond s'" using i w_visit by (simp add: sw_inv_def sw_pending_def)
  ultimately show ?thesis by (simp add: sw_pending_def)
next
  case (w_release w)
  have "\<not> announcing (wk s v)" for v
    using i w_release announcing_w_lk sw_lk_unique(1) [of s w v] by (cases "v = w") (auto simp: sw_inv_def)
  then show ?thesis using i w_release by (simp add: sw_inv_def sw_pending_def)
qed (use i in \<open>simp_all add: sw_inv_def sw_pending_def sw_proc_def\<close>)

lemma sw_step_inv: "sw_inv s \<Longrightarrow> sw_step s s' \<Longrightarrow> sw_inv s'"
  using sw_step_lk sw_step_plock sw_step_proc sw_step_pending unfolding sw_inv_def by blast

interpretation sw: step_invariant sw_init sw_step sw_inv
  by unfold_locales (auto intro: sw_init_inv sw_step_inv)

section \<open>Sleep locks\<close>

text \<open>
  \<^verbatim>\<open>kernel/sleeplock.c\<close>. The inner spinlock brackets each body, which is one step. A process that
  finds the lock taken sleeps on the lock's address \<open>c\<close>; \<open>releasesleep\<close> wakes all sleepers, which
  is the caller's next step (\<open>wakeup\<close>).
\<close>

record sleeplock =
  slocked :: bool
  slname :: string
  slpid :: int

definition initsleeplock :: "string \<Rightarrow> sleeplock" where
  "initsleeplock name = \<lparr>slocked = False, slname = name, slpid = 0\<rparr>"

definition acquiresleep :: "int \<Rightarrow> chan \<Rightarrow> sleeplock \<Rightarrow> sleeplock outcome" where
  "acquiresleep pid c l = (if slocked l then Blocked c else Ret (l\<lparr>slocked := True, slpid := pid\<rparr>))"

definition releasesleep :: "sleeplock \<Rightarrow> sleeplock" where
  "releasesleep l = l\<lparr>slocked := False, slpid := 0\<rparr>"

definition holdingsleep :: "int \<Rightarrow> sleeplock \<Rightarrow> bool" where
  "holdingsleep pid l \<longleftrightarrow> slocked l \<and> slpid l = pid"

lemma acquiresleep_holding: "acquiresleep pid c l = Ret l' \<Longrightarrow> holdingsleep p l' \<longleftrightarrow> p = pid"
  by (auto simp: acquiresleep_def holdingsleep_def split: if_splits)

lemma release_acquiresleep: "\<exists>l'. acquiresleep pid c (releasesleep l) = Ret l' \<and> holdingsleep pid l'"
  by (simp add: acquiresleep_def releasesleep_def holdingsleep_def)

lemma sw_enabled:
  "sw_step s s' \<Longrightarrow> slp s' \<noteq> slp s \<Longrightarrow> slp s = Done \<or> (\<exists>s''. sw_step s s'' \<and> slp s'' \<noteq> slp s)"
  by blast

lemma sw_progress:
  assumes i: "sw_inv s'" and c: "cond s'" and w: "\<forall>w. wk s' w = W_start \<or> wk s' w = W_done"
  shows "slp s' = Done \<or> (\<exists>s''. sw_step s' s'' \<and> slp s'' \<noteq> slp s')"
proof -
  have wl: "\<not> w_lk (wk s' w)" "wk s' w \<noteq> W_visit" for w using w by (metis w_lk.simps(1,2), metis wk_pc.distinct)
  have lk: "lk s' = None" if "\<not> s_lk (slp s')"
    using i wl(1) that unfolding sw_inv_def sw_lk_def by (metis agent.exhaust option.exhaust)
  have pl: "plock s' = None" if "\<not> s_plock (slp s')"
    using i wl(2) that unfolding sw_inv_def sw_plock_def by (metis agent.exhaust option.exhaust)
  have "\<not> announcing (wk s' w)" for w using w by (metis announcing.simps(3,6))
  then have ns: "pstate s' \<noteq> SLEEPING" using i c by (simp add: sw_inv_def sw_pending_def)
  have run: "pstate s' = RUNNABLE" if "slp s' = Off_cpu"
    using i ns that by (auto simp: sw_inv_def sw_proc_def)
  have nis: "slp s' \<noteq> In_sleep" using i c by (auto simp: sw_inv_def sw_pending_def)
  show ?thesis
  proof (cases "slp s'")
    case Want_lk
    with lk show ?thesis using sw_enabled [OF s_acquire [of s']] by simp
  next
    case Check
    with c show ?thesis using sw_enabled [OF s_check_true [of s']] by simp
  next
    case In_sleep
    with nis show ?thesis by simp
  next
    case Both_locks
    then show ?thesis using sw_enabled [OF s_release [of s']] by simp
  next
    case Marking
    then show ?thesis using sw_enabled [OF s_mark [of s']] by simp
  next
    case To_sched
    then show ?thesis using sw_enabled [OF s_sched [of s']] by simp
  next
    case Off_cpu
    with run pl show ?thesis using sw_enabled [OF s_run [of s']] by simp
  next
    case Back_on
    then show ?thesis using sw_enabled [OF s_tidy [of s']] by simp
  next
    case Tidy
    then show ?thesis using sw_enabled [OF s_again [of s']] by simp
  qed simp
qed

section \<open>Properties\<close>


definition demo_wait :: sw_state where
  "demo_wait = \<lparr>cond = False, lk = None, plock = None, pstate = RUNNING, pchan = None, slp = Want_lk, wk = (\<lambda>w. W_start)\<rparr>"


end
