(* ===== verification/Kprintf.thy ===== *)
theory Kprintf
  imports Xv6_Prelude
begin

text \<open>
  Formatted output: \<^verbatim>\<open>kernel/printf.c\<close> and its user-space twin \<^verbatim>\<open>user/printf.c\<close>. A call gives the
  characters it hands to \<open>consputc\<close> (or \<open>write\<close>s one by one), or \<open>None\<close> when it does something C
  leaves undefined: it writes past \<open>buf[16]\<close>, or takes an argument that was not passed.
\<close>

section \<open>Definitions\<close>

definition digits :: string where
  "digits = ''0123456789abcdef''"

definition udigits :: string where
  "udigits = ''0123456789ABCDEF''"

text \<open>
  The digits of \<open>x\<close>, least significant first, as the \<open>do\<close> loops produce them. The callers pass a
  base of 10 or 16; a base below 2 (a division trap, or an endless loop) does not occur.
\<close>

function digit_loop :: "string \<Rightarrow> nat \<Rightarrow> nat \<Rightarrow> string" where
  "digit_loop ds base x =
     ds ! (x mod base) # (if x div base = 0 \<or> base < 2 then [] else digit_loop ds base (x div base))"
  by pat_completeness auto
termination
proof (relation "measure (\<lambda>(ds, base, x). x)", goal_cases)
  case (2 ds base x)
  then have "0 < x" and "1 < base" by (auto intro: gr0I)
  then show ?case by simp
qed simp

declare digit_loop.simps [simp del]

text \<open>\<open>char buf[16]\<close>, printed from its last character to its first.\<close>

definition print_buf :: "string \<Rightarrow> string option" where
  "print_buf buf = (if length buf \<le> 16 then Some (rev buf) else None)"

definition printint :: "u64 \<Rightarrow> nat \<Rightarrow> bool \<Rightarrow> string option" where
  "printint xx base sign =
     (let neg = (sign \<and> sint xx < 0);
          x = (if neg then - xx else xx);
          buf = digit_loop digits base (unat x)
      in print_buf (if neg then buf @ ''-'' else buf))"

primrec ptr_loop :: "string \<Rightarrow> nat \<Rightarrow> u64 \<Rightarrow> string" where
  "ptr_loop ds 0 x = []"
| "ptr_loop ds (Suc i) x = ds ! unat (drop_bit 60 x) # ptr_loop ds i (push_bit 4 x)"

definition printptr :: "u64 \<Rightarrow> string" where
  "printptr x = ''0x'' @ ptr_loop digits 16 x"

text \<open>The variable arguments: an \<open>int\<close>, a \<open>uint64\<close>, or a string pointer that may be null.\<close>

datatype va = VInt u32 | VLong u64 | VStr "string option"

fun va_str :: "string option \<Rightarrow> string" where
  "va_str None = ''(null)''"
| "va_str (Some s) = s"

definition fmt_at :: "string \<Rightarrow> nat \<Rightarrow> char" where
  "fmt_at f i = (if i < length f then f ! i else CHR 0x00)"

text \<open>
  The conversions write through one of three functions, which the two \<open>printf\<close>s supply: for an
  \<open>int\<close>, for a \<open>uint64\<close> and for a pointer. The result is the text, the number of characters of
  the format used, and the remaining arguments.
\<close>

type_synonym conv_result = "(string \<times> nat \<times> va list) option"

fun with_int :: "(u32 \<Rightarrow> string option) \<Rightarrow> nat \<Rightarrow> va list \<Rightarrow> conv_result" where
  "with_int g n (VInt w # as) = map_option (\<lambda>t. (t, n, as)) (g w)"
| "with_int g n _ = None"

fun with_long :: "(u64 \<Rightarrow> string option) \<Rightarrow> nat \<Rightarrow> va list \<Rightarrow> conv_result" where
  "with_long g n (VLong w # as) = map_option (\<lambda>t. (t, n, as)) (g w)"
| "with_long g n _ = None"

fun with_str :: "nat \<Rightarrow> va list \<Rightarrow> conv_result" where
  "with_str n (VStr s # as) = Some (va_str s, n, as)"
| "with_str n _ = None"

record printers =
  p_int :: "u32 \<Rightarrow> nat \<Rightarrow> bool \<Rightarrow> string option"
  p_long :: "u64 \<Rightarrow> nat \<Rightarrow> bool \<Rightarrow> string option"
  p_ptr :: "u64 \<Rightarrow> string"

definition conversion :: "printers \<Rightarrow> string \<Rightarrow> va list \<Rightarrow> conv_result" where
  "conversion P f as =
     (let c0 = fmt_at f 0;
          c1 = (if c0 \<noteq> CHR 0x00 then fmt_at f 1 else CHR 0x00);
          c2 = (if c1 \<noteq> CHR 0x00 then fmt_at f 2 else CHR 0x00)
      in if c0 = CHR ''d'' then with_int (\<lambda>w. p_int P w 10 True) 1 as
         else if c0 = CHR ''l'' \<and> c1 = CHR ''d'' then with_long (\<lambda>w. p_long P w 10 True) 2 as
         else if c0 = CHR ''l'' \<and> c1 = CHR ''l'' \<and> c2 = CHR ''d'' then with_long (\<lambda>w. p_long P w 10 True) 3 as
         else if c0 = CHR ''u'' then with_int (\<lambda>w. p_int P w 10 False) 1 as
         else if c0 = CHR ''l'' \<and> c1 = CHR ''u'' then with_long (\<lambda>w. p_long P w 10 False) 2 as
         else if c0 = CHR ''l'' \<and> c1 = CHR ''l'' \<and> c2 = CHR ''u'' then with_long (\<lambda>w. p_long P w 10 False) 3 as
         else if c0 = CHR ''x'' then with_int (\<lambda>w. p_int P w 16 False) 1 as
         else if c0 = CHR ''l'' \<and> c1 = CHR ''x'' then with_long (\<lambda>w. p_long P w 16 False) 2 as
         else if c0 = CHR ''l'' \<and> c1 = CHR ''l'' \<and> c2 = CHR ''x'' then with_long (\<lambda>w. p_long P w 16 False) 3 as
         else if c0 = CHR ''p'' then with_long (\<lambda>w. Some (p_ptr P w)) 1 as
         else if c0 = CHR ''s'' then with_str 1 as
         else if c0 = CHR ''%'' then Some (''%'', 1, as)
         else Some ([CHR ''%'', c0], 1, as))"

text \<open>The format ends at its NUL, which is the end of the list; a single percent sign there is dropped.\<close>

function printf_loop :: "printers \<Rightarrow> string \<Rightarrow> va list \<Rightarrow> string option" where
  "printf_loop P f as =
     (case f of
        [] \<Rightarrow> Some []
      | cx # f \<Rightarrow>
          if cx \<noteq> CHR ''%'' then map_option (Cons cx) (printf_loop P f as)
          else if f = [] then Some []
          else (case conversion P f as of
                  None \<Rightarrow> None
                | Some (t, n, as) \<Rightarrow> map_option ((@) t) (printf_loop P (drop n f) as)))"
  by pat_completeness auto
termination
  by (relation "measure (\<lambda>(P, f, as). length f)") auto

declare printf_loop.simps [simp del]

text \<open>The kernel passes an \<open>int\<close> to \<open>printint\<close> as a \<open>long long\<close>: it is sign-extended, also for \<open>%u\<close> and \<open>%x\<close>.\<close>

definition kprinters :: printers where
  "kprinters = \<lparr>p_int = (\<lambda>w. printint (scast w)), p_long = printint, p_ptr = printptr\<rparr>"

definition printf :: "string \<Rightarrow> va list \<Rightarrow> string option" where
  "printf fmt as = printf_loop kprinters fmt as"

text \<open>\<^verbatim>\<open>panic\<close> prints its message and then loops for ever; this is what it prints.\<close>

definition panic_text :: "string \<Rightarrow> string option" where
  "panic_text s = (case (printf ''panic: '' [], printf (''%s'' @ [CHR 0x0A]) [VStr (Some s)]) of
     (Some a, Some b) \<Rightarrow> Some (a @ b) | _ \<Rightarrow> None)"

subsection \<open>User space\<close>

definition u_printint :: "u32 \<Rightarrow> nat \<Rightarrow> bool \<Rightarrow> string option" where
  "u_printint xx base sign =
     (let neg = (sign \<and> sint xx < 0);
          x = (if neg then - xx else xx);
          buf = digit_loop udigits base (unat x)
      in print_buf (if neg then buf @ ''-'' else buf))"

definition u_printptr :: "u64 \<Rightarrow> string" where
  "u_printptr x = ''0x'' @ ptr_loop udigits 16 x"

text \<open>The user \<open>printint\<close> takes an \<open>int\<close>: a \<open>uint64\<close> argument loses its upper half.\<close>

definition uprinters :: printers where
  "uprinters = \<lparr>p_int = u_printint, p_long = (\<lambda>w. u_printint (ucast w)), p_ptr = u_printptr\<rparr>"

definition vprintf :: "string \<Rightarrow> va list \<Rightarrow> string option" where
  "vprintf fmt as = printf_loop uprinters fmt as"

section \<open>Digits\<close>

lemma digit_loop_ne: "digit_loop ds b x \<noteq> []"
  by (subst digit_loop.simps) simp

lemma digit_loop_length:
  "2 \<le> b \<Longrightarrow> length (digit_loop ds b x) \<le> Suc k \<longleftrightarrow> x < b ^ Suc k"
proof (induction k arbitrary: x)
  case 0
  then show ?case
    by (subst digit_loop.simps) (auto simp: digit_loop_ne div_eq_0_iff)
next
  case (Suc k)
  have "x < b ^ Suc (Suc k) \<longleftrightarrow> x div b < b ^ Suc k"
    using Suc.prems by (subst div_less_iff_less_mult) (simp_all add: mult.commute)
  moreover have "x div b = 0 \<Longrightarrow> x div b < b ^ Suc k" using Suc.prems by simp
  ultimately show ?case
    using Suc.IH [OF Suc.prems, of "x div b"] Suc.prems by (subst digit_loop.simps) auto
qed

text \<open>Reading the digits back, most significant first.\<close>

definition horner :: "(char \<Rightarrow> nat) \<Rightarrow> nat \<Rightarrow> string \<Rightarrow> nat" where
  "horner v b s = foldl (\<lambda>n c. n * b + v c) 0 s"

lemma horner_digit_loop:
  assumes "2 \<le> b" and v: "\<And>d. d < b \<Longrightarrow> v (ds ! d) = d"
  shows "horner v b (rev (digit_loop ds b x)) = x"
  using assms(1)
proof (induction x rule: less_induct)
  case (less x)
  have m: "v (ds ! (x mod b)) = x mod b" using assms by simp
  show ?case
  proof (cases "x div b = 0")
    case True
    then have "x < b" using less.prems by (simp add: div_eq_0_iff)
    then show ?thesis using m by (subst digit_loop.simps) (simp add: horner_def)
  next
    case False
    then have "x div b < x" using less.prems by (intro div_less_dividend) (auto intro: gr0I)
    with less have "horner v b (rev (digit_loop ds b (x div b))) = x div b" by simp
    then show ?thesis using False m less.prems by (subst digit_loop.simps) (simp add: horner_def)
  qed
qed

lemma digit_loop_set: "2 \<le> b \<Longrightarrow> b \<le> length ds \<Longrightarrow> set (digit_loop ds b x) \<subseteq> set (take b ds)"
proof (induction x rule: less_induct)
  case (less x)
  have h: "ds ! (x mod b) \<in> set (take b ds)"
    using less.prems by (auto simp: in_set_conv_nth intro!: exI [of _ "x mod b"])
  show ?case
  proof (cases "x div b = 0")
    case False
    then have "x div b < x" using less.prems by (intro div_less_dividend) (auto intro: gr0I)
    with less h show ?thesis by (subst digit_loop.simps) auto
  qed (use h in \<open>subst digit_loop.simps, simp\<close>)
qed

lemma print_buf_Some: "(\<exists>s. print_buf buf = Some s) \<longleftrightarrow> length buf \<le> 16"
  by (simp add: print_buf_def)

text \<open>An \<open>int\<close> widened to 64 bits.\<close>

lemma sint_range: "- (2 ^ 31) \<le> sint (w :: u32)" "sint (w :: u32) < 2 ^ 31"
  using sint_greater_eq [of w] sint_less [of w] by simp_all

lemma sint_widen: "sint (scast (w :: u32) :: u64) = sint w"
  by (rule sint_up_scast) (simp add: is_up)

lemma unat_widen:
  "unat (scast (w :: u32) :: u64) = nat (if sint w < 0 then sint w + 2 ^ 64 else sint w)"
proof -
  have "uint (scast w :: u64) = sint w mod 2 ^ 64" unfolding scast_eq uint_word_of_int by simp
  also have "\<dots> = (if sint w < 0 then sint w + 2 ^ 64 else sint w)"
  proof (cases "sint w < 0")
    case True
    then have "(sint w + 2 ^ 64) mod 2 ^ 64 = sint w + 2 ^ 64"
      using sint_range [of w] by (intro mod_pos_pos_trivial) auto
    then show ?thesis using True by simp
  next
    case False
    then show ?thesis using sint_range [of w] by (simp add: mod_pos_pos_trivial)
  qed
  finally show ?thesis by (simp add: unat_eq_nat_uint)
qed

lemma unat_neg_widen:
  assumes "sint (w :: u32) < 0"
  shows "unat (- (scast w :: u64)) \<le> 2 ^ 31"
proof -
  have "- (scast w :: u64) = word_of_int (- sint w)" unfolding scast_eq wi_hom_neg ..
  then have "uint (- (scast w :: u64)) = (- sint w) mod 2 ^ 64"
    using uint_word_of_int [of "- sint w", where ?'a = 64] by simp
  also have "\<dots> = - sint w" using assms sint_range [of w] by (intro mod_pos_pos_trivial) auto
  finally show ?thesis using sint_range(1) [of w] by (simp add: unat_eq_nat_uint)
qed

lemma printint_iff:
  assumes "2 \<le> b"
  shows "printint xx b sign \<noteq> None \<longleftrightarrow>
     (if sign \<and> sint xx < 0 then unat (- xx) < b ^ 15 else unat xx < b ^ 16)"
  using digit_loop_length [OF assms, of digits _ 14] digit_loop_length [OF assms, of digits _ 15]
  by (simp add: printint_def print_buf_def Let_def)

lemma printint_int: "\<exists>t. printint (scast (w :: u32)) 10 True = Some t"
proof -
  have "printint (scast w) 10 True \<noteq> None"
    using printint_iff [of 10 "scast w" True] unat_neg_widen [of w] unat_widen [of w] sint_range(2) [of w]
    by (cases "sint w < 0") (auto simp: sint_widen)
  then show ?thesis by blast
qed

section \<open>Properties\<close>

text \<open>
  Property C19. When \<open>printint\<close> stays inside \<open>buf[16]\<close>: exactly when the magnitude has at most 16
  digits, 15 after a minus sign. So \<open>%d\<close> and every hexadecimal conversion are always safe, while
  \<open>%u\<close> of any negative \<open>int\<close> overruns the buffer, since the kernel sign-extends it to 64 bits.
\<close>

theorem printint_in_bounds:
  assumes "base = 10 \<or> base = 16"
  shows "(printint xx base sign \<noteq> None \<longleftrightarrow>
           (if sign \<and> sint xx < 0 then unat (- xx) < base ^ 15 else unat xx < base ^ 16))
       \<and> printint (scast (w :: u32)) 10 True \<noteq> None \<and> printint xx 16 False \<noteq> None
       \<and> (sint w < 0 \<longrightarrow> printint (scast w) 10 False = None)"
proof -
  note iff = printint_iff
  have d: "printint (scast w) 10 True \<noteq> None" using printint_int [of w] by blast
  have x: "printint xx 16 False \<noteq> None"
    using iff [of 16 xx False] unsigned_less [of xx, where ?'a = nat] by simp
  have u: "printint (scast w) 10 False = None" if "sint w < 0"
    using iff [of 10 "scast w" False] unat_widen [of w] sint_range(1) [of w] that by auto
  show ?thesis using iff [of base xx sign] assms d x u by auto
qed

theorem printint_in_bounds_witness:
  "printint (scast (- 1 :: u32)) 10 True \<noteq> None \<and> printint (scast (- 1 :: u32)) 10 False = None"
  using printint_in_bounds [of 10 0 False "- 1"] by simp

end
