(* ===== verification/Ulib.thy ===== *)
theory Ulib
  imports Kstring Kprintf
begin

text \<open>
  \<^verbatim>\<open>user/ulib.c\<close>. As in theory \<open>Kstring\<close>, a C string pointer is the function that gives \<open>p[i]\<close>, the
  memory routines act on byte-addressed memory, and a loop that runs to a NUL is a partial
  function. \<open>gets\<close> takes what successive calls of \<open>read(0, &c, 1)\<close> return, \<open>stat\<close> takes the three
  system calls it makes as parameters. On RISC-V \<open>char\<close> is unsigned.
\<close>

section \<open>Definitions\<close>

partial_function (option) strcpy :: "cptr \<Rightarrow> cptr \<Rightarrow> nat \<Rightarrow> cptr option" where
  "strcpy s t i = (let s' = s(i := t i) in if t i \<noteq> 0 then strcpy s' t (Suc i) else Some s')"

partial_function (option) strcmp :: "cptr \<Rightarrow> cptr \<Rightarrow> nat \<Rightarrow> int option" where
  "strcmp p q i = (if p i \<noteq> 0 \<and> p i = q i then strcmp p q (Suc i) else Some (uint (p i) - uint (q i)))"

definition u_strlen :: "cptr \<Rightarrow> u32 option" where
  "u_strlen s = map_option of_nat (strlen_from s 0)"

definition u_memset :: "u64 \<Rightarrow> u32 \<Rightarrow> u32 \<Rightarrow> memory \<Rightarrow> memory" where
  "u_memset dst c n m = memset_loop dst c (unat n) m"

text \<open>The result is the index of the character found; \<open>Some None\<close> is the null pointer.\<close>

partial_function (option) strchr :: "cptr \<Rightarrow> u8 \<Rightarrow> nat \<Rightarrow> nat option option" where
  "strchr s c i = (if s i = 0 then Some None else if s i = c then Some (Some i) else strchr s c (Suc i))"

text \<open>
  \<open>gets\<close>: an element of \<open>reads\<close> is the character a \<open>read\<close> gives, \<open>None\<close> a read that gives less than
  one byte; when the list is used up, reads give nothing. The result is the string in \<open>buf\<close>.
\<close>

fun gets_loop :: "u8 option list \<Rightarrow> int \<Rightarrow> nat \<Rightarrow> u8 list" where
  "gets_loop [] mx i = []"
| "gets_loop (r # reads) mx i =
     (if int i + 1 < mx then
        (case r of None \<Rightarrow> []
         | Some c \<Rightarrow> if c = 10 \<or> c = 13 then [c] else c # gets_loop reads mx (Suc i))
      else [])"

definition gets :: "u8 option list \<Rightarrow> int \<Rightarrow> u8 list" where
  "gets reads mx = gets_loop reads mx 0 @ [0]"

definition ustat :: "('n \<Rightarrow> 's \<Rightarrow> int \<times> 's) \<Rightarrow> (int \<Rightarrow> 's \<Rightarrow> int \<times> 'st \<times> 's) \<Rightarrow> (int \<Rightarrow> 's \<Rightarrow> 's) \<Rightarrow>
    'n \<Rightarrow> 'st \<Rightarrow> 's \<Rightarrow> int \<times> 'st \<times> 's" where
  "ustat open_rdonly fstat close n st s =
     (let (fd, s) = open_rdonly n s in
      if fd < 0 then (-1, st, s)
      else let (r, st, s) = fstat fd s; s = close fd s in (r, st, s))"

partial_function (option) atoi_loop :: "cptr \<Rightarrow> nat \<Rightarrow> u32 \<Rightarrow> u32 option" where
  "atoi_loop s i n =
     (if 48 \<le> s i \<and> s i \<le> 57 then atoi_loop s (Suc i) (n * 10 + ucast (s i) - 48) else Some n)"

definition atoi :: "cptr \<Rightarrow> u32 option" where
  "atoi s = atoi_loop s 0 0"

definition u_memmove :: "u64 \<Rightarrow> u64 \<Rightarrow> u32 \<Rightarrow> memory \<Rightarrow> memory" where
  "u_memmove dst src n m =
     (if src > dst then copy_fwd (nat (sint n)) dst src m
      else copy_bwd (nat (sint n)) (dst + scast n) (src + scast n) m)"

primrec u_memcmp_loop :: "memory \<Rightarrow> u64 \<Rightarrow> u64 \<Rightarrow> nat \<Rightarrow> int" where
  "u_memcmp_loop m p1 p2 0 = 0"
| "u_memcmp_loop m p1 p2 (Suc n) =
     (if m p1 \<noteq> m p2 then uint (m p1) - uint (m p2) else u_memcmp_loop m (p1 + 1) (p2 + 1) n)"

definition u_memcmp :: "memory \<Rightarrow> u64 \<Rightarrow> u64 \<Rightarrow> u32 \<Rightarrow> int" where
  "u_memcmp m s1 s2 n = u_memcmp_loop m s1 s2 (unat n)"

definition u_memcpy :: "u64 \<Rightarrow> u64 \<Rightarrow> u32 \<Rightarrow> memory \<Rightarrow> memory" where
  "u_memcpy dst src n m = u_memmove dst src n m"

section \<open>Strings in memory\<close>

text \<open>A C string with the given characters; what lies after its NUL does not matter.\<close>

definition is_str :: "cptr \<Rightarrow> u8 list \<Rightarrow> bool" where
  "is_str p s \<longleftrightarrow> (\<forall>i < length s. p i = s ! i) \<and> p (length s) = 0 \<and> 0 \<notin> set s"

lemma is_str_nz: "is_str p s \<Longrightarrow> p i = 0 \<Longrightarrow> i \<le> length s \<Longrightarrow> i = length s"
  by (metis is_str_def le_neq_implies_less nth_mem)

lemma strcmp_from:
  assumes "is_str p s" and "is_str q t" and "i \<le> length s" and "i \<le> length t" and "take i s = take i t"
  shows "\<exists>r. strcmp p q i = Some r \<and> (r = 0 \<longleftrightarrow> s = t)"
  using assms(3-5)
proof (induction "length s - i" arbitrary: i)
  case 0
  then have i: "i = length s" by simp
  have p: "p i = 0" using assms(1) i by (simp add: is_str_def)
  have "q i = 0 \<longleftrightarrow> i = length t" using assms(2) 0 is_str_nz [OF assms(2)] by (auto simp: is_str_def)
  then have "q i = 0 \<longleftrightarrow> s = t" using 0 i by auto
  then show ?case using p by (subst strcmp.simps) (auto simp: word_uint_eq_iff)
next
  case (Suc n)
  have il: "i < length s" using Suc.hyps by simp
  have p: "p i = s ! i" "p i \<noteq> 0" using assms(1) il by (auto simp: is_str_def) (metis nth_mem)
  show ?case
  proof (cases "p i = q i")
    case True
    then have "i < length t" using p assms(2) Suc.prems by (metis is_str_def le_neq_implies_less)
    moreover have "q i = t ! i" using assms(2) calculation by (simp add: is_str_def)
    ultimately have "\<exists>r. strcmp p q (Suc i) = Some r \<and> (r = 0 \<longleftrightarrow> s = t)"
      using Suc il True p by (intro Suc.hyps(1)) (auto simp: take_Suc_conv_app_nth)
    then show ?thesis using True p by (subst strcmp.simps) simp
  next
    case False
    moreover have "s \<noteq> t" if "p i \<noteq> q i" using that p(1) il assms(2) by (auto simp: is_str_def)
    ultimately show ?thesis by (subst strcmp.simps) (auto simp: word_uint_eq_iff)
  qed
qed

lemma strcpy_from:
  "n \<le> k \<Longrightarrow> t k = 0 \<Longrightarrow> (\<forall>j. n \<le> j \<and> j < k \<longrightarrow> t j \<noteq> 0) \<Longrightarrow>
   strcpy s t n = Some (\<lambda>i. if n \<le> i \<and> i \<le> k then t i else s i)"
proof (induction "k - n" arbitrary: n s)
  case 0
  then show ?case by (subst strcpy.simps) (auto simp: Let_def)
next
  case (Suc d)
  from Suc.hyps(2) Suc.prems have nz: "t n \<noteq> 0" by simp
  from Suc.hyps(2) Suc.prems
  have "strcpy (s(n := t n)) t (Suc n) = Some (\<lambda>i. if Suc n \<le> i \<and> i \<le> k then t i else (s(n := t n)) i)"
    by (intro Suc.hyps(1)) simp_all
  moreover have "(\<lambda>i. if Suc n \<le> i \<and> i \<le> k then t i else (s(n := t n)) i) = (\<lambda>i. if n \<le> i \<and> i \<le> k then t i else s i)"
    using Suc.prems(1) by auto
  ultimately show ?case using nz by (subst strcpy.simps) (simp add: Let_def)
qed

lemma strcpy_strcmp:
  assumes "is_str t s"
  shows "\<exists>d'. strcpy d t 0 = Some d' \<and> is_str d' s \<and> strcmp d' t 0 = Some 0"
proof -
  let ?d = "\<lambda>i. if i \<le> length s then t i else d i"
  have "strcpy d t 0 = Some ?d"
    using strcpy_from [of 0 "length s" t d] assms by (auto simp: is_str_def) (metis nth_mem)
  moreover have "is_str ?d s" using assms by (auto simp: is_str_def)
  moreover have "strcmp ?d t 0 = Some 0" using strcmp_from [OF \<open>is_str ?d s\<close> assms] by auto
  ultimately show ?thesis by blast
qed

section \<open>Numbers\<close>

lemma atoi_loop_digits:
  assumes "\<forall>j. i \<le> j \<and> j < i + length ds \<longrightarrow> s j = of_char (ds ! (j - i))" and "set ds \<subseteq> set (take 10 udigits)"
    and "s (i + length ds) < 48"
  shows "atoi_loop s i n = Some (foldl (\<lambda>n c. n * 10 + (of_char c - 48)) n ds)"
  using assms
proof (induction ds arbitrary: i n)
  case Nil
  then show ?case by (subst atoi_loop.simps) (auto simp: linorder_not_le)
next
  case (Cons c ds)
  have si: "s i = of_char c" using Cons.prems(1) by (auto dest: spec [of _ i])
  have c: "48 \<le> (of_char c :: u8) \<and> (of_char c :: u8) \<le> 57 \<and> ucast (of_char c :: u8) = (of_char c :: u32)"
    using Cons.prems(2) by (auto simp: udigits_def)
  have "atoi_loop s (Suc i) m = Some (foldl (\<lambda>n c. n * 10 + (of_char c - 48)) m ds)" for m
  proof (rule Cons.IH)
    show "\<forall>j. Suc i \<le> j \<and> j < Suc i + length ds \<longrightarrow> s j = of_char (ds ! (j - Suc i))"
      using Cons.prems(1) by (auto simp: nth_Cons' dest!: spec [of _ "_ :: nat"])
  qed (use Cons.prems in auto)
  then show ?case using si c by (subst atoi_loop.simps) (simp add: add_diff_eq)
qed

lemma digit_of_char:
  assumes "c \<in> set (take 10 udigits)"
  shows "(of_char c - 48 :: u32) = of_nat (of_char c - 48)" and "(of_char c :: u8) \<noteq> 0"
  using assms by (auto simp: udigits_def)

lemma foldl_digits:
  "set ds \<subseteq> set (take 10 udigits) \<Longrightarrow>
   foldl (\<lambda>n c. n * 10 + (of_char c - 48 :: u32)) (of_nat m) ds =
   of_nat (foldl (\<lambda>n c. n * 10 + (of_char c - 48)) m ds)"
proof (induction ds arbitrary: m)
  case (Cons c ds)
  have "of_nat m * 10 + (of_char c - 48 :: u32) = of_nat (m * 10 + (of_char c - 48))"
    using digit_of_char(1) [of c] Cons.prems by simp
  then show ?case using Cons by (simp del: of_nat_add)
qed simp

lemma dec_digit_value: "d < 10 \<Longrightarrow> of_char (udigits ! d) - 48 = d"
proof -
  assume "d < 10"
  then have "d \<in> {0, 1, 2, 3, 4, 5, 6, 7, 8, 9}" by auto
  then show ?thesis by (auto simp: udigits_def)
qed

section \<open>Moving memory\<close>

lemma nat_sint: "0 \<le> sint (n :: u32) \<Longrightarrow> nat (sint n) = unat n"
  using uint_sint [of n] sint_range(2) [of n] by (simp add: unat_eq_nat_uint take_bit_int_eq_self)

lemma u_memmove_store:
  assumes "unat s + nat (sint n) < 2 ^ 64" and "unat d + nat (sint n) < 2 ^ 64" and "0 \<le> sint n"
  shows "u_memmove d s n m = mem_store m d (mem_bytes m s (nat (sint n)))"
proof -
  have "(scast n :: u64) = of_nat (nat (sint n))"
    unfolding scast_eq using assms(3) by simp
  then show ?thesis
    using copy_fwd_store [of s "nat (sint n)" d m] copy_bwd_store [of s "nat (sint n)" d m] assms
    by (simp add: u_memmove_def word_less_nat_alt)
qed

section \<open>Properties\<close>

text \<open>
  Property C20. Printing and reading a number back: the digits \<open>printf\<close> writes for a non-negative
  \<open>int\<close> are turned into the same \<open>int\<close> by \<open>atoi\<close>, whatever character after the string's NUL.
\<close>

theorem atoi_printint:
  assumes "0 \<le> sint w"
  shows "\<exists>s. u_printint w 10 sign = Some s \<and> (\<forall>p. is_str p (map of_char s) \<longrightarrow> atoi p = Some w)"
proof -
  let ?ds = "rev (digit_loop udigits 10 (unat w))"
  have set: "set ?ds \<subseteq> set (take 10 udigits)"
    using digit_loop_set [of 10 udigits "unat w"] by (simp add: udigits_def)
  have len: "length ?ds \<le> 16"
    using digit_loop_length [of 10 udigits "unat w" 15] unsigned_less [of w, where ?'a = nat] by simp
  have val: "foldl (\<lambda>n c. n * 10 + (of_char c - 48)) 0 ?ds = unat w"
    using horner_digit_loop [of 10 "\<lambda>c. of_char c - 48" udigits "unat w"]
    by (simp add: horner_def dec_digit_value)
  have p: "u_printint w 10 sign = Some ?ds"
    using assms len by (simp add: u_printint_def print_buf_def)
  have "atoi p = Some w" if "is_str p (map of_char ?ds)" for p
  proof -
    have "atoi p = Some (foldl (\<lambda>n c. n * 10 + (of_char c - 48)) 0 ?ds)"
      unfolding atoi_def using that set by (intro atoi_loop_digits) (auto simp: is_str_def)
    then show ?thesis using foldl_digits [OF set, of 0] val by simp
  qed
  with p show ?thesis by blast
qed

theorem atoi_printint_witness:
  "\<exists>s. u_printint 1024 10 True = Some s \<and> (\<forall>p. is_str p (map of_char s) \<longrightarrow> atoi p = Some 1024)"
  using atoi_printint [of 1024 True] by simp

text \<open>
  Property C21. The user-space \<open>memmove\<close> and the kernel's, which choose the direction of the copy by
  different tests, do the same: the bytes that were at \<open>s\<close> end up at \<open>d\<close>, also when the two
  regions overlap, and no other byte changes.
\<close>

theorem memmove_agree:
  assumes "unat s + unat n < 2 ^ 64" and "unat d + unat n < 2 ^ 64" and "0 \<le> sint n"
  shows "u_memmove d s n m = memmove d s n m \<and> u_memmove d s n m = mem_store m d (mem_bytes m s (unat n))"
  using u_memmove_store [of s n d m] memmove_store [of s n d m] assms nat_sint [of n] by simp

theorem memmove_agree_witness:
  "\<forall>m. u_memmove 1001 1000 5 m = memmove 1001 1000 5 m"
  using memmove_agree [of 1000 5 1001] by simp

end
