(* ===== verification/Utools.thy ===== *)
theory Utools
  imports Ulib
begin

text \<open>
  The text tools \<^verbatim>\<open>user/grep.c\<close> and \<^verbatim>\<open>user/wc.c\<close>. A C string is the list of its bytes before the NUL. A
  file being read is the list of bytes still to come; how many bytes each \<open>read\<close> delivers is up
  to the kernel, so it is a parameter \<open>sz\<close> (the \<open>k\<close>-th call delivers at most \<open>sz k + 1\<close>, at least one while
  there are any and the caller asks for some).
\<close>

section \<open>Definitions\<close>

subsection \<open>The matcher of \<^verbatim>\<open>grep.c\<close>\<close>

text \<open>The characters \<open>^ $ . *\<close> are 94, 36, 46 and 42.\<close>

function matchhere :: "u8 list \<Rightarrow> u8 list \<Rightarrow> bool" and matchstar :: "u8 \<Rightarrow> u8 list \<Rightarrow> u8 list \<Rightarrow> bool" where
  "matchhere re tx =
     (if re = [] then True
      else if 2 \<le> length re \<and> re ! 1 = 42 then matchstar (hd re) (drop 2 re) tx
      else if re = [36] then tx = []
      else if tx \<noteq> [] \<and> (hd re = 46 \<or> hd re = hd tx) then matchhere (tl re) (tl tx)
      else False)"
| "matchstar c re tx =
     (if matchhere re tx then True
      else if tx \<noteq> [] \<and> (hd tx = c \<or> c = 46) then matchstar c re (tl tx)
      else False)"
  by pat_completeness auto
termination
  by (relation "measures [\<lambda>x. case x of Inl (re, t) \<Rightarrow> 2 * length re | Inr (c, re, t) \<Rightarrow> 2 * length re + 1,
       \<lambda>x. case x of Inl (re, t) \<Rightarrow> length t | Inr (c, re, t) \<Rightarrow> length t]") auto

declare matchhere.simps [simp del] matchstar.simps [simp del]

fun match_from :: "u8 list \<Rightarrow> u8 list \<Rightarrow> bool" where
  "match_from re tx =
     (if matchhere re tx then True else case tx of [] \<Rightarrow> False | _ # tx \<Rightarrow> match_from re tx)"

definition match :: "u8 list \<Rightarrow> u8 list \<Rightarrow> bool" where
  "match re tx = (if re \<noteq> [] \<and> hd re = 94 then matchhere (tl re) tx else match_from re tx)"

subsection \<open>Reading lines through a buffer\<close>

text \<open>\<open>strchr\<close> on the bytes up to the end of the buffer, where the NUL is.\<close>

fun strchr_l :: "u8 list \<Rightarrow> u8 \<Rightarrow> nat option" where
  "strchr_l [] c = None"
| "strchr_l (x # xs) c = (if x = 0 then None else if x = c then Some 0 else map_option Suc (strchr_l xs c))"

text \<open>The inner loop: what is written, and the partial line left at the end.\<close>

function grep_lines :: "u8 list \<Rightarrow> u8 list \<Rightarrow> u8 list \<times> u8 list" where
  "grep_lines pattern p =
     (case strchr_l p 10 of
        None \<Rightarrow> ([], p)
      | Some q \<Rightarrow>
          let w = (if match pattern (take q p) then take (q + 1) p else []);
              (out, rest) = grep_lines pattern (drop (q + 1) p)
          in (w @ out, rest))"
  by pat_completeness auto
termination
proof (relation "measure (\<lambda>(re, p). length p)", goal_cases)
  case (2 pattern p q)
  then show ?case by (cases p) auto
qed simp

declare grep_lines.simps [simp del]

function grep_loop :: "(nat \<Rightarrow> nat) \<Rightarrow> nat \<Rightarrow> u8 list \<Rightarrow> u8 list \<Rightarrow> u8 list \<Rightarrow> u8 list" where
  "grep_loop sz k pattern buf inp =
     (let chunk = take (min (1024 - length buf - 1) (sz k + 1)) inp in
      if chunk = [] then []
      else let (out, rest) = grep_lines pattern (buf @ chunk)
           in out @ grep_loop sz (Suc k) pattern rest (drop (length chunk) inp))"
  by pat_completeness auto
termination
  by (relation "measure (\<lambda>(sz, k, re, b, inp). length inp)") auto

declare grep_loop.simps [simp del]

definition grep :: "(nat \<Rightarrow> nat) \<Rightarrow> u8 list \<Rightarrow> u8 list \<Rightarrow> u8 list" where
  "grep sz pattern inp = grep_loop sz 0 pattern [] inp"

subsection \<open>\<^verbatim>\<open>wc.c\<close>\<close>

record wcst =
  nl :: u32
  nw :: u32
  nc :: u32
  inword :: bool

definition wc_byte :: "u8 \<Rightarrow> wcst \<Rightarrow> wcst" where
  "wc_byte b s =
     (let s = s\<lparr>nc := nc s + 1\<rparr>;
          s = (if b = 10 then s\<lparr>nl := nl s + 1\<rparr> else s)
      in if strchr_l [32, 13, 9, 10, 11] b \<noteq> None then s\<lparr>inword := False\<rparr>
         else if \<not> inword s then s\<lparr>nw := nw s + 1, inword := True\<rparr> else s)"

text \<open>Results of the calls of \<open>read\<close>; \<open>None\<close> is a negative result. The result is the exit status and the output.\<close>

fun wc_loop :: "u8 list option list \<Rightarrow> wcst \<Rightarrow> wcst option" where
  "wc_loop [] s = Some s"
| "wc_loop (None # rs) s = None"
| "wc_loop (Some [] # rs) s = Some s"
| "wc_loop (Some bs # rs) s = wc_loop rs (fold wc_byte bs s)"

definition wc :: "u8 list option list \<Rightarrow> string \<Rightarrow> string option" where
  "wc reads name =
     (case wc_loop reads \<lparr>nl = 0, nw = 0, nc = 0, inword = False\<rparr> of
        None \<Rightarrow> vprintf (''wc: read error'' @ [CHR 0x0A]) []
      | Some s \<Rightarrow> vprintf (''%d %d %d %s'' @ [CHR 0x0A]) [VInt (nl s), VInt (nw s), VInt (nc s), VStr (Some name)])"

section \<open>Regular expressions\<close>

text \<open>A pattern as a sequence of items, and the texts that start with a match of it.\<close>

datatype item = One u8 | Star u8 | End

function items :: "u8 list \<Rightarrow> item list" where
  "items re =
     (if re = [] then []
      else if 2 \<le> length re \<and> re ! 1 = 42 then Star (hd re) # items (drop 2 re)
      else if re = [36] then [End]
      else One (hd re) # items (tl re))"
  by pat_completeness auto
termination
  by (relation "measure length") auto

declare items.simps [simp del]

definition char_class :: "u8 \<Rightarrow> u8 set" where
  "char_class a = (if a = 46 then UNIV else {a})"

fun starts_with :: "item list \<Rightarrow> u8 list set" where
  "starts_with [] = UNIV"
| "starts_with (One a # is) = {x # t | x t. x \<in> char_class a \<and> t \<in> starts_with is}"
| "starts_with (Star a # is) = {u @ t | u t. set u \<subseteq> char_class a \<and> t \<in> starts_with is}"
| "starts_with (End # is) = {[]}"

lemma star_step:
  "tx \<in> starts_with (Star a # is) \<longleftrightarrow>
   tx \<in> starts_with is \<or> (\<exists>x t. tx = x # t \<and> x \<in> char_class a \<and> t \<in> starts_with (Star a # is))"
  (is "?L \<longleftrightarrow> ?R")
proof
  assume ?L
  then obtain u t where u: "tx = u @ t" "set u \<subseteq> char_class a" "t \<in> starts_with is" by auto
  then show ?R by (cases u) auto
next
  assume ?R
  then show ?L
  proof
    assume "tx \<in> starts_with is"
    then show ?L by simp (metis append_Nil empty_set empty_subsetI)
  next
    assume "\<exists>x t. tx = x # t \<and> x \<in> char_class a \<and> t \<in> starts_with (Star a # is)"
    then obtain x u t where "tx = x # u @ t" "x \<in> char_class a" "set u \<subseteq> char_class a" "t \<in> starts_with is"
      by auto
    then show ?L by simp (rule exI [of _ "x # u"], simp)
  qed
qed

lemma matchhere_items: "matchhere re tx \<longleftrightarrow> tx \<in> starts_with (items re)"
  and matchstar_items: "matchstar a re tx \<longleftrightarrow> tx \<in> starts_with (Star a # items re)"
proof (induction re tx and a re tx rule: matchhere_matchstar.induct)
  case (1 re tx)
  consider (nil) "re = []" | (star) "re \<noteq> []" "2 \<le> length re \<and> re ! 1 = 42"
    | (dollar) "re \<noteq> []" "\<not> (2 \<le> length re \<and> re ! 1 = 42)" "re = [36]"
    | (one) "re \<noteq> []" "\<not> (2 \<le> length re \<and> re ! 1 = 42)" "re \<noteq> [36]"
    by blast
  then show ?case
  proof cases
    case nil
    then show ?thesis by (subst matchhere.simps, subst items.simps) simp
  next
    case star
    then have "items re = Star (hd re) # items (drop 2 re)" by (subst items.simps) simp
    moreover have "matchhere re tx = matchstar (hd re) (drop 2 re) tx"
      using star by (subst matchhere.simps) simp
    ultimately show ?thesis using "1.IH"(1) [OF star] by (simp only:)
  next
    case dollar
    then show ?thesis by (subst matchhere.simps, subst items.simps) simp
  next
    case one
    then have "items re = One (hd re) # items (tl re)" by (subst items.simps) simp
    moreover have "matchhere re tx \<longleftrightarrow> tx \<noteq> [] \<and> (hd re = 46 \<or> hd re = hd tx) \<and> matchhere (tl re) (tl tx)"
      using one by (subst matchhere.simps) auto
    ultimately show ?thesis using "1.IH"(2) [OF one] by (cases tx) (auto simp: char_class_def)
  qed
next
  case (2 a re tx)
  then show ?case
    by (subst matchstar.simps, subst star_step)
      (cases tx; auto simp: char_class_def simp del: starts_with.simps)
qed

lemma match_from_iff: "match_from re tx \<longleftrightarrow> (\<exists>u t. tx = u @ t \<and> matchhere re t)"
proof (induction tx)
  case (Cons a tx)
  have "(\<exists>u t. a # tx = u @ t \<and> matchhere re t) \<longleftrightarrow>
      matchhere re (a # tx) \<or> (\<exists>u t. tx = u @ t \<and> matchhere re t)"
    by (metis Cons_eq_append_conv append_Cons append_Nil)
  then show ?case using Cons by simp
qed simp

section \<open>Lines\<close>

text \<open>The complete lines of a text without their newlines, and the unfinished last line.\<close>

fun split_nl :: "u8 list \<Rightarrow> u8 list list \<times> u8 list" where
  "split_nl [] = ([], [])"
| "split_nl (x # xs) =
     (let (ls, r) = split_nl xs in
      if x = 10 then ([] # ls, r) else case ls of [] \<Rightarrow> ([], x # r) | l # ls \<Rightarrow> ((x # l) # ls, r))"

lemma split_nl_append:
  "split_nl (a @ b) =
     (let (la, ra) = split_nl a; (lb, rb) = split_nl (ra @ b) in (la @ lb, rb))"
  by (induction a) (auto simp: Let_def split: prod.splits list.splits)

lemma split_nl_none: "10 \<notin> set a \<Longrightarrow> split_nl a = ([], a)"
  by (induction a) auto

lemma split_nl_line: "10 \<notin> set a \<Longrightarrow> split_nl (a @ 10 # b) = (a # fst (split_nl b), snd (split_nl b))"
  by (induction a) (auto split: prod.splits)

lemma split_nl_rest: "10 \<notin> set (snd (split_nl a))"
  by (induction a) (auto split: prod.splits list.splits)

lemma split_nl_rest_set: "set (snd (split_nl a)) \<subseteq> set a"
  by (induction a) (auto split: prod.splits list.splits)

text \<open>A text whose lines are all short enough for the buffer.\<close>

definition short_lines :: "u8 list \<Rightarrow> bool" where
  "short_lines s \<longleftrightarrow> (\<forall>l \<in> set (fst (split_nl s)). length l \<le> 1022) \<and> length (snd (split_nl s)) \<le> 1022"

lemma strchr_l_nl:
  assumes "0 \<notin> set p"
  shows "strchr_l p 10 = None \<longleftrightarrow> 10 \<notin> set p"
    and "strchr_l p 10 = Some q \<Longrightarrow> \<exists>b. p = take q p @ 10 # b \<and> drop (q + 1) p = b \<and> 10 \<notin> set (take q p) \<and>
      take (q + 1) p = take q p @ [10]"
  using assms by (induction p arbitrary: q) (auto split: if_splits)

definition matching_lines :: "u8 list \<Rightarrow> u8 list list \<Rightarrow> u8 list" where
  "matching_lines re ls = concat (map (\<lambda>l. l @ [10]) (filter (match re) ls))"

lemma matching_lines_append [simp]: "matching_lines re (a @ b) = matching_lines re a @ matching_lines re b"
  by (simp add: matching_lines_def)

lemma grep_lines_split:
  "0 \<notin> set p \<Longrightarrow> grep_lines re p = (matching_lines re (fst (split_nl p)), snd (split_nl p))"
proof (induction re p rule: grep_lines.induct)
  case (1 re p)
  show ?case
  proof (cases "strchr_l p 10")
    case None
    then have "10 \<notin> set p" using strchr_l_nl(1) [OF 1(2)] by simp
    then show ?thesis using None by (subst grep_lines.simps) (simp add: split_nl_none matching_lines_def)
  next
    case (Some q)
    obtain b where b: "p = take q p @ 10 # b" "drop (q + 1) p = b" "10 \<notin> set (take q p)"
      "take (q + 1) p = take q p @ [10]"
      using strchr_l_nl(2) [OF 1(2) Some] by blast
    have "0 \<notin> set b" using 1(2) b(1) by (metis in_set_conv_decomp_first list.set_intros(2) Un_iff set_append)
    then have IH: "grep_lines re b = (matching_lines re (fst (split_nl b)), snd (split_nl b))"
      using 1(1) [OF Some] b(2) by simp
    have sp: "split_nl p = (take q p # fst (split_nl b), snd (split_nl b))"
      by (subst b(1)) (rule split_nl_line [OF b(3)])
    have "grep_lines re p =
        ((if match re (take q p) then take q p @ [10] else []) @ fst (grep_lines re b), snd (grep_lines re b))"
      using Some b(2,4) by (subst grep_lines.simps) (simp add: Let_def split: prod.splits)
    then show ?thesis unfolding IH sp by (simp add: matching_lines_def)
  qed
qed

text \<open>The partial line in the buffer always leaves room for another byte.\<close>

lemma short_lines_prefix:
  assumes "short_lines (b @ inp)" and "10 \<notin> set b"
  shows "length b \<le> 1022"
proof (cases "10 \<in> set inp")
  case True
  then obtain u v where "inp = u @ 10 # v" "10 \<notin> set u" by (meson split_list_first)
  then have "split_nl (b @ inp) = ((b @ u) # fst (split_nl v), snd (split_nl v))"
    using split_nl_line [of "b @ u" v] assms(2) by simp
  then show ?thesis using assms(1) by (simp add: short_lines_def)
next
  case False
  then have "split_nl (b @ inp) = ([], b @ inp)" using assms(2) by (intro split_nl_none) simp
  then show ?thesis using assms(1) by (simp add: short_lines_def)
qed

lemma short_lines_drop: "short_lines (a @ b) \<Longrightarrow> short_lines (snd (split_nl a) @ b)"
  by (auto simp: short_lines_def split_nl_append [of a b] split: prod.splits)

lemma grep_loop_lines:
  "0 \<notin> set (buf @ inp) \<Longrightarrow> 10 \<notin> set buf \<Longrightarrow> short_lines (buf @ inp) \<Longrightarrow>
   grep_loop sz k re buf inp = matching_lines re (fst (split_nl (buf @ inp)))"
proof (induction sz k re buf inp rule: grep_loop.induct)
  case (1 sz k re buf inp)
  let ?n = "min (1024 - length buf - 1) (sz k + 1)"
  have room: "0 < ?n" using short_lines_prefix [OF "1.prems"(3,2)] by simp
  show ?case
  proof (cases "inp = []")
    case True
    then show ?thesis
      using "1.prems" by (subst grep_loop.simps) (simp add: split_nl_none matching_lines_def)
  next
    case False
    let ?c = "take ?n inp" and ?r = "drop ?n inp"
    let ?rest = "snd (split_nl (buf @ ?c))"
    have ne: "?c \<noteq> []" using room False by simp
    have len: "drop (length ?c) inp = ?r" by (metis append_eq_conv_conj append_take_drop_id)
    have z: "0 \<notin> set (buf @ ?c)" "0 \<notin> set ?r" using "1.prems"(1) by (auto dest: in_set_takeD in_set_dropD)
    have gl: "grep_lines re (buf @ ?c) = (matching_lines re (fst (split_nl (buf @ ?c))), ?rest)"
      by (rule grep_lines_split [OF z(1)])
    have all: "buf @ inp = (buf @ ?c) @ ?r" by simp
    have IH: "grep_loop sz (Suc k) re ?rest ?r = matching_lines re (fst (split_nl (?rest @ ?r)))"
    proof (rule "1.IH" [OF refl ne gl [symmetric] refl, unfolded len])
      show "0 \<notin> set (?rest @ ?r)" using z split_nl_rest_set [of "buf @ ?c"] by auto
      show "10 \<notin> set ?rest" by (rule split_nl_rest)
      show "short_lines (?rest @ ?r)" using "1.prems"(3) unfolding all by (rule short_lines_drop)
    qed
    have "grep_loop sz k re buf inp = matching_lines re (fst (split_nl (buf @ ?c))) @ grep_loop sz (Suc k) re ?rest ?r"
      by (subst grep_loop.simps) (simp only: Let_def ne gl len if_False prod.case)
    also have "\<dots> = matching_lines re (fst (split_nl (buf @ inp)))"
      unfolding IH by (subst all, subst (3) split_nl_append) (simp add: Let_def split: prod.splits)
    finally show ?thesis .
  qed
qed

section \<open>Counting\<close>

definition blank :: "u8 \<Rightarrow> bool" where
  "blank b \<longleftrightarrow> b \<in> {32, 13, 9, 10, 11}"

text \<open>The number of positions where a word starts.\<close>

definition word_starts :: "u8 list \<Rightarrow> nat" where
  "word_starts s = card {i. i < length s \<and> \<not> blank (s ! i) \<and> (i = 0 \<or> blank (s ! (i - 1)))}"

lemma word_starts_snoc:
  "word_starts (s @ [b]) = word_starts s + (if \<not> blank b \<and> (s = [] \<or> blank (last s)) then 1 else 0)"
proof -
  let ?A = "\<lambda>s. {i. i < length s \<and> \<not> blank (s ! i) \<and> (i = 0 \<or> blank (s ! (i - 1)))}"
  have "?A (s @ [b]) = (if \<not> blank b \<and> (s = [] \<or> blank (last s)) then insert (length s) (?A s) else ?A s)"
    by (cases s rule: rev_cases) (auto simp: nth_append less_Suc_eq)
  then show ?thesis unfolding word_starts_def by auto
qed

definition wc_spec :: "u8 list \<Rightarrow> wcst" where
  "wc_spec s = \<lparr>nl = of_nat (count_list s 10), nw = of_nat (word_starts s), nc = of_nat (length s),
     inword = (s \<noteq> [] \<and> \<not> blank (last s))\<rparr>"

lemma wc_byte_spec: "wc_byte b (wc_spec s) = wc_spec (s @ [b])"
proof -
  have "strchr_l [32, 13, 9, 10, 11] b \<noteq> None \<longleftrightarrow> blank b" by (auto simp: blank_def)
  then show ?thesis
    by (auto simp: wc_byte_def wc_spec_def word_starts_snoc Let_def)
qed

lemma wc_bytes_spec: "fold wc_byte bs (wc_spec s) = wc_spec (s @ bs)"
  by (induction bs arbitrary: s) (simp_all add: wc_byte_spec)

lemma wc_loop_spec:
  "\<forall>b \<in> set bss. b \<noteq> [] \<Longrightarrow> wc_loop (map Some bss @ [Some []]) (wc_spec s) = Some (wc_spec (s @ concat bss))"
proof (induction bss arbitrary: s)
  case (Cons b bss)
  then show ?case by (cases b) (auto simp: wc_bytes_spec wc_byte_spec)
qed simp

section \<open>Properties\<close>

text \<open>
  Property C22. The matcher of \<open>grep\<close> decides the language of its pattern: a text matches when
  some suffix of it (the whole text after \<open>^\<close>) starts with a string of the items of the pattern,
  where \<open>.\<close> is any character, \<open>*\<close> any repetition of the character before it and a last \<open>$\<close> the end.
\<close>

theorem match_language:
  "match re tx \<longleftrightarrow>
     (if re \<noteq> [] \<and> hd re = 94 then tx \<in> starts_with (items (tl re))
      else \<exists>u t. tx = u @ t \<and> t \<in> starts_with (items re))"
  by (simp add: match_def match_from_iff matchhere_items del: match_from.simps)



text \<open>
  Property C24. \<open>wc\<close> prints the number of newlines, of words (positions where a non-blank follows a
  blank or the start) and of bytes of the file, modulo the width of \<open>int\<close>, independently of the
  sizes of the reads.
\<close>

theorem wc_counts:
  assumes "\<forall>b \<in> set bss. b \<noteq> []" and "concat bss = s"
  shows "wc (map Some bss @ [Some []]) name =
     vprintf (''%d %d %d %s'' @ [CHR 0x0A])
       [VInt (of_nat (count_list s 10)), VInt (of_nat (word_starts s)), VInt (of_nat (length s)), VStr (Some name)]"
proof -
  have "wc_spec [] = \<lparr>nl = 0, nw = 0, nc = 0, inword = False\<rparr>" by (simp add: wc_spec_def word_starts_def)
  then show ?thesis
    using wc_loop_spec [OF assms(1), of "[]"] assms(2) by (simp add: wc_def) (simp add: wc_spec_def)
qed

theorem wc_counts_witness:
  "wc [Some [104, 105], Some [10], Some []] ''f'' =
     vprintf (''%d %d %d %s'' @ [CHR 0x0A]) [VInt 1, VInt 1, VInt 3, VStr (Some ''f'')]"
proof -
  have "{i. i < length [104, 105, 10] \<and> \<not> blank ([104, 105, 10] ! i) \<and> (i = 0 \<or> blank ([104, 105, 10] ! (i - 1)))} = {0}"
    by (auto simp: blank_def less_Suc_eq nth_Cons' split: if_splits)
  then have "word_starts [104, 105, 10] = 1" by (simp add: word_starts_def)
  then show ?thesis using wc_counts [of "[[104, 105], [10]]" "[104, 105, 10]" "''f''"] by simp
qed

end
