(* ===== verification/Proc.thy ===== *)
theory Proc
  imports Vm Sleep Kprintf
begin

text \<open>
  The process table of \<^verbatim>\<open>kernel/proc.c\<close>. A process is named by its slot in \<open>proc[]\<close>, a pointer to one
  is an optional slot number. The state is seen from one CPU: \<open>cur\<close> is the slot of \<open>myproc()\<close>.
  \<open>p->lock\<close>, \<open>wait_lock\<close> and \<open>pid_lock\<close> bracket the accesses and are the boundaries of atomic steps;
  the operations that switch processes while holding them are in theories \<open>Sleep\<close> and \<open>Sched\<close>.
  \<open>fork\<close>, \<open>exit\<close> and \<open>userinit\<close>, which need the file system, are in theory \<open>Proc_Life\<close>.
\<close>

section \<open>Definitions\<close>

text \<open>The callee-saved registers \<open>s0\<close> to \<open>s11\<close> are one list.\<close>

record kcontext =
  ctx_ra :: u64
  ctx_sp :: u64
  sregs :: "u64 list"

record proc =
  state :: procstate
  wchan :: "chan option"
  killedf :: bool
  xstate :: u32
  pid :: u32
  tmask :: u32
  parent :: "nat option"
  kstack :: u64
  psz :: u64
  pagetable :: u64
  trapframe :: u64
  pcontext :: kcontext
  ofile :: "nat option list"
  cwd :: "nat option"
  pname :: "u8 list"

record kproc = kvm +
  procs :: "proc list"
  cur :: nat
  initproc :: "nat option"
  nextpid :: u32
  ticks :: u32
  forkret_addr :: u64
  cons_out :: string

text \<open>\<open>&p->trapframe->f\<close> for the field at the given offset.\<close>

definition tf_kernel_satp :: u64 where [simp]: "tf_kernel_satp = 0"
definition tf_kernel_sp :: u64 where [simp]: "tf_kernel_sp = 8"
definition tf_kernel_trap :: u64 where [simp]: "tf_kernel_trap = 16"
definition tf_epc :: u64 where [simp]: "tf_epc = 24"
definition tf_kernel_hartid :: u64 where [simp]: "tf_kernel_hartid = 32"
definition tf_sp :: u64 where [simp]: "tf_sp = 48"
definition tf_a :: "nat \<Rightarrow> u64" where "tf_a n = 112 + 8 * of_nat n"

definition pget :: "(proc \<Rightarrow> 'a) \<Rightarrow> nat \<Rightarrow> ('s kproc_scheme, 'a) kop" where
  "pget f i = kget (\<lambda>s. f (procs s ! i))"

definition pmod :: "(proc \<Rightarrow> proc) \<Rightarrow> nat \<Rightarrow> ('s kproc_scheme, unit) kop" where
  "pmod f i = kmod (\<lambda>s. s\<lparr>procs := (procs s)[i := f (procs s ! i)]\<rparr>)"

definition myproc :: "('s kproc_scheme, nat) kop" where
  "myproc = kget cur"

text \<open>Formatted output to the console; undefined behaviour in \<open>printf\<close> stops the model.\<close>

definition kprintf :: "string \<Rightarrow> va list \<Rightarrow> ('s kproc_scheme, unit) kop" where
  "kprintf fmt as =
     (case printf fmt as of
        None \<Rightarrow> kpanic ''printf: undefined behaviour''
      | Some t \<Rightarrow> kmod (\<lambda>s. s\<lparr>cons_out := cons_out s @ t\<rparr>))"

subsection \<open>The table\<close>

definition procinit :: "('s kproc_scheme, unit) kop" where
  "procinit = kmod (\<lambda>s. s\<lparr>procs :=
     map (\<lambda>i. (procs s ! i)\<lparr>state := UNUSED, kstack := KSTACK (of_nat i)\<rparr>) [0..<NPROC]\<rparr>)"

definition allocpid :: "('s kproc_scheme, u32) kop" where
  "allocpid =
     kbind (kget nextpid) (\<lambda>pid.
     kseq (kmod (\<lambda>s. s\<lparr>nextpid := nextpid s + 1\<rparr>)) (kret pid))"

definition proc_pagetable :: "nat \<Rightarrow> ('s kproc_scheme, u64) kop" where
  "proc_pagetable p =
     kbind uvmcreate (\<lambda>pt.
     if pt = 0 then kret 0
     else kbind (kget trampoline) (\<lambda>tr.
       kbind (mappages pt TRAMPOLINE PGSIZE tr (PTE_R OR PTE_X)) (\<lambda>r.
       if r < 0 then kseq (uvmfree pt 0) (kret 0)
       else kbind (pget trapframe p) (\<lambda>tf.
         kbind (mappages pt TRAPFRAME PGSIZE tf (PTE_R OR PTE_W)) (\<lambda>r.
         if r < 0 then kseq (uvmunmap pt TRAMPOLINE 1 False) (kseq (uvmfree pt 0) (kret 0))
         else kret pt)))))"

definition proc_freepagetable :: "u64 \<Rightarrow> u64 \<Rightarrow> ('s kmem_scheme, unit) kop" where
  "proc_freepagetable pt sz =
     kseq (uvmunmap pt TRAMPOLINE 1 False)
    (kseq (uvmunmap pt TRAPFRAME 1 False)
     (uvmfree pt sz))"

definition freeproc :: "nat \<Rightarrow> ('s kproc_scheme, unit) kop" where
  "freeproc p =
     kbind (pget trapframe p) (\<lambda>tf.
     kseq (if tf \<noteq> 0 then kfree tf else kret ())
    (kseq (pmod (\<lambda>p. p\<lparr>trapframe := 0\<rparr>) p)
    (kbind (pget pagetable p) (\<lambda>pt.
     kbind (pget psz p) (\<lambda>sz.
     kseq (if pt \<noteq> 0 then proc_freepagetable pt sz else kret ())
     (pmod (\<lambda>p. p\<lparr>pagetable := 0, psz := 0, pid := 0, parent := None, pname := (pname p)[0 := 0],
        wchan := None, killedf := False, xstate := 0, state := UNUSED\<rparr>) p))))))"

definition allocproc :: "('s kproc_scheme, nat option) kop" where
  "allocproc =
     kbind (kget (\<lambda>s. find_idx (\<lambda>p. state p = UNUSED) (procs s))) (\<lambda>slot.
     case slot of
       None \<Rightarrow> kret None
     | Some p \<Rightarrow>
         kbind allocpid (\<lambda>n.
         kseq (pmod (\<lambda>q. q\<lparr>pid := n, state := USED\<rparr>) p)
        (kbind kalloc (\<lambda>tf.
         kseq (pmod (\<lambda>q. q\<lparr>trapframe := tf\<rparr>) p)
         (if tf = 0 then kseq (freeproc p) (kret None)
          else kbind (proc_pagetable p) (\<lambda>pt.
            kseq (pmod (\<lambda>q. q\<lparr>pagetable := pt\<rparr>) p)
            (if pt = 0 then kseq (freeproc p) (kret None)
             else kbind (kget forkret_addr) (\<lambda>fr.
               kseq (pmod (\<lambda>q. q\<lparr>pcontext := \<lparr>ctx_ra = fr, ctx_sp = kstack q + PGSIZE, sregs = replicate 12 0\<rparr>\<rparr>) p)
               (kret (Some p))))))))))"

definition growproc :: "u32 \<Rightarrow> ('s kproc_scheme, int) kop" where
  "growproc n =
     kbind myproc (\<lambda>p.
     kbind (pget psz p) (\<lambda>sz.
     kbind (pget pagetable p) (\<lambda>pt.
     if 0 < sint n then
       kbind (uvmalloc pt sz (sz + scast n) PTE_W) (\<lambda>sz.
       if sz = 0 then kret (-1) else kseq (pmod (\<lambda>q. q\<lparr>psz := sz\<rparr>) p) (kret 0))
     else if sint n < 0 then
       kbind (uvmdealloc pt sz (sz + scast n)) (\<lambda>sz.
       kseq (pmod (\<lambda>q. q\<lparr>psz := sz\<rparr>) p) (kret 0))
     else kseq (pmod (\<lambda>q. q\<lparr>psz := sz\<rparr>) p) (kret 0))))"

subsection \<open>Waking, killing, reaping\<close>

definition wake :: "nat \<Rightarrow> chan \<Rightarrow> proc list \<Rightarrow> proc list" where
  "wake me c ps =
     map (\<lambda>(i, p). if i \<noteq> me \<and> state p = SLEEPING \<and> wchan p = Some c then p\<lparr>state := RUNNABLE\<rparr> else p)
       (enumerate 0 ps)"

definition wakeup :: "chan \<Rightarrow> ('s kproc_scheme, unit) kop" where
  "wakeup c = kmod (\<lambda>s. s\<lparr>procs := wake (cur s) c (procs s)\<rparr>)"

definition kill :: "u32 \<Rightarrow> ('s kproc_scheme, int) kop" where
  "kill n =
     kbind (kget (\<lambda>s. find_idx (\<lambda>p. pid p = n) (procs s))) (\<lambda>slot.
     case slot of
       None \<Rightarrow> kret (-1)
     | Some p \<Rightarrow>
         kseq (pmod (\<lambda>q. q\<lparr>killedf := True, state := (if state q = SLEEPING then RUNNABLE else state q)\<rparr>) p)
         (kret 0))"

definition setkilled :: "nat \<Rightarrow> ('s kproc_scheme, unit) kop" where
  "setkilled p = pmod (\<lambda>q. q\<lparr>killedf := True\<rparr>) p"

definition killed :: "nat \<Rightarrow> ('s kproc_scheme, bool) kop" where
  "killed p = pget killedf p"

primrec reparent_loop :: "nat list \<Rightarrow> nat \<Rightarrow> ('s kproc_scheme, unit) kop" where
  "reparent_loop [] p = kret ()"
| "reparent_loop (pp # pps) p =
     kbind (pget parent pp) (\<lambda>par.
     kseq (if par = Some p then
             kbind (kget initproc) (\<lambda>ip.
             kseq (pmod (\<lambda>q. q\<lparr>parent := ip\<rparr>) pp)
             (case ip of None \<Rightarrow> kret () | Some i \<Rightarrow> wakeup (Chan_proc i)))
           else kret ())
     (reparent_loop pps p))"

definition reparent :: "nat \<Rightarrow> ('s kproc_scheme, unit) kop" where
  "reparent p = reparent_loop [0..<NPROC] p"

text \<open>
  One round of \<open>wait\<close> over the table: a zombie child is reaped; with children but no zombie the
  caller sleeps on its own address, and comes back to the beginning of the round.
\<close>

primrec wait_loop :: "nat list \<Rightarrow> nat \<Rightarrow> u64 \<Rightarrow> bool \<Rightarrow> ('s kproc_scheme, u32) kop" where
  "wait_loop [] p addr havekids =
     kbind (killed p) (\<lambda>k. if \<not> havekids \<or> k then kret (-1) else kblock (Chan_proc p))"
| "wait_loop (pp # pps) p addr havekids =
     kbind (pget parent pp) (\<lambda>par.
     if par = Some p then
       kbind (pget state pp) (\<lambda>st.
       if st = ZOMBIE then
         kbind (pget pid pp) (\<lambda>n.
         kbind (pget xstate pp) (\<lambda>xs.
         kbind (pget pagetable p) (\<lambda>pt.
         kbind (if addr \<noteq> 0 then copyout pt addr (le_bytes 4 xs) else kret 0) (\<lambda>r.
         if r < 0 then kret (-1)
         else kseq (freeproc pp) (kret n)))))
       else wait_loop pps p addr True)
     else wait_loop pps p addr havekids)"

definition wait :: "u64 \<Rightarrow> ('s kproc_scheme, u32) kop" where
  "wait addr = kbind myproc (\<lambda>p. wait_loop [0..<NPROC] p addr False)"

subsection \<open>Copying to and from either side, listings\<close>

text \<open>
  A kernel buffer is given or returned as its bytes: a copy to a kernel destination always
  succeeds, and the caller keeps the bytes.
\<close>

datatype udst = UserDst u64 | KernDst
datatype usrc = UserSrc u64 | KernSrc "u8 list"

definition either_copyout :: "udst \<Rightarrow> u8 list \<Rightarrow> ('s kproc_scheme, int) kop" where
  "either_copyout dst src =
     kbind myproc (\<lambda>p.
     case dst of
       UserDst a \<Rightarrow> kbind (pget pagetable p) (\<lambda>pt. copyout pt a src)
     | KernDst \<Rightarrow> kret 0)"

definition either_copyin :: "usrc \<Rightarrow> nat \<Rightarrow> ('s kproc_scheme, int \<times> u8 list) kop" where
  "either_copyin src len =
     kbind myproc (\<lambda>p.
     case src of
       UserSrc a \<Rightarrow> kbind (pget pagetable p) (\<lambda>pt. copyin pt a len)
     | KernSrc bs \<Rightarrow> kret (0, take len bs))"

fun state_name :: "procstate \<Rightarrow> string" where
  "state_name UNUSED = ''unused''"
| "state_name USED = ''used''"
| "state_name SLEEPING = ''sleep ''"
| "state_name RUNNABLE = ''runble''"
| "state_name RUNNING = ''run   ''"
| "state_name ZOMBIE = ''zombie''"

text \<open>A byte buffer read as a C string.\<close>

definition cstr :: "u8 list \<Rightarrow> string" where
  "cstr bs = map (\<lambda>b. char_of (unat b)) (takeWhile (\<lambda>b. b \<noteq> 0) bs)"

primrec procdump_loop :: "proc list \<Rightarrow> ('s kproc_scheme, unit) kop" where
  "procdump_loop [] = kret ()"
| "procdump_loop (p # ps) =
     kseq (if state p = UNUSED then kret ()
           else kseq (kprintf ''%d %s %s'' [VInt (pid p), VStr (Some (state_name (state p))), VStr (Some (cstr (pname p)))])
                (kprintf [CHR 0x0A] []))
     (procdump_loop ps)"

definition procdump :: "('s kproc_scheme, unit) kop" where
  "procdump = kseq (kprintf [CHR 0x0A] []) (kbind (kget procs) procdump_loop)"

definition count_proc :: "'s kproc_scheme \<Rightarrow> u64" where
  "count_proc s = of_nat (length (filter (\<lambda>p. state p \<noteq> UNUSED) (procs s)))"

end
