(* ===== verification/Bio.thy ===== *)
theory Bio
  imports Proc
begin

text \<open>
  The buffer cache, \<^verbatim>\<open>kernel/bio.c\<close>. A buffer is an index into \<open>bcache.buf\<close>; index \<open>NBUF\<close> is the list
  head, so \<open>prev\<close> and \<open>next\<close> are indices as well and the recency list is a doubly linked ring
  through them. The disk is a function from block numbers to blocks (the driver ignores \<open>b->dev\<close>);
  \<open>disk_transfer\<close> is the completed request that \<open>virtio_disk_rw\<close> waits for. \<open>bcache.lock\<close> is an
  atomicity boundary; the sleep lock of a buffer is explicit, and a process that finds it taken
  has outcome \<open>Blocked\<close>.
\<close>

section \<open>Definitions\<close>

definition BSIZE :: nat where [simp]: "BSIZE = 1024"

record buf =
  valid :: bool
  diskf :: bool
  dev :: u32
  blockno :: u32
  block :: sleeplock
  refcnt :: u32
  bprev :: nat
  bnext :: nat
  bdata :: "u8 list"

record kbio = kproc +
  bufs :: "buf list"
  disk :: "u32 \<Rightarrow> u8 list"

definition bmod :: "(buf \<Rightarrow> buf) \<Rightarrow> nat \<Rightarrow> ('s kbio_scheme, unit) kop" where
  "bmod f i = kmod (\<lambda>s. s\<lparr>bufs := (bufs s)[i := f (bufs s ! i)]\<rparr>)"

definition bfld :: "(buf \<Rightarrow> 'a) \<Rightarrow> nat \<Rightarrow> ('s kbio_scheme, 'a) kop" where
  "bfld f i = kget (\<lambda>s. f (bufs s ! i))"

text \<open>Insertion right after the head, as \<open>binit\<close> and \<open>brelse\<close> do it.\<close>

definition link_front :: "nat \<Rightarrow> buf list \<Rightarrow> buf list" where
  "link_front b bs =
     (let bs = bs[b := (bs ! b)\<lparr>bnext := bnext (bs ! NBUF), bprev := NBUF\<rparr>];
          first = bnext (bs ! NBUF);
          bs = bs[first := (bs ! first)\<lparr>bprev := b\<rparr>]
      in bs[NBUF := (bs ! NBUF)\<lparr>bnext := b\<rparr>])"

definition unlink_buf :: "nat \<Rightarrow> buf list \<Rightarrow> buf list" where
  "unlink_buf b bs =
     (let nx = bnext (bs ! b); pv = bprev (bs ! b);
          bs = bs[nx := (bs ! nx)\<lparr>bprev := pv\<rparr>]
      in bs[pv := (bs ! pv)\<lparr>bnext := nx\<rparr>])"

definition binit :: "('s kbio_scheme, unit) kop" where
  "binit = kmod (\<lambda>s. s\<lparr>bufs :=
     fold (\<lambda>b bs. (link_front b bs)[b := (link_front b bs ! b)\<lparr>block := initsleeplock ''buffer''\<rparr>]) [0..<NBUF]
       ((bufs s)[NBUF := (bufs s ! NBUF)\<lparr>bprev := NBUF, bnext := NBUF\<rparr>])\<rparr>)"

text \<open>Follow the list until the test holds or the head is back; the fuel bounds a broken list only.\<close>

fun bscan :: "nat \<Rightarrow> (buf \<Rightarrow> bool) \<Rightarrow> (buf \<Rightarrow> nat) \<Rightarrow> buf list \<Rightarrow> nat \<Rightarrow> nat option outcome" where
  "bscan 0 P nx bs b = Diverge"
| "bscan (Suc n) P nx bs b =
     (if b = NBUF then Ret None
      else if P (bs ! b) then Ret (Some b)
      else bscan n P nx bs (nx (bs ! b)))"

definition bfind :: "(buf \<Rightarrow> bool) \<Rightarrow> (buf \<Rightarrow> nat) \<Rightarrow> ('s kbio_scheme, nat option) kop" where
  "bfind P nx = (\<lambda>s. obind (bscan (NBUF + 1) P nx (bufs s) (nx (bufs s ! NBUF))) (\<lambda>r. Ret (r, s)))"

text \<open>\<open>acquiresleep(&b->lock)\<close> by the current process.\<close>

definition block_acquire :: "nat \<Rightarrow> ('s kbio_scheme, unit) kop" where
  "block_acquire b =
     kbind myproc (\<lambda>p. kbind (pget pid p) (\<lambda>n. kbind (bfld block b) (\<lambda>l.
     case acquiresleep (uint n) (Chan_buf_lock b) l of
       Ret l' \<Rightarrow> bmod (\<lambda>x. x\<lparr>block := l'\<rparr>) b
     | Panic e \<Rightarrow> kpanic e | Blocked c \<Rightarrow> kblock c | Diverge \<Rightarrow> (\<lambda>s. Diverge))))"

definition bget :: "u32 \<Rightarrow> u32 \<Rightarrow> ('s kbio_scheme, nat) kop" where
  "bget d n =
     kbind (bfind (\<lambda>b. dev b = d \<and> blockno b = n) bnext) (\<lambda>r.
     case r of
       Some b \<Rightarrow>
         kseq (bmod (\<lambda>x. x\<lparr>refcnt := refcnt x + 1\<rparr>) b)
        (kseq (block_acquire b) (kret b))
     | None \<Rightarrow>
         kbind (bfind (\<lambda>b. refcnt b = 0) bprev) (\<lambda>r.
         case r of
           Some b \<Rightarrow>
             kseq (bmod (\<lambda>x. x\<lparr>dev := d, blockno := n, valid := False, refcnt := 1\<rparr>) b)
            (kseq (block_acquire b) (kret b))
         | None \<Rightarrow> kpanic ''bget: no buffers''))"

text \<open>What the device does with the request for buffer \<open>b\<close>, until \<open>b->disk\<close> is clear again.\<close>

definition disk_transfer :: "nat \<Rightarrow> bool \<Rightarrow> ('s kbio_scheme, unit) kop" where
  "disk_transfer b write =
     (if write then kmod (\<lambda>s. s\<lparr>disk := (disk s)(blockno (bufs s ! b) := bdata (bufs s ! b))\<rparr>)
      else kmod (\<lambda>s. s\<lparr>bufs := (bufs s)[b := (bufs s ! b)\<lparr>bdata := disk s (blockno (bufs s ! b))\<rparr>]\<rparr>))"

definition bread :: "u32 \<Rightarrow> u32 \<Rightarrow> ('s kbio_scheme, nat) kop" where
  "bread d n =
     kbind (bget d n) (\<lambda>b.
     kbind (bfld valid b) (\<lambda>v.
     kseq (if \<not> v then kseq (disk_transfer b False) (bmod (\<lambda>x. x\<lparr>valid := True\<rparr>) b) else kret ())
     (kret b)))"

definition bholding :: "nat \<Rightarrow> ('s kbio_scheme, bool) kop" where
  "bholding b =
     kbind myproc (\<lambda>p. kbind (pget pid p) (\<lambda>n. kbind (bfld block b) (\<lambda>l. kret (holdingsleep (uint n) l))))"

definition bwrite :: "nat \<Rightarrow> ('s kbio_scheme, unit) kop" where
  "bwrite b =
     kbind (bholding b) (\<lambda>h.
     if \<not> h then kpanic ''bwrite'' else disk_transfer b True)"

definition brelse :: "nat \<Rightarrow> ('s kbio_scheme, unit) kop" where
  "brelse b =
     kbind (bholding b) (\<lambda>h.
     if \<not> h then kpanic ''brelse''
     else kseq (bmod (\<lambda>x. x\<lparr>block := releasesleep (block x)\<rparr>) b)
         (kseq (wakeup (Chan_buf_lock b))
         (kseq (bmod (\<lambda>x. x\<lparr>refcnt := refcnt x - 1\<rparr>) b)
         (kbind (bfld refcnt b) (\<lambda>n.
          if n = 0 then kmod (\<lambda>s. s\<lparr>bufs := link_front b (unlink_buf b (bufs s))\<rparr>) else kret ())))))"

definition bpin :: "nat \<Rightarrow> ('s kbio_scheme, unit) kop" where
  "bpin b = bmod (\<lambda>x. x\<lparr>refcnt := refcnt x + 1\<rparr>) b"

definition bunpin :: "nat \<Rightarrow> ('s kbio_scheme, unit) kop" where
  "bunpin b = bmod (\<lambda>x. x\<lparr>refcnt := refcnt x - 1\<rparr>) b"

text \<open>Changing the data of a buffer through a pointer into it.\<close>

definition bupd :: "nat \<Rightarrow> (u8 list \<Rightarrow> u8 list) \<Rightarrow> ('s kbio_scheme, unit) kop" where
  "bupd b f = bmod (\<lambda>x. x\<lparr>bdata := f (bdata x)\<rparr>) b"

end
