(* ===== verification/Log.thy ===== *)
theory Log
  imports Bio
begin

text \<open>
  The write-ahead log, \<^verbatim>\<open>kernel/log.c\<close>: the transaction in memory (\<open>log.lh\<close>), its copy on disk, and
  the four phases of a commit, all through the buffer cache.
\<close>

section \<open>Definitions\<close>

record logst =
  start :: u32
  lsize :: u32
  outstanding :: int
  committing :: bool
  ldev :: u32
  lh_n :: int
  lh_block :: "u32 list"

record klog = kbio +
  log :: logst

text \<open>Integers inside a block.\<close>

definition get32 :: "u8 list \<Rightarrow> nat \<Rightarrow> u32" where
  "get32 bs off = le_word (take 4 (drop off bs))"

definition put_bytes :: "nat \<Rightarrow> u8 list \<Rightarrow> u8 list \<Rightarrow> u8 list" where
  "put_bytes off v bs = take off bs @ v @ drop (off + length v) bs"

definition put32 :: "nat \<Rightarrow> u32 \<Rightarrow> u8 list \<Rightarrow> u8 list" where
  "put32 off v bs = put_bytes off (le_bytes 4 v) bs"

definition lmod :: "(logst \<Rightarrow> logst) \<Rightarrow> ('s klog_scheme, unit) kop" where
  "lmod f = kmod (\<lambda>s. s\<lparr>log := f (log s)\<rparr>)"

subsection \<open>On-disk header\<close>

text \<open>\<open>struct logheader\<close>: the count, then the block numbers.\<close>

primrec head_blocks :: "nat \<Rightarrow> nat \<Rightarrow> u8 list \<Rightarrow> u32 list \<Rightarrow> u32 list" where
  "head_blocks 0 i bs bl = bl"
| "head_blocks (Suc k) i bs bl = head_blocks k (Suc i) bs (bl[i := get32 bs (4 + 4 * i)])"

definition read_head :: "('s klog_scheme, unit) kop" where
  "read_head =
     kbind (kget (\<lambda>s. (ldev (log s), start (log s)))) (\<lambda>(d, st).
     kbind (bread d st) (\<lambda>b.
     kbind (bfld bdata b) (\<lambda>bs.
     kseq (lmod (\<lambda>l. l\<lparr>lh_n := sint (get32 bs 0),
        lh_block := head_blocks (nat (sint (get32 bs 0))) 0 bs (lh_block l)\<rparr>))
     (brelse b))))"

primrec put_blocks :: "nat \<Rightarrow> nat \<Rightarrow> u32 list \<Rightarrow> u8 list \<Rightarrow> u8 list" where
  "put_blocks 0 i bl bs = bs"
| "put_blocks (Suc k) i bl bs = put_blocks k (Suc i) bl (put32 (4 + 4 * i) (bl ! i) bs)"

definition write_head :: "('s klog_scheme, unit) kop" where
  "write_head =
     kbind (kget log) (\<lambda>l.
     kbind (bread (ldev l) (start l)) (\<lambda>b.
     kseq (bupd b (\<lambda>bs. put_blocks (nat (lh_n l)) 0 (lh_block l) (put32 0 (word_of_int (lh_n l)) bs)))
    (kseq (bwrite b)
     (brelse b))))"

subsection \<open>Transfers between log and home blocks\<close>

primrec install_loop :: "nat \<Rightarrow> nat \<Rightarrow> bool \<Rightarrow> ('s klog_scheme, unit) kop" where
  "install_loop 0 tail recovering = kret ()"
| "install_loop (Suc k) tail recovering =
     kbind (kget log) (\<lambda>l.
     kbind (bread (ldev l) (start l + of_nat tail + 1)) (\<lambda>lbuf.
     kbind (bread (ldev l) (lh_block l ! tail)) (\<lambda>dbuf.
     kbind (bfld bdata lbuf) (\<lambda>bs.
     kseq (bupd dbuf (\<lambda>_. bs))
    (kseq (bwrite dbuf)
    (kseq (if \<not> recovering then bunpin dbuf else kret ())
    (kseq (brelse lbuf)
    (kseq (brelse dbuf)
     (install_loop k (Suc tail) recovering)))))))))"

definition install_trans :: "bool \<Rightarrow> ('s klog_scheme, unit) kop" where
  "install_trans recovering = kbind (kget (\<lambda>s. lh_n (log s))) (\<lambda>n. install_loop (nat n) 0 recovering)"

primrec write_log_loop :: "nat \<Rightarrow> nat \<Rightarrow> ('s klog_scheme, unit) kop" where
  "write_log_loop 0 tail = kret ()"
| "write_log_loop (Suc k) tail =
     kbind (kget log) (\<lambda>l.
     kbind (bread (ldev l) (start l + of_nat tail + 1)) (\<lambda>tob.
     kbind (bread (ldev l) (lh_block l ! tail)) (\<lambda>from.
     kbind (bfld bdata from) (\<lambda>bs.
     kseq (bupd tob (\<lambda>_. bs))
    (kseq (bwrite tob)
    (kseq (brelse from)
    (kseq (brelse tob)
     (write_log_loop k (Suc tail)))))))))"

definition write_log :: "('s klog_scheme, unit) kop" where
  "write_log = kbind (kget (\<lambda>s. lh_n (log s))) (\<lambda>n. write_log_loop (nat n) 0)"

definition recover_from_log :: "('s klog_scheme, unit) kop" where
  "recover_from_log =
     kseq read_head
    (kseq (install_trans True)
    (kseq (lmod (\<lambda>l. l\<lparr>lh_n := 0\<rparr>))
     write_head))"

definition commit :: "('s klog_scheme, unit) kop" where
  "commit =
     kbind (kget (\<lambda>s. lh_n (log s))) (\<lambda>n.
     if n > 0 then
       kseq write_log
      (kseq write_head
      (kseq (install_trans False)
      (kseq (lmod (\<lambda>l. l\<lparr>lh_n := 0\<rparr>))
       write_head)))
     else kret ())"

subsection \<open>Operations\<close>

text \<open>\<open>sizeof(struct logheader)\<close> is 124, below \<open>BSIZE\<close>, so the panic of \<open>initlog\<close> is not reached.\<close>

definition initlog :: "u32 \<Rightarrow> u32 \<Rightarrow> u32 \<Rightarrow> ('s klog_scheme, unit) kop" where
  "initlog d logstart nlog =
     (if 4 + 4 * LOGSIZE \<ge> BSIZE then kpanic ''initlog: too big logheader''
      else kseq (lmod (\<lambda>l. l\<lparr>start := logstart, lsize := nlog, ldev := d\<rparr>))
           recover_from_log)"

definition begin_op :: "('s klog_scheme, unit) kop" where
  "begin_op =
     kbind (kget log) (\<lambda>l.
     if committing l then kblock Chan_log
     else if lh_n l + (outstanding l + 1) * int MAXOPBLOCKS > int LOGSIZE then kblock Chan_log
     else lmod (\<lambda>l. l\<lparr>outstanding := outstanding l + 1\<rparr>))"

definition end_op :: "('s klog_scheme, unit) kop" where
  "end_op =
     kseq (lmod (\<lambda>l. l\<lparr>outstanding := outstanding l - 1\<rparr>))
    (kbind (kget log) (\<lambda>l.
     if committing l then kpanic ''log.committing''
     else if outstanding l = 0 then
       kseq (lmod (\<lambda>l. l\<lparr>committing := True\<rparr>))
      (kseq commit
      (kseq (lmod (\<lambda>l. l\<lparr>committing := False\<rparr>))
       (wakeup Chan_log)))
     else wakeup Chan_log))"

definition log_write :: "nat \<Rightarrow> ('s klog_scheme, unit) kop" where
  "log_write b =
     kbind (kget log) (\<lambda>l.
     if lh_n l \<ge> int LOGSIZE \<or> lh_n l \<ge> sint (lsize l) - 1 then kpanic ''too big a transaction''
     else if outstanding l < 1 then kpanic ''log_write outside of trans''
     else kbind (bfld blockno b) (\<lambda>n.
       let i = (case find_idx (\<lambda>x. x = n) (take (nat (lh_n l)) (lh_block l)) of Some i \<Rightarrow> i | None \<Rightarrow> nat (lh_n l))
       in kseq (lmod (\<lambda>l. l\<lparr>lh_block := (lh_block l)[i := n]\<rparr>))
          (if int i = lh_n l then kseq (bpin b) (lmod (\<lambda>l. l\<lparr>lh_n := lh_n l + 1\<rparr>)) else kret ())))"

end
