(* ===== verification/Fs.thy ===== *)
theory Fs
  imports Log
begin

text \<open>
  The file system below system calls, \<^verbatim>\<open>kernel/fs.c\<close>: block allocator, inodes, inode content,
  directories and path names. An in-memory inode is a slot of \<open>itable\<close>; on-disk structures are
  read from and written to the bytes of buffers. \<open>itable.lock\<close> is an atomicity boundary, the sleep
  lock of an inode is explicit. Kernel buffers that \<open>readi\<close> fills (\<open>dst\<close> in the kernel) are returned
  as bytes. Offsets and counts inside the loops are naturals: the checks before the loops exclude
  wrap-around.
\<close>

section \<open>On-disk formats\<close>

definition FSMAGIC :: u32 where [simp]: "FSMAGIC = 0x10203040"
definition ROOTINO :: u32 where [simp]: "ROOTINO = 1"
definition ROOTDEV :: u32 where [simp]: "ROOTDEV = 1"
definition NDIRECT :: nat where [simp]: "NDIRECT = 12"
definition NINDIRECT :: nat where [simp]: "NINDIRECT = BSIZE div 4"
definition MAXFILE :: nat where [simp]: "MAXFILE = NDIRECT + NINDIRECT"
definition DIRSIZ :: nat where [simp]: "DIRSIZ = 14"
definition T_DIR :: u16 where [simp]: "T_DIR = 1"
definition T_FILE :: u16 where [simp]: "T_FILE = 2"
definition T_DEVICE :: u16 where [simp]: "T_DEVICE = 3"

record superblock =
  magic :: u32
  sbsize :: u32
  nblocks :: u32
  ninodes :: u32
  nlog :: u32
  logstart :: u32
  inodestart :: u32
  bmapstart :: u32

record dinode =
  dtype :: u16
  dmajor :: u16
  dminor :: u16
  dnlink :: u16
  dsize :: u32
  daddrs :: "u32 list"

definition IPB :: nat where [simp]: "IPB = BSIZE div 64"
definition BPB :: nat where [simp]: "BPB = BSIZE * 8"

definition IBLOCK :: "u32 \<Rightarrow> superblock \<Rightarrow> u32" where
  "IBLOCK i sb = i div of_nat IPB + inodestart sb"

definition BBLOCK :: "u32 \<Rightarrow> superblock \<Rightarrow> u32" where
  "BBLOCK b sb = b div of_nat BPB + bmapstart sb"

definition get16 :: "u8 list \<Rightarrow> nat \<Rightarrow> u16" where
  "get16 bs off = le_word (take 2 (drop off bs))"

definition get_dinode :: "u8 list \<Rightarrow> nat \<Rightarrow> dinode" where
  "get_dinode bs off = \<lparr>dtype = get16 bs off, dmajor = get16 bs (off + 2), dminor = get16 bs (off + 4),
     dnlink = get16 bs (off + 6), dsize = get32 bs (off + 8),
     daddrs = map (\<lambda>i. get32 bs (off + 12 + 4 * i)) [0..<NDIRECT + 1]\<rparr>"

definition dinode_bytes :: "dinode \<Rightarrow> u8 list" where
  "dinode_bytes d = le_bytes 2 (dtype d) @ le_bytes 2 (dmajor d) @ le_bytes 2 (dminor d) @
     le_bytes 2 (dnlink d) @ le_bytes 4 (dsize d) @ concat (map (le_bytes 4) (daddrs d))"

text \<open>Byte offset of inode \<open>inum\<close> in its block.\<close>

definition inode_off :: "u32 \<Rightarrow> nat" where
  "inode_off inum = 64 * (unat inum mod IPB)"

record inode =
  idev :: u32
  inum :: u32
  iref :: int
  ilk :: sleeplock
  ivalid :: bool
  itype :: u16
  imajor :: u16
  iminor :: u16
  inlink :: u16
  isize :: u32
  addrs :: "u32 list"

record kfs = klog +
  sb :: superblock
  inodes :: "inode list"

definition imod :: "(inode \<Rightarrow> inode) \<Rightarrow> nat \<Rightarrow> ('s kfs_scheme, unit) kop" where
  "imod f i = kmod (\<lambda>s. s\<lparr>inodes := (inodes s)[i := f (inodes s ! i)]\<rparr>)"

definition ifld :: "(inode \<Rightarrow> 'a) \<Rightarrow> nat \<Rightarrow> ('s kfs_scheme, 'a) kop" where
  "ifld f i = kget (\<lambda>s. f (inodes s ! i))"

section \<open>Blocks\<close>

definition readsb :: "u32 \<Rightarrow> ('s kfs_scheme, unit) kop" where
  "readsb d =
     kbind (bread d 1) (\<lambda>bp.
     kbind (bfld bdata bp) (\<lambda>bs.
     kseq (kmod (\<lambda>s. s\<lparr>sb := \<lparr>magic = get32 bs 0, sbsize = get32 bs 4, nblocks = get32 bs 8,
        ninodes = get32 bs 12, nlog = get32 bs 16, logstart = get32 bs 20, inodestart = get32 bs 24,
        bmapstart = get32 bs 28\<rparr>\<rparr>))
     (brelse bp)))"

definition fsinit :: "u32 \<Rightarrow> ('s kfs_scheme, unit) kop" where
  "fsinit d =
     kseq (readsb d)
    (kbind (kget sb) (\<lambda>b.
     if magic b \<noteq> FSMAGIC then kpanic ''invalid file system''
     else initlog d (logstart b) (nlog b)))"

definition bzero :: "u32 \<Rightarrow> u32 \<Rightarrow> ('s kfs_scheme, unit) kop" where
  "bzero d bno =
     kbind (bread d bno) (\<lambda>bp.
     kseq (bupd bp (\<lambda>_. replicate BSIZE 0))
    (kseq (log_write bp)
     (brelse bp)))"

definition bit_mask :: "nat \<Rightarrow> u8" where
  "bit_mask bi = push_bit (bi mod 8) 1"

definition bit_free :: "u8 list \<Rightarrow> nat \<Rightarrow> bool" where
  "bit_free bs bi \<longleftrightarrow> bs ! (bi div 8) AND bit_mask bi = 0"

definition set_bit_at :: "nat \<Rightarrow> u8 list \<Rightarrow> u8 list" where
  "set_bit_at bi bs = bs[bi div 8 := bs ! (bi div 8) OR bit_mask bi]"

definition clear_bit_at :: "nat \<Rightarrow> u8 list \<Rightarrow> u8 list" where
  "clear_bit_at bi bs = bs[bi div 8 := bs ! (bi div 8) AND NOT (bit_mask bi)]"

text \<open>One round of the outer loop per bitmap block; \<open>b\<close> is a multiple of \<open>BPB\<close>.\<close>

primrec balloc_loop :: "nat list \<Rightarrow> u32 \<Rightarrow> ('s kfs_scheme, u32) kop" where
  "balloc_loop [] d = kseq (kprintf (''balloc: out of blocks'' @ [CHR 0x0A]) []) (kret 0)"
| "balloc_loop (b # bl) d =
     kbind (kget sb) (\<lambda>sb.
     kbind (bread d (BBLOCK (of_nat b) sb)) (\<lambda>bp.
     kbind (bfld bdata bp) (\<lambda>bs.
     case find (bit_free bs) [0..<min BPB (unat (sbsize sb) - b)] of
       Some bi \<Rightarrow>
         kseq (bupd bp (set_bit_at bi))
        (kseq (log_write bp)
        (kseq (brelse bp)
        (kseq (bzero d (of_nat (b + bi)))
         (kret (of_nat (b + bi))))))
     | None \<Rightarrow> kseq (brelse bp) (balloc_loop bl d))))"

definition balloc :: "u32 \<Rightarrow> ('s kfs_scheme, u32) kop" where
  "balloc d =
     kbind (kget (\<lambda>s. unat (sbsize (sb s)))) (\<lambda>sz.
     balloc_loop (map (\<lambda>k. k * BPB) [0..<(sz + BPB - 1) div BPB]) d)"

definition bfree :: "u32 \<Rightarrow> u32 \<Rightarrow> ('s kfs_scheme, unit) kop" where
  "bfree d b =
     kbind (kget sb) (\<lambda>sb.
     kbind (bread d (BBLOCK b sb)) (\<lambda>bp.
     kbind (bfld bdata bp) (\<lambda>bs.
     let bi = unat b mod BPB in
     if bit_free bs bi then kpanic ''freeing free block''
     else kseq (bupd bp (clear_bit_at bi))
         (kseq (log_write bp)
          (brelse bp)))))"

section \<open>Inodes\<close>

definition iinit :: "('s kfs_scheme, unit) kop" where
  "iinit = kmod (\<lambda>s. s\<lparr>inodes := map (\<lambda>i. i\<lparr>ilk := initsleeplock ''inode''\<rparr>) (inodes s)\<rparr>)"

definition iget :: "u32 \<Rightarrow> u32 \<Rightarrow> ('s kfs_scheme, nat) kop" where
  "iget d n =
     kbind (kget inodes) (\<lambda>is.
     case find_idx (\<lambda>ip. iref ip > 0 \<and> idev ip = d \<and> inum ip = n) is of
       Some ip \<Rightarrow> kseq (imod (\<lambda>i. i\<lparr>iref := iref i + 1\<rparr>) ip) (kret ip)
     | None \<Rightarrow>
         (case find_idx (\<lambda>ip. iref ip = 0) is of
            None \<Rightarrow> kpanic ''iget: no inodes''
          | Some ip \<Rightarrow>
              kseq (imod (\<lambda>i. i\<lparr>idev := d, inum := n, iref := 1, ivalid := False\<rparr>) ip) (kret ip)))"

definition idup :: "nat \<Rightarrow> ('s kfs_scheme, nat) kop" where
  "idup ip = kseq (imod (\<lambda>i. i\<lparr>iref := iref i + 1\<rparr>) ip) (kret ip)"

primrec ialloc_loop :: "u32 list \<Rightarrow> u32 \<Rightarrow> u16 \<Rightarrow> ('s kfs_scheme, nat option) kop" where
  "ialloc_loop [] d type = kseq (kprintf (''ialloc: no inodes'' @ [CHR 0x0A]) []) (kret None)"
| "ialloc_loop (n # ns) d type =
     kbind (kget sb) (\<lambda>sb.
     kbind (bread d (IBLOCK n sb)) (\<lambda>bp.
     kbind (bfld bdata bp) (\<lambda>bs.
     if dtype (get_dinode bs (inode_off n)) = 0 then
       kseq (bupd bp (put_bytes (inode_off n)
          (dinode_bytes \<lparr>dtype = type, dmajor = 0, dminor = 0, dnlink = 0, dsize = 0, daddrs = replicate 13 0\<rparr>)))
      (kseq (log_write bp)
      (kseq (brelse bp)
      (kbind (iget d n) (\<lambda>ip. kret (Some ip)))))
     else kseq (brelse bp) (ialloc_loop ns d type))))"

definition ialloc :: "u32 \<Rightarrow> u16 \<Rightarrow> ('s kfs_scheme, nat option) kop" where
  "ialloc d type =
     kbind (kget (\<lambda>s. unat (ninodes (sb s)))) (\<lambda>n. ialloc_loop (map of_nat [1..<n]) d type)"

definition iupdate :: "nat \<Rightarrow> ('s kfs_scheme, unit) kop" where
  "iupdate ip =
     kbind (kget sb) (\<lambda>sb.
     kbind (ifld (\<lambda>i. i) ip) (\<lambda>i.
     kbind (bread (idev i) (IBLOCK (inum i) sb)) (\<lambda>bp.
     kseq (bupd bp (put_bytes (inode_off (inum i))
        (dinode_bytes \<lparr>dtype = itype i, dmajor = imajor i, dminor = iminor i, dnlink = inlink i,
           dsize = isize i, daddrs = addrs i\<rparr>)))
    (kseq (log_write bp)
     (brelse bp)))))"

definition ilock_acquire :: "nat \<Rightarrow> ('s kfs_scheme, unit) kop" where
  "ilock_acquire ip =
     kbind myproc (\<lambda>p. kbind (pget pid p) (\<lambda>n. kbind (ifld ilk ip) (\<lambda>l.
     case acquiresleep (uint n) (Chan_inode_lock ip) l of
       Ret l' \<Rightarrow> imod (\<lambda>x. x\<lparr>ilk := l'\<rparr>) ip
     | Panic e \<Rightarrow> kpanic e | Blocked c \<Rightarrow> kblock c | Diverge \<Rightarrow> (\<lambda>s. Diverge))))"

definition ilock_release :: "nat \<Rightarrow> ('s kfs_scheme, unit) kop" where
  "ilock_release ip =
     kseq (imod (\<lambda>x. x\<lparr>ilk := releasesleep (ilk x)\<rparr>) ip) (wakeup (Chan_inode_lock ip))"

definition ilock :: "nat \<Rightarrow> ('s kfs_scheme, unit) kop" where
  "ilock ip =
     kbind (ifld iref ip) (\<lambda>r.
     if r < 1 then kpanic ''ilock''
     else kseq (ilock_acquire ip)
         (kbind (ifld (\<lambda>i. i) ip) (\<lambda>i.
          if ivalid i then kret ()
          else kbind (kget sb) (\<lambda>sb.
            kbind (bread (idev i) (IBLOCK (inum i) sb)) (\<lambda>bp.
            kbind (bfld bdata bp) (\<lambda>bs.
            let d = get_dinode bs (inode_off (inum i)) in
            kseq (imod (\<lambda>i. i\<lparr>itype := dtype d, imajor := dmajor d, iminor := dminor d, inlink := dnlink d,
                 isize := dsize d, addrs := daddrs d\<rparr>) ip)
           (kseq (brelse bp)
           (kseq (imod (\<lambda>i. i\<lparr>ivalid := True\<rparr>) ip)
            (if dtype d = 0 then kpanic ''ilock: no type'' else kret ())))))))))"

definition iholding :: "nat \<Rightarrow> ('s kfs_scheme, bool) kop" where
  "iholding ip =
     kbind myproc (\<lambda>p. kbind (pget pid p) (\<lambda>n. kbind (ifld ilk ip) (\<lambda>l. kret (holdingsleep (uint n) l))))"

definition iunlock :: "nat \<Rightarrow> ('s kfs_scheme, unit) kop" where
  "iunlock ip =
     kbind (iholding ip) (\<lambda>h.
     kbind (ifld iref ip) (\<lambda>r.
     if \<not> h \<or> r < 1 then kpanic ''iunlock'' else ilock_release ip))"

section \<open>Inode content\<close>

definition set_addr :: "nat \<Rightarrow> nat \<Rightarrow> u32 \<Rightarrow> ('s kfs_scheme, unit) kop" where
  "set_addr ip k a = imod (\<lambda>i. i\<lparr>addrs := (addrs i)[k := a]\<rparr>) ip"

text \<open>The address in slot \<open>k\<close> of \<open>ip->addrs\<close>, allocated when there is none.\<close>

definition addr_or_alloc :: "nat \<Rightarrow> nat \<Rightarrow> ('s kfs_scheme, u32) kop" where
  "addr_or_alloc ip k =
     kbind (ifld (\<lambda>i. addrs i ! k) ip) (\<lambda>a.
     if a \<noteq> 0 then kret a
     else kbind (ifld idev ip) (\<lambda>d.
       kbind (balloc d) (\<lambda>a.
       if a = 0 then kret 0 else kseq (set_addr ip k a) (kret a))))"

definition bmap :: "nat \<Rightarrow> nat \<Rightarrow> ('s kfs_scheme, u32) kop" where
  "bmap ip bn =
     (if bn < NDIRECT then addr_or_alloc ip bn
      else let bn = bn - NDIRECT in
      if bn < NINDIRECT then
        kbind (addr_or_alloc ip NDIRECT) (\<lambda>a.
        if a = 0 then kret 0
        else kbind (ifld idev ip) (\<lambda>d.
          kbind (bread d a) (\<lambda>bp.
          kbind (bfld (\<lambda>b. get32 (bdata b) (4 * bn)) bp) (\<lambda>a.
          if a \<noteq> 0 then kseq (brelse bp) (kret a)
          else kbind (balloc d) (\<lambda>a.
            kseq (if a \<noteq> 0 then kseq (bupd bp (put32 (4 * bn) a)) (log_write bp) else kret ())
           (kseq (brelse bp) (kret a)))))))
      else kpanic ''bmap: out of range'')"

primrec free_direct :: "nat list \<Rightarrow> nat \<Rightarrow> ('s kfs_scheme, unit) kop" where
  "free_direct [] ip = kret ()"
| "free_direct (k # ks) ip =
     kbind (ifld (\<lambda>i. addrs i ! k) ip) (\<lambda>a.
     kbind (ifld idev ip) (\<lambda>d.
     kseq (if a \<noteq> 0 then kseq (bfree d a) (set_addr ip k 0) else kret ())
     (free_direct ks ip)))"

primrec free_indirect :: "nat list \<Rightarrow> u32 \<Rightarrow> nat \<Rightarrow> ('s kfs_scheme, unit) kop" where
  "free_indirect [] d bp = kret ()"
| "free_indirect (j # js) d bp =
     kbind (bfld (\<lambda>b. get32 (bdata b) (4 * j)) bp) (\<lambda>a.
     kseq (if a \<noteq> 0 then bfree d a else kret ())
     (free_indirect js d bp))"

definition itrunc :: "nat \<Rightarrow> ('s kfs_scheme, unit) kop" where
  "itrunc ip =
     kseq (free_direct [0..<NDIRECT] ip)
    (kbind (ifld (\<lambda>i. addrs i ! NDIRECT) ip) (\<lambda>a.
     kbind (ifld idev ip) (\<lambda>d.
     kseq (if a \<noteq> 0 then
             kbind (bread d a) (\<lambda>bp.
             kseq (free_indirect [0..<NINDIRECT] d bp)
            (kseq (brelse bp)
            (kseq (bfree d a)
             (set_addr ip NDIRECT 0))))
           else kret ())
    (kseq (imod (\<lambda>i. i\<lparr>isize := 0\<rparr>) ip)
     (iupdate ip)))))"

definition iput :: "nat \<Rightarrow> ('s kfs_scheme, unit) kop" where
  "iput ip =
     kbind (ifld (\<lambda>i. i) ip) (\<lambda>i.
     kseq (if iref i = 1 \<and> ivalid i \<and> inlink i = 0 then
             kseq (ilock_acquire ip)
            (kseq (itrunc ip)
            (kseq (imod (\<lambda>i. i\<lparr>itype := 0\<rparr>) ip)
            (kseq (iupdate ip)
            (kseq (imod (\<lambda>i. i\<lparr>ivalid := False\<rparr>) ip)
             (ilock_release ip)))))
           else kret ())
     (imod (\<lambda>i. i\<lparr>iref := iref i - 1\<rparr>) ip))"

definition iunlockput :: "nat \<Rightarrow> ('s kfs_scheme, unit) kop" where
  "iunlockput ip = kseq (iunlock ip) (iput ip)"

text \<open>\<open>struct stat\<close> as it is copied out, without the four bytes of padding before \<open>size\<close>.\<close>

record statbuf =
  st_dev :: u32
  st_ino :: u32
  st_type :: u16
  st_nlink :: u16
  st_size :: u64

definition stati :: "inode \<Rightarrow> statbuf" where
  "stati i = \<lparr>st_dev = idev i, st_ino = inum i, st_type = itype i, st_nlink = inlink i, st_size = ucast (isize i)\<rparr>"

fun udst_add :: "udst \<Rightarrow> nat \<Rightarrow> udst" where
  "udst_add (UserDst a) m = UserDst (a + of_nat m)"
| "udst_add KernDst m = KernDst"

fun usrc_add :: "usrc \<Rightarrow> nat \<Rightarrow> usrc" where
  "usrc_add (UserSrc a) m = UserSrc (a + of_nat m)"
| "usrc_add (KernSrc bs) m = KernSrc (drop m bs)"

function readi_loop :: "nat \<Rightarrow> udst \<Rightarrow> nat \<Rightarrow> nat \<Rightarrow> nat \<Rightarrow> ('s kfs_scheme, int \<times> u8 list) kop" where
  "readi_loop ip dst off rem tot =
     (if rem = 0 then kret (int tot, [])
      else kbind (bmap ip (off div BSIZE)) (\<lambda>addr.
        if addr = 0 then kret (int tot, [])
        else kbind (ifld idev ip) (\<lambda>d.
          kbind (bread d addr) (\<lambda>bp.
          kbind (bfld bdata bp) (\<lambda>bs.
          let m = min rem (BSIZE - off mod BSIZE); piece = take m (drop (off mod BSIZE) bs) in
          kbind (either_copyout dst piece) (\<lambda>r.
          if r = -1 then kseq (brelse bp) (kret (-1, []))
          else kseq (brelse bp)
            (kbind (readi_loop ip (udst_add dst m) (off + m) (rem - m) (tot + m)) (\<lambda>(t, rest).
             kret (t, piece @ rest)))))))))"
  by pat_completeness auto
termination
  by (relation "measure (\<lambda>(ip, dst, off, rem, tot). rem)") auto

definition readi :: "nat \<Rightarrow> udst \<Rightarrow> u32 \<Rightarrow> u32 \<Rightarrow> ('s kfs_scheme, int \<times> u8 list) kop" where
  "readi ip dst off n =
     kbind (ifld isize ip) (\<lambda>sz.
     if off > sz \<or> off + n < off then kret (0, [])
     else readi_loop ip dst (unat off) (unat (if off + n > sz then sz - off else n)) 0)"

text \<open>
  The result of the loop is \<open>tot\<close> and the final \<open>off\<close>. \<open>either_copyin\<close> writes into the buffer what it
  could read before it fails; such a block is not logged.
\<close>

function writei_loop :: "nat \<Rightarrow> usrc \<Rightarrow> nat \<Rightarrow> nat \<Rightarrow> nat \<Rightarrow> ('s kfs_scheme, nat \<times> nat) kop" where
  "writei_loop ip src off rem tot =
     (if rem = 0 then kret (tot, off)
      else kbind (bmap ip (off div BSIZE)) (\<lambda>addr.
        if addr = 0 then kret (tot, off)
        else kbind (ifld idev ip) (\<lambda>d.
          kbind (bread d addr) (\<lambda>bp.
          let m = min rem (BSIZE - off mod BSIZE) in
          kbind (either_copyin src m) (\<lambda>(r, bs).
          kseq (bupd bp (put_bytes (off mod BSIZE) bs))
          (if r = -1 then kseq (brelse bp) (kret (tot, off))
           else kseq (log_write bp)
               (kseq (brelse bp)
                (writei_loop ip (usrc_add src m) (off + m) (rem - m) (tot + m)))))))))"
  by pat_completeness auto
termination
  by (relation "measure (\<lambda>(ip, src, off, rem, tot). rem)") auto

declare readi_loop.simps [simp del] writei_loop.simps [simp del]

definition writei :: "nat \<Rightarrow> usrc \<Rightarrow> u32 \<Rightarrow> u32 \<Rightarrow> ('s kfs_scheme, int) kop" where
  "writei ip src off n =
     kbind (ifld isize ip) (\<lambda>sz.
     if off > sz \<or> off + n < off then kret (-1)
     else if unat (off + n) > MAXFILE * BSIZE then kret (-1)
     else kbind (writei_loop ip src (unat off) (unat n) 0) (\<lambda>(tot, off).
       kseq (imod (\<lambda>i. if off > unat (isize i) then i\<lparr>isize := of_nat off\<rparr> else i) ip)
      (kseq (iupdate ip)
       (kret (int tot)))))"

section \<open>Directories\<close>

definition cp :: "u8 list \<Rightarrow> cptr" where
  "cp bs i = (if i < length bs then bs ! i else 0)"

definition namecmp :: "u8 list \<Rightarrow> u8 list \<Rightarrow> int" where
  "namecmp s t = strncmp (cp s) (cp t) DIRSIZ"

text \<open>\<open>struct dirent\<close>: inode number and name, 16 bytes.\<close>

definition de_inum :: "u8 list \<Rightarrow> u16" where
  "de_inum de = get16 de 0"

definition de_name :: "u8 list \<Rightarrow> u8 list" where
  "de_name de = take DIRSIZ (drop 2 de)"

primrec dirlookup_loop :: "nat \<Rightarrow> nat \<Rightarrow> nat \<Rightarrow> u8 list \<Rightarrow> ('s kfs_scheme, (nat \<times> nat) option) kop" where
  "dirlookup_loop 0 off dp name = kret None"
| "dirlookup_loop (Suc k) off dp name =
     kbind (ifld isize dp) (\<lambda>sz.
     if \<not> off < unat sz then kret None
     else kbind (readi dp KernDst (of_nat off) 16) (\<lambda>(r, de).
       if r \<noteq> 16 then kpanic ''dirlookup read''
       else if de_inum de = 0 then dirlookup_loop k (off + 16) dp name
       else if namecmp name (de_name de) = 0 then
         kbind (ifld idev dp) (\<lambda>d. kbind (iget d (ucast (de_inum de))) (\<lambda>ip. kret (Some (ip, off))))
       else dirlookup_loop k (off + 16) dp name))"

text \<open>The result is the inode and \<open>*poff\<close>. The directory has at most \<open>size / 16 + 1\<close> entries to visit.\<close>

definition dirlookup :: "nat \<Rightarrow> u8 list \<Rightarrow> ('s kfs_scheme, (nat \<times> nat) option) kop" where
  "dirlookup dp name =
     kbind (ifld (\<lambda>i. i) dp) (\<lambda>i.
     if itype i \<noteq> T_DIR then kpanic ''dirlookup not DIR''
     else dirlookup_loop (unat (isize i) div 16 + 1) 0 dp name)"

primrec free_dirent :: "nat \<Rightarrow> nat \<Rightarrow> nat \<Rightarrow> ('s kfs_scheme, nat) kop" where
  "free_dirent 0 off dp = kret off"
| "free_dirent (Suc k) off dp =
     kbind (ifld isize dp) (\<lambda>sz.
     if \<not> off < unat sz then kret off
     else kbind (readi dp KernDst (of_nat off) 16) (\<lambda>(r, de).
       if r \<noteq> 16 then kpanic ''dirlink read''
       else if de_inum de = 0 then kret off
       else free_dirent k (off + 16) dp))"

definition dirent_bytes :: "u32 \<Rightarrow> u8 list \<Rightarrow> u8 list" where
  "dirent_bytes n name = le_bytes 2 (ucast n :: u16) @ map (strncpy (\<lambda>_. 0) (cp name) (int DIRSIZ)) [0..<DIRSIZ]"

definition dirlink :: "nat \<Rightarrow> u8 list \<Rightarrow> u32 \<Rightarrow> ('s kfs_scheme, int) kop" where
  "dirlink dp name n =
     kbind (dirlookup dp name) (\<lambda>r.
     case r of
       Some (ip, _) \<Rightarrow> kseq (iput ip) (kret (-1))
     | None \<Rightarrow>
         kbind (ifld isize dp) (\<lambda>sz.
         kbind (free_dirent (unat sz div 16 + 1) 0 dp) (\<lambda>off.
         kbind (writei dp (KernSrc (dirent_bytes n name)) (of_nat off) 16) (\<lambda>w.
         if w \<noteq> 16 then kret (-1) else kret 0))))"

section \<open>Paths\<close>

text \<open>A path is the list of its characters before the NUL; 47 is the slash.\<close>

definition skip_slashes :: "u8 list \<Rightarrow> u8 list" where
  "skip_slashes path = dropWhile (\<lambda>c. c = 47) path"

definition skipelem :: "u8 list \<Rightarrow> u8 list \<Rightarrow> (u8 list \<times> u8 list) option" where
  "skipelem path name =
     (let s = skip_slashes path in
      if s = [] then None
      else let elem = takeWhile (\<lambda>c. c \<noteq> 47) s;
               rest = dropWhile (\<lambda>c. c \<noteq> 47) s;
               len = length elem;
               name = (if len \<ge> DIRSIZ then take DIRSIZ elem @ drop DIRSIZ name
                       else elem @ [0] @ drop (len + 1) name)
           in Some (skip_slashes rest, name))"

lemma skipelem_shorter: "skipelem path name = Some (rest, name') \<Longrightarrow> length rest < length path"
proof -
  assume a: "skipelem path name = Some (rest, name')"
  let ?s = "skip_slashes path"
  have s: "?s \<noteq> []" and r: "rest = skip_slashes (dropWhile (\<lambda>c. c \<noteq> 47) ?s)"
    using a by (auto simp: skipelem_def Let_def split: if_splits)
  have "hd ?s \<noteq> 47" using hd_dropWhile [of "\<lambda>c. c = 47" path] s by (auto simp: skip_slashes_def)
  then have "length (dropWhile (\<lambda>c. c \<noteq> 47) ?s) < length ?s"
    using s by (cases ?s) (auto simp: le_imp_less_Suc length_dropWhile_le)
  moreover have "length rest \<le> length (dropWhile (\<lambda>c. c \<noteq> 47) ?s)"
    unfolding r by (simp add: skip_slashes_def length_dropWhile_le)
  moreover have "length ?s \<le> length path" by (simp add: skip_slashes_def length_dropWhile_le)
  ultimately show ?thesis by simp
qed

text \<open>The walk along the path from inode \<open>ip\<close>; the result carries the last name seen.\<close>

function namex_loop :: "u8 list \<Rightarrow> bool \<Rightarrow> nat \<Rightarrow> u8 list \<Rightarrow> ('s kfs_scheme, (nat \<times> u8 list) option) kop" where
  "namex_loop path nameiparent ip name =
     (case skipelem path name of
        None \<Rightarrow> if nameiparent then kseq (iput ip) (kret None) else kret (Some (ip, name))
      | Some (path, name) \<Rightarrow>
          kseq (ilock ip)
         (kbind (ifld itype ip) (\<lambda>t.
          if t \<noteq> T_DIR then kseq (iunlockput ip) (kret None)
          else if nameiparent \<and> path = [] then kseq (iunlock ip) (kret (Some (ip, name)))
          else kbind (dirlookup ip name) (\<lambda>r.
            case r of
              None \<Rightarrow> kseq (iunlockput ip) (kret None)
            | Some (next, _) \<Rightarrow>
                kseq (iunlockput ip) (namex_loop path nameiparent next name)))))"
  by pat_completeness auto
termination
  by (relation "measure (\<lambda>(path, np, ip, name). length path)") (auto dest: skipelem_shorter)

declare namex_loop.simps [simp del]

definition namex :: "u8 list \<Rightarrow> bool \<Rightarrow> ('s kfs_scheme, (nat \<times> u8 list) option) kop" where
  "namex path nameiparent =
     kbind (if path \<noteq> [] \<and> hd path = 47 then iget ROOTDEV ROOTINO
            else kbind myproc (\<lambda>p. kbind (pget cwd p) (\<lambda>c.
                 case c of None \<Rightarrow> kpanic ''null cwd'' | Some i \<Rightarrow> idup i))) (\<lambda>ip.
     namex_loop path nameiparent ip (replicate DIRSIZ 0))"

definition namei :: "u8 list \<Rightarrow> ('s kfs_scheme, nat option) kop" where
  "namei path = kbind (namex path False) (\<lambda>r. kret (map_option fst r))"

definition nameiparent :: "u8 list \<Rightarrow> ('s kfs_scheme, (nat \<times> u8 list) option) kop" where
  "nameiparent path = namex path True"

end
