(* ===== verification/Ring.thy ===== *)
theory Ring
  imports Xv6_Prelude
begin

text \<open>
  Ring buffers with free-running indices, as the pipe, the console input and the UART transmit
  buffer use them: an array of \<open>N\<close> bytes, a read and a write index that only ever grow and wrap at
  the width of their type, and slots taken modulo \<open>N\<close>. The contents are a queue as long as \<open>N\<close>
  divides the range of the index type.
\<close>

section \<open>Contents\<close>

definition slot :: "nat \<Rightarrow> 'w::len word \<Rightarrow> nat" where
  "slot N i = unat i mod N"

definition ring_queue :: "nat \<Rightarrow> 'a list \<Rightarrow> 'w::len word \<Rightarrow> 'w word \<Rightarrow> 'a list" where
  "ring_queue N d r w = map (\<lambda>i. d ! slot N (r + of_nat i)) [0..<unat (w - r)]"

lemma length_ring_queue [simp]: "length (ring_queue N d r w) = unat (w - r)"
  by (simp add: ring_queue_def)

lemma ring_queue_empty [simp]: "ring_queue N d r r = []"
  by (simp add: ring_queue_def)

lemma ring_queue_Nil: "ring_queue N d r w = [] \<longleftrightarrow> r = w"
  by (auto simp: ring_queue_def unat_eq_zero)

locale ring =
  fixes N :: nat and idx :: "'w::len itself"
  assumes N_pos: "0 < N" and N_range: "N dvd 2 ^ LENGTH('w)" and N_less: "N < 2 ^ LENGTH('w)"
begin

lemma slot_less: "slot N (i :: 'w word) < N"
  using N_pos by (simp add: slot_def)

lemma slot_add: "slot N (r + of_nat i :: 'w word) = (unat r + i) mod N"
proof -
  have "r + of_nat i = (of_nat (unat r + i) :: 'w word)" by simp
  then have "unat (r + of_nat i :: 'w word) = (unat r + i) mod 2 ^ LENGTH('w)"
    by (metis unat_of_nat take_bit_eq_mod)
  then show ?thesis using N_range by (simp add: slot_def mod_mod_cancel)
qed

lemma slot_inj:
  assumes "slot N (r + of_nat i :: 'w word) = slot N (r + of_nat j)" and "i < N" and "j < N"
  shows "i = j"
proof -
  let ?a = "int (unat r)" and ?N = "int N"
  have "(?a + int i) mod ?N = (?a + int j) mod ?N"
    using assms(1) unfolding slot_add by (metis of_nat_add zmod_int)
  then have "(?a + int i - ?a) mod ?N = (?a + int j - ?a) mod ?N"
    by (rule mod_diff_cong) simp
  then show ?thesis using assms(2,3) by simp
qed

lemma index_diff_Suc:
  assumes "unat (w - r :: 'w word) < N"
  shows "unat (w + 1 - r) = Suc (unat (w - r))"
proof -
  define x where "x = w - r"
  have "unat x + 1 < 2 ^ LENGTH('w)" using assms N_less by (simp add: x_def)
  then have "unat (x + 1) = Suc (unat x)" by (simp add: unat_word_ariths)
  moreover have "w + 1 - r = x + 1" by (simp add: x_def)
  ultimately show ?thesis by (simp only: x_def)
qed

lemma index_write: "w = r + of_nat (unat (w - r :: 'w word))"
  by simp

text \<open>Writing one element at the write index.\<close>

lemma ring_push:
  assumes "unat (w - r :: 'w word) < N" and "length d = N"
  shows "ring_queue N (d[slot N w := x]) r (w + 1) = ring_queue N d r w @ [x]"
proof -
  let ?n = "unat (w - r)"
  have old: "d[slot N w := x] ! slot N (r + of_nat i) = d ! slot N (r + of_nat i)" if "i < ?n" for i
  proof -
    have "slot N (r + of_nat i) \<noteq> slot N w"
      using slot_inj [of r i ?n] assms(1) that by (metis index_write less_irrefl less_trans)
    then show ?thesis by simp
  qed
  have new: "d[slot N w := x] ! slot N (r + of_nat ?n) = x"
    using slot_less [of w] assms(2) by simp
  show ?thesis
    unfolding ring_queue_def index_diff_Suc [OF assms(1)] using old new by simp
qed

text \<open>Taking one element at the read index.\<close>

lemma ring_pop:
  assumes "r \<noteq> (w :: 'w word)"
  shows "ring_queue N d r w = d ! slot N r # ring_queue N d (r + 1) w"
proof -
  have "w - r \<noteq> 0" using assms by simp
  then have "unat (w - (r + 1)) = unat (w - r) - 1" and "0 < unat (w - r)"
    by (simp_all add: diff_diff_eq [symmetric] unat_minus_one unat_gt_0)
  then obtain n where n: "unat (w - r) = Suc n" and n1: "unat (w - (r + 1)) = n"
    by (cases "unat (w - r)") simp_all
  have "[0..<Suc n] = 0 # map Suc [0..<n]" by (simp add: map_Suc_upt upt_conv_Cons del: upt_Suc)
  then show ?thesis unfolding ring_queue_def n n1 by (simp add: add.assoc)
qed

text \<open>Taking back the element written last.\<close>

lemma ring_unpush:
  assumes "r \<noteq> (w :: 'w word)"
  shows "ring_queue N d r w = ring_queue N d r (w - 1) @ [d ! slot N (w - 1)]"
proof -
  have "w - r \<noteq> 0" using assms by simp
  then have "unat (w - r - 1) = unat (w - r) - 1" and "0 < unat (w - r)"
    by (rule unat_minus_one, simp add: unat_gt_0)
  then have n: "unat (w - r) = Suc (unat (w - 1 - r))" by (simp only: diff_right_commute [of w r 1])
  have "w - 1 = r + of_nat (unat (w - 1 - r))" by simp
  then show ?thesis unfolding ring_queue_def n by simp
qed

lemma ring_full_iff: "w = r + of_nat N \<longleftrightarrow> unat (w - r :: 'w word) = N"
proof -
  have N: "unat (of_nat N :: 'w word) = N"
    using N_less by (simp add: unat_of_nat take_bit_nat_eq_self)
  have "w = r + of_nat N \<longleftrightarrow> w - r = of_nat N" by (metis add.commute diff_add_cancel add_diff_cancel_left')
  also have "\<dots> \<longleftrightarrow> unat (w - r) = unat (of_nat N :: 'w word)" by (simp only: word_unat_eq_iff)
  finally show ?thesis unfolding N .
qed

end

end
