(* ===== verification/Console.thy ===== *)
theory Console
  imports Fs Ring
begin

text \<open>
  Console and serial port, \<^verbatim>\<open>kernel/console.c\<close> and \<^verbatim>\<open>kernel/uart.c\<close>. What is written to the transmit
  register is appended to \<open>cons_out\<close>. The device is seen through three things: \<open>tx_room\<close>, how many
  bytes it takes before the idle bit of \<open>LSR\<close> goes off, \<open>rx_fifo\<close>, the bytes that have arrived, and
  the register writes of the initialisation. \<open>cons.lock\<close> and \<open>uart_tx_lock\<close> are atomicity boundaries. A
  read that has to wait for input returns the point at which it sleeps, and is resumed there.
\<close>

section \<open>Definitions\<close>

definition INPUT_BUF_SIZE :: nat where [simp]: "INPUT_BUF_SIZE = 128"
definition UART_TX_BUF_SIZE :: nat where [simp]: "UART_TX_BUF_SIZE = 32"

record kcons = kfs +
  cons_buf :: "u8 list"
  cons_r :: u32
  cons_w :: u32
  cons_e :: u32
  uart_tx_buf :: "u8 list"
  uart_tx_w :: u64
  uart_tx_r :: u64
  panicked :: bool
  tx_room :: nat
  rx_fifo :: "u8 list"

subsection \<open>UART\<close>

text \<open>Registers by number: \<open>IER\<close> 1, \<open>FCR\<close> 2, \<open>LCR\<close> 3; the writes in order.\<close>

definition uartinit :: "(nat \<times> u8) list" where
  "uartinit =
     [(1, 0x00),
      (3, 0x80),
      (0, 0x03),
      (1, 0x00),
      (3, 0x03),
      (2, 0x01 OR 0x06),
      (1, 0x02 OR 0x01)]"

definition write_thr :: "u8 \<Rightarrow> ('s kcons_scheme, unit) kop" where
  "write_thr c = kmod (\<lambda>s. s\<lparr>cons_out := cons_out s @ [char_of (unat c)], tx_room := tx_room s - 1\<rparr>)"

text \<open>The loop of \<open>uartstart\<close>, by the number of bytes the device still takes.\<close>

primrec uartstart_loop :: "nat \<Rightarrow> ('s kcons_scheme, unit) kop" where
  "uartstart_loop 0 = kret ()"
| "uartstart_loop (Suc room) =
     kbind (kget (\<lambda>s. (uart_tx_w s, uart_tx_r s))) (\<lambda>(w, r).
     if w = r then kret ()
     else kbind (kget (\<lambda>s. uart_tx_buf s ! slot UART_TX_BUF_SIZE r)) (\<lambda>c.
       kseq (kmod (\<lambda>s. s\<lparr>uart_tx_r := r + 1\<rparr>))
      (kseq (wakeup Chan_uart_tx)
      (kseq (write_thr c)
       (uartstart_loop room)))))"

definition uartstart :: "('s kcons_scheme, unit) kop" where
  "uartstart = kbind (kget tx_room) uartstart_loop"

definition uartputc :: "u8 \<Rightarrow> ('s kcons_scheme, unit) kop" where
  "uartputc c =
     kbind (kget (\<lambda>s. (panicked s, uart_tx_w s, uart_tx_r s))) (\<lambda>(p, w, r).
     if p then (\<lambda>s. Diverge)
     else if w = r + of_nat UART_TX_BUF_SIZE then kblock Chan_uart_tx
     else kseq (kmod (\<lambda>s. s\<lparr>uart_tx_buf := (uart_tx_buf s)[slot UART_TX_BUF_SIZE w := c], uart_tx_w := w + 1\<rparr>))
          uartstart)"

text \<open>Spins until the device has room, then writes.\<close>

definition uartputc_sync :: "u8 \<Rightarrow> ('s kcons_scheme, unit) kop" where
  "uartputc_sync c = kbind (kget panicked) (\<lambda>p. if p then (\<lambda>s. Diverge) else write_thr c)"

definition uartgetc :: "('s kcons_scheme, u8 option) kop" where
  "uartgetc =
     kbind (kget rx_fifo) (\<lambda>q.
     case q of [] \<Rightarrow> kret None | c # q \<Rightarrow> kseq (kmod (\<lambda>s. s\<lparr>rx_fifo := q\<rparr>)) (kret (Some c)))"

subsection \<open>Console\<close>

definition BACKSPACE :: u32 where [simp]: "BACKSPACE = 0x100"

definition consputc :: "u32 \<Rightarrow> ('s kcons_scheme, unit) kop" where
  "consputc c =
     (if c = BACKSPACE then kseq (uartputc_sync 8) (kseq (uartputc_sync 32) (uartputc_sync 8))
      else uartputc_sync (ucast c))"

primrec consolewrite_loop :: "nat \<Rightarrow> usrc \<Rightarrow> nat \<Rightarrow> ('s kcons_scheme, int) kop" where
  "consolewrite_loop 0 src i = kret (int i)"
| "consolewrite_loop (Suc k) src i =
     kbind (either_copyin src 1) (\<lambda>(r, bs).
     if r = -1 then kret (int i)
     else kseq (uartputc (hd bs)) (consolewrite_loop k (usrc_add src 1) (Suc i)))"

definition consolewrite :: "usrc \<Rightarrow> int \<Rightarrow> ('s kcons_scheme, int) kop" where
  "consolewrite src n = consolewrite_loop (nat n) src 0"

text \<open>A read is done, with its result, or sleeps with \<open>n\<close> bytes still wanted at \<open>dst\<close>.\<close>

datatype cread = CDone int | CSleep nat udst

primrec consoleread_loop :: "nat \<Rightarrow> udst \<Rightarrow> nat \<Rightarrow> ('s kcons_scheme, cread) kop" where
  "consoleread_loop 0 dst target = kret (CDone (int target))"
| "consoleread_loop (Suc n) dst target =
     kbind (kget (\<lambda>s. (cons_r s, cons_w s))) (\<lambda>(r, w).
     if r = w then
       kbind myproc (\<lambda>p. kbind (killed p) (\<lambda>k.
       kret (if k then CDone (-1) else CSleep (Suc n) dst)))
     else kbind (kget (\<lambda>s. cons_buf s ! slot INPUT_BUF_SIZE r)) (\<lambda>c.
       kseq (kmod (\<lambda>s. s\<lparr>cons_r := r + 1\<rparr>))
       (if c = 4 then
          kseq (if Suc n < target then kmod (\<lambda>s. s\<lparr>cons_r := r\<rparr>) else kret ())
          (kret (CDone (int target - int (Suc n))))
        else kbind (either_copyout dst [c]) (\<lambda>e.
          if e = -1 then kret (CDone (int target - int (Suc n)))
          else if c = 10 then kret (CDone (int target - int n))
          else consoleread_loop n (udst_add dst 1) target))))"

definition consoleread :: "udst \<Rightarrow> int \<Rightarrow> ('s kcons_scheme, cread) kop" where
  "consoleread dst n = consoleread_loop (nat n) dst (nat n)"

text \<open>Erasing back to the previous newline or to the committed part; the count is \<open>e - w\<close>.\<close>

primrec kill_line :: "nat \<Rightarrow> ('s kcons_scheme, unit) kop" where
  "kill_line 0 = kret ()"
| "kill_line (Suc k) =
     kbind (kget (\<lambda>s. (cons_e s, cons_buf s))) (\<lambda>(e, b).
     if b ! slot INPUT_BUF_SIZE (e - 1) \<noteq> 10 then
       kseq (kmod (\<lambda>s. s\<lparr>cons_e := e - 1\<rparr>))
      (kseq (consputc BACKSPACE)
       (kill_line k))
     else kret ())"

definition consoleintr :: "u8 \<Rightarrow> ('s kcons_scheme, unit) kop" where
  "consoleintr c =
     (if c = 16 then procdump
      else if c = 21 then kbind (kget (\<lambda>s. unat (cons_e s - cons_w s))) kill_line
      else if c = 8 \<or> c = 0x7f then
        kbind (kget (\<lambda>s. (cons_e s, cons_w s))) (\<lambda>(e, w).
        if e \<noteq> w then kseq (kmod (\<lambda>s. s\<lparr>cons_e := e - 1\<rparr>)) (consputc BACKSPACE) else kret ())
      else kbind (kget (\<lambda>s. (cons_e s, cons_r s))) (\<lambda>(e, r).
        if c \<noteq> 0 \<and> e - r < of_nat INPUT_BUF_SIZE then
          let c = (if c = 13 then 10 else c) in
          kseq (consputc (ucast c))
         (kseq (kmod (\<lambda>s. s\<lparr>cons_buf := (cons_buf s)[slot INPUT_BUF_SIZE e := c], cons_e := e + 1\<rparr>))
          (if c = 10 \<or> c = 4 \<or> e + 1 - r = of_nat INPUT_BUF_SIZE then
             kseq (kmod (\<lambda>s. s\<lparr>cons_w := e + 1\<rparr>)) (wakeup Chan_cons)
           else kret ()))
        else kret ()))"

primrec uartintr_loop :: "u8 list \<Rightarrow> ('s kcons_scheme, unit) kop" where
  "uartintr_loop [] = kret ()"
| "uartintr_loop (c # cs) =
     kbind uartgetc (\<lambda>r. case r of None \<Rightarrow> kret () | Some c \<Rightarrow> kseq (consoleintr c) (uartintr_loop cs))"

text \<open>Nothing the handler does adds input, so the loop runs once per byte that has arrived.\<close>

definition uartintr :: "('s kcons_scheme, unit) kop" where
  "uartintr = kseq (kbind (kget rx_fifo) uartintr_loop) uartstart"

text \<open>
  \<open>consoleinit\<close> sets up the device and connects the console to \<open>devsw[CONSOLE]\<close>; the other entries
  of \<open>devsw\<close> are null.
\<close>

definition CONSOLE :: u16 where [simp]: "CONSOLE = 1"

definition consoleinit :: "(nat \<times> u8) list \<times> (u16 \<Rightarrow> bool)" where
  "consoleinit = (uartinit, \<lambda>major. major = CONSOLE)"

end
