(* ===== verification/Pipe.thy ===== *)
theory Pipe
  imports Console
begin

text \<open>
  Pipes, \<^verbatim>\<open>kernel/pipe.c\<close> (\<open>pipealloc\<close> is in theory \<open>File\<close>). A \<open>struct pipe\<close> occupies a page from
  \<open>kalloc\<close>; the state keeps the structure under the address of its page. \<open>pi->lock\<close> is an atomicity
  boundary: a writer that has to wait for room, or a reader for data, returns the point where it
  sleeps and is resumed there.
\<close>

section \<open>Definitions\<close>

definition PIPESIZE :: nat where [simp]: "PIPESIZE = 512"

record pipe =
  pdata :: "u8 list"
  nread :: u32
  nwrite :: u32
  readopen :: bool
  writeopen :: bool

record kpipe = kcons +
  pipes :: "u64 \<Rightarrow> pipe"

definition pimod :: "(pipe \<Rightarrow> pipe) \<Rightarrow> u64 \<Rightarrow> ('s kpipe_scheme, unit) kop" where
  "pimod f pi = kmod (\<lambda>s. s\<lparr>pipes := (pipes s)(pi := f (pipes s pi))\<rparr>)"

definition pifld :: "(pipe \<Rightarrow> 'a) \<Rightarrow> u64 \<Rightarrow> ('s kpipe_scheme, 'a) kop" where
  "pifld f pi = kget (\<lambda>s. f (pipes s pi))"

definition pipeclose :: "u64 \<Rightarrow> bool \<Rightarrow> ('s kpipe_scheme, unit) kop" where
  "pipeclose pi writable =
     kseq (if writable then kseq (pimod (\<lambda>p. p\<lparr>writeopen := False\<rparr>) pi) (wakeup (Chan_pipe_read pi))
           else kseq (pimod (\<lambda>p. p\<lparr>readopen := False\<rparr>) pi) (wakeup (Chan_pipe_write pi)))
    (kbind (pifld (\<lambda>p. p) pi) (\<lambda>p.
     if \<not> readopen p \<and> \<not> writeopen p then kfree pi else kret ()))"

text \<open>Finished with a result, or asleep after \<open>i\<close> bytes.\<close>

datatype pres = PDone int | PSleep nat

definition put_byte :: "u8 \<Rightarrow> pipe \<Rightarrow> pipe" where
  "put_byte ch p = p\<lparr>pdata := (pdata p)[slot PIPESIZE (nwrite p) := ch], nwrite := nwrite p + 1\<rparr>"

text \<open>The loop of \<open>pipewrite\<close> with \<open>k = n - i\<close> bytes to go.\<close>

primrec pipewrite_loop :: "nat \<Rightarrow> u64 \<Rightarrow> u64 \<Rightarrow> nat \<Rightarrow> ('s kpipe_scheme, pres) kop" where
  "pipewrite_loop 0 pi addr i = kseq (wakeup (Chan_pipe_read pi)) (kret (PDone (int i)))"
| "pipewrite_loop (Suc k) pi addr i =
     kbind myproc (\<lambda>pr.
     kbind (killed pr) (\<lambda>kl.
     kbind (pifld (\<lambda>p. p) pi) (\<lambda>p.
     if \<not> readopen p \<or> kl then kret (PDone (-1))
     else if nwrite p = nread p + of_nat PIPESIZE then
       kseq (wakeup (Chan_pipe_read pi)) (kret (PSleep i))
     else kbind (pget pagetable pr) (\<lambda>pt.
       kbind (copyin pt (addr + of_nat i) 1) (\<lambda>(r, ch).
       if r = -1 then kseq (wakeup (Chan_pipe_read pi)) (kret (PDone (int i)))
       else kseq (pimod (put_byte (hd ch)) pi)
            (pipewrite_loop k pi addr (Suc i)))))))"

definition pipewrite :: "u64 \<Rightarrow> u64 \<Rightarrow> int \<Rightarrow> ('s kpipe_scheme, pres) kop" where
  "pipewrite pi addr n = pipewrite_loop (nat n) pi addr 0"

primrec piperead_loop :: "nat \<Rightarrow> u64 \<Rightarrow> u64 \<Rightarrow> nat \<Rightarrow> ('s kpipe_scheme, int) kop" where
  "piperead_loop 0 pi addr i = kret (int i)"
| "piperead_loop (Suc k) pi addr i =
     kbind (pifld (\<lambda>p. p) pi) (\<lambda>p.
     if nread p = nwrite p then kret (int i)
     else let ch = pdata p ! slot PIPESIZE (nread p) in
       kseq (pimod (\<lambda>p. p\<lparr>nread := nread p + 1\<rparr>) pi)
      (kbind myproc (\<lambda>pr.
       kbind (pget pagetable pr) (\<lambda>pt.
       kbind (copyout pt (addr + of_nat i) [ch]) (\<lambda>r.
       if r = -1 then kret (int i) else piperead_loop k pi addr (Suc i))))))"

definition piperead :: "u64 \<Rightarrow> u64 \<Rightarrow> int \<Rightarrow> ('s kpipe_scheme, pres) kop" where
  "piperead pi addr n =
     kbind myproc (\<lambda>pr.
     kbind (pifld (\<lambda>p. p) pi) (\<lambda>p.
     kbind (killed pr) (\<lambda>kl.
     if nread p = nwrite p \<and> writeopen p then
       kret (if kl then PDone (-1) else PSleep 0)
     else kbind (piperead_loop (nat n) pi addr 0) (\<lambda>i.
       kseq (wakeup (Chan_pipe_write pi)) (kret (PDone i))))))"

end
