(* ===== verification/File.thy ===== *)
theory File
  imports Pipe
begin

text \<open>
  The open-file table, \<^verbatim>\<open>kernel/file.c\<close>, and \<open>pipealloc\<close> of \<^verbatim>\<open>kernel/pipe.c\<close>. A file is a slot of
  \<open>ftable\<close>. An operation on a pipe or the console that has to sleep has outcome \<open>Blocked\<close> here.
\<close>

section \<open>Definitions\<close>

datatype ftype = FD_NONE | FD_PIPE | FD_INODE | FD_DEVICE

record file_s =
  ftype :: ftype
  fref :: int
  readable :: bool
  writable :: bool
  fpipe :: u64
  fip :: nat
  foff :: u32
  fmajor :: u16

text \<open>\<open>stack_junk\<close> stands for the uninitialised padding of a structure on the kernel stack.\<close>

record kfile = kpipe +
  files :: "file_s list"
  stack_junk :: "u8 list"

definition fmod :: "(file_s \<Rightarrow> file_s) \<Rightarrow> nat \<Rightarrow> ('s kfile_scheme, unit) kop" where
  "fmod g f = kmod (\<lambda>s. s\<lparr>files := (files s)[f := g (files s ! f)]\<rparr>)"

definition ffld :: "(file_s \<Rightarrow> 'a) \<Rightarrow> nat \<Rightarrow> ('s kfile_scheme, 'a) kop" where
  "ffld g f = kget (\<lambda>s. g (files s ! f))"

definition filealloc :: "('s kfile_scheme, nat option) kop" where
  "filealloc =
     kbind (kget (\<lambda>s. find_idx (\<lambda>f. fref f = 0) (files s))) (\<lambda>slot.
     case slot of
       None \<Rightarrow> kret None
     | Some f \<Rightarrow> kseq (fmod (\<lambda>x. x\<lparr>fref := 1\<rparr>) f) (kret (Some f)))"

definition filedup :: "nat \<Rightarrow> ('s kfile_scheme, nat) kop" where
  "filedup f =
     kbind (ffld fref f) (\<lambda>r.
     if r < 1 then kpanic ''filedup''
     else kseq (fmod (\<lambda>x. x\<lparr>fref := fref x + 1\<rparr>) f) (kret f))"

definition fileclose :: "nat \<Rightarrow> ('s kfile_scheme, unit) kop" where
  "fileclose f =
     kbind (ffld fref f) (\<lambda>r.
     if r < 1 then kpanic ''fileclose''
     else kseq (fmod (\<lambda>x. x\<lparr>fref := fref x - 1\<rparr>) f)
      (if r - 1 > 0 then kret ()
       else kbind (ffld (\<lambda>x. x) f) (\<lambda>ff.
         kseq (fmod (\<lambda>x. x\<lparr>fref := 0, ftype := FD_NONE\<rparr>) f)
         (if ftype ff = FD_PIPE then pipeclose (fpipe ff) (writable ff)
          else if ftype ff = FD_INODE \<or> ftype ff = FD_DEVICE then
            kseq begin_op (kseq (iput (fip ff)) end_op)
          else kret ()))))"

definition stat_bytes :: "u8 list \<Rightarrow> statbuf \<Rightarrow> u8 list" where
  "stat_bytes pad st = le_bytes 4 (st_dev st) @ le_bytes 4 (st_ino st) @ le_bytes 2 (st_type st) @
     le_bytes 2 (st_nlink st) @ pad @ le_bytes 8 (st_size st)"

definition filestat :: "nat \<Rightarrow> u64 \<Rightarrow> ('s kfile_scheme, int) kop" where
  "filestat f addr =
     kbind myproc (\<lambda>p.
     kbind (ffld (\<lambda>x. x) f) (\<lambda>ff.
     if ftype ff = FD_INODE \<or> ftype ff = FD_DEVICE then
       kseq (ilock (fip ff))
      (kbind (ifld stati (fip ff)) (\<lambda>st.
       kseq (iunlock (fip ff))
      (kbind (pget pagetable p) (\<lambda>pt.
       kbind (kget (\<lambda>s. take 4 (stack_junk s))) (\<lambda>pad.
       kbind (copyout pt addr (stat_bytes pad st)) (\<lambda>r.
       kret (if r < 0 then -1 else 0)))))))
     else kret (-1)))"

definition NDEV :: int where [simp]: "NDEV = 10"

definition dev_ok :: "u16 \<Rightarrow> bool" where
  "dev_ok major \<longleftrightarrow> \<not> (sint major < 0 \<or> sint major \<ge> NDEV \<or> \<not> snd consoleinit major)"

definition fileread :: "nat \<Rightarrow> u64 \<Rightarrow> u32 \<Rightarrow> ('s kfile_scheme, int) kop" where
  "fileread f addr n =
     kbind (ffld (\<lambda>x. x) f) (\<lambda>ff.
     if \<not> readable ff then kret (-1)
     else case ftype ff of
       FD_PIPE \<Rightarrow>
         kbind (piperead (fpipe ff) addr (sint n)) (\<lambda>r.
         case r of PDone v \<Rightarrow> kret v | PSleep i \<Rightarrow> kblock (Chan_pipe_read (fpipe ff)))
     | FD_DEVICE \<Rightarrow>
         if \<not> dev_ok (fmajor ff) then kret (-1)
         else kbind (consoleread (UserDst addr) (sint n)) (\<lambda>r.
           case r of CDone v \<Rightarrow> kret v | CSleep i d \<Rightarrow> kblock Chan_cons)
     | FD_INODE \<Rightarrow>
         kseq (ilock (fip ff))
        (kbind (readi (fip ff) (UserDst addr) (foff ff) n) (\<lambda>(r, _).
         kseq (if r > 0 then fmod (\<lambda>x. x\<lparr>foff := foff x + word_of_int r\<rparr>) f else kret ())
        (kseq (iunlock (fip ff))
         (kret r))))
     | FD_NONE \<Rightarrow> kpanic ''fileread'')"

text \<open>\<open>((MAXOPBLOCKS - 1 - 1 - 2) / 2) * BSIZE\<close>\<close>

definition write_max :: nat where
  "write_max = ((MAXOPBLOCKS - 1 - 1 - 2) div 2) * BSIZE"

text \<open>
  The loop of \<open>filewrite\<close> with \<open>n - i\<close> bytes to go; each round is one transaction. A round that writes
  fewer bytes than asked for, or none, ends the loop.
\<close>

function filewrite_loop :: "nat \<Rightarrow> nat \<Rightarrow> u64 \<Rightarrow> nat \<Rightarrow> nat \<Rightarrow> ('s kfile_scheme, nat) kop" where
  "filewrite_loop f ip addr i n =
     (if \<not> i < n then kret i
      else let n1 = min (n - i) write_max in
        kseq begin_op
       (kseq (ilock ip)
       (kbind (ffld foff f) (\<lambda>off.
        kbind (writei ip (UserSrc (addr + of_nat i)) off (of_nat n1)) (\<lambda>r.
        kseq (if r > 0 then fmod (\<lambda>x. x\<lparr>foff := foff x + word_of_int r\<rparr>) f else kret ())
       (kseq (iunlock ip)
       (kseq end_op
        (if r \<noteq> int n1 then kret i else filewrite_loop f ip addr (i + n1) n))))))))"
  by pat_completeness auto
termination
  by (relation "measure (\<lambda>(f, ip, addr, i, n). n - i)") (auto simp: write_max_def)

declare filewrite_loop.simps [simp del]

definition filewrite :: "nat \<Rightarrow> u64 \<Rightarrow> u32 \<Rightarrow> ('s kfile_scheme, int) kop" where
  "filewrite f addr n =
     kbind (ffld (\<lambda>x. x) f) (\<lambda>ff.
     if \<not> writable ff then kret (-1)
     else case ftype ff of
       FD_PIPE \<Rightarrow>
         kbind (pipewrite (fpipe ff) addr (sint n)) (\<lambda>r.
         case r of PDone v \<Rightarrow> kret v | PSleep i \<Rightarrow> kblock (Chan_pipe_write (fpipe ff)))
     | FD_DEVICE \<Rightarrow>
         if \<not> dev_ok (fmajor ff) then kret (-1)
         else consolewrite (UserSrc addr) (sint n)
     | FD_INODE \<Rightarrow>
         kbind (filewrite_loop f (fip ff) addr 0 (nat (sint n))) (\<lambda>i.
         kret (if int i = sint n then sint n else -1))
     | FD_NONE \<Rightarrow> kpanic ''filewrite'')"

definition count_openfile :: "'s kfile_scheme \<Rightarrow> u64" where
  "count_openfile s = of_nat (length (filter (\<lambda>f. fref f > 0) (files s)))"

section \<open>Pipe allocation\<close>

text \<open>The exit \<open>bad\<close> of \<open>pipealloc\<close>; no page has been allocated when it is taken.\<close>

definition pipe_bad :: "nat option \<Rightarrow> nat option \<Rightarrow> ('s kfile_scheme, (nat \<times> nat) option) kop" where
  "pipe_bad f0 f1 =
     kseq (case f0 of None \<Rightarrow> kret () | Some f \<Rightarrow> fileclose f)
    (kseq (case f1 of None \<Rightarrow> kret () | Some f \<Rightarrow> fileclose f)
     (kret None))"

definition pipealloc :: "('s kfile_scheme, (nat \<times> nat) option) kop" where
  "pipealloc =
     kbind filealloc (\<lambda>f0.
     case f0 of
       None \<Rightarrow> pipe_bad None None
     | Some a \<Rightarrow>
         kbind filealloc (\<lambda>f1.
         case f1 of
           None \<Rightarrow> pipe_bad (Some a) None
         | Some b \<Rightarrow>
             kbind kalloc (\<lambda>pi.
             if pi = 0 then pipe_bad (Some a) (Some b)
             else kseq (pimod (\<lambda>p. \<lparr>pdata = replicate PIPESIZE 5, nread = 0, nwrite = 0, readopen = True,
                  writeopen = True\<rparr>) pi)
                 (kseq (fmod (\<lambda>x. x\<lparr>ftype := FD_PIPE, readable := True, writable := False, fpipe := pi\<rparr>) a)
                 (kseq (fmod (\<lambda>x. x\<lparr>ftype := FD_PIPE, readable := False, writable := True, fpipe := pi\<rparr>) b)
                  (kret (Some (a, b))))))))"

end
