(* ===== verification/Exec.thy ===== *)
theory Exec
  imports File
begin

text \<open>
  System-call arguments (first half of \<^verbatim>\<open>kernel/syscall.c\<close>) and \<^verbatim>\<open>kernel/exec.c\<close>. The saved user registers
  are read from the trapframe page in memory. A kernel string is the list of its bytes with the
  NUL. \<open>goto bad\<close> is a call of the clean-up with what has been acquired so far.
\<close>

section \<open>Arguments\<close>

definition fetchaddr :: "u64 \<Rightarrow> ('s kproc_scheme, int \<times> u64) kop" where
  "fetchaddr addr =
     kbind myproc (\<lambda>p.
     kbind (pget psz p) (\<lambda>sz.
     if addr \<ge> sz \<or> addr + 8 > sz then kret (-1, 0)
     else kbind (pget pagetable p) (\<lambda>pt.
       kbind (copyin pt addr 8) (\<lambda>(r, bs).
       if r \<noteq> 0 then kret (-1, 0) else kret (0, le_word bs)))))"

text \<open>The length of the string, and the bytes placed in \<open>buf\<close>.\<close>

definition fetchstr :: "u64 \<Rightarrow> nat \<Rightarrow> ('s kproc_scheme, int \<times> u8 list) kop" where
  "fetchstr addr mx =
     kbind myproc (\<lambda>p.
     kbind (pget pagetable p) (\<lambda>pt.
     kbind (copyinstr pt addr mx) (\<lambda>(r, buf).
     if r < 0 then kret (-1, buf)
     else kret (int (length (takeWhile (\<lambda>b. b \<noteq> 0) buf)), buf))))"

definition argraw :: "nat \<Rightarrow> ('s kproc_scheme, u64) kop" where
  "argraw n =
     (if n \<le> 5 then
        kbind myproc (\<lambda>p. kbind (pget trapframe p) (\<lambda>tf. kget (\<lambda>s. ld64 (mem s) (tf + tf_a n))))
      else kpanic ''argraw'')"

definition argint :: "nat \<Rightarrow> ('s kproc_scheme, u32) kop" where
  "argint n = kbind (argraw n) (\<lambda>v. kret (ucast v))"

definition argaddr :: "nat \<Rightarrow> ('s kproc_scheme, u64) kop" where
  "argaddr n = argraw n"

definition argstr :: "nat \<Rightarrow> nat \<Rightarrow> ('s kproc_scheme, int \<times> u8 list) kop" where
  "argstr n mx = kbind (argaddr n) (\<lambda>addr. fetchstr addr mx)"

section \<open>Loading a program\<close>

definition ELF_MAGIC :: u32 where [simp]: "ELF_MAGIC = 0x464C457F"
definition ELF_PROG_LOAD :: u32 where [simp]: "ELF_PROG_LOAD = 1"
definition USERSTACK :: u64 where [simp]: "USERSTACK = 1"

definition get64 :: "u8 list \<Rightarrow> nat \<Rightarrow> u64" where
  "get64 bs off = le_word (take 8 (drop off bs))"

record elfhdr =
  e_magic :: u32
  e_entry :: u64
  e_phoff :: u64
  e_phnum :: u16

record proghdr =
  ph_type :: u32
  ph_flags :: u32
  ph_off :: u64
  ph_vaddr :: u64
  ph_filesz :: u64
  ph_memsz :: u64

definition get_elfhdr :: "u8 list \<Rightarrow> elfhdr" where
  "get_elfhdr bs = \<lparr>e_magic = get32 bs 0, e_entry = get64 bs 24, e_phoff = get64 bs 32, e_phnum = get16 bs 56\<rparr>"

definition get_proghdr :: "u8 list \<Rightarrow> proghdr" where
  "get_proghdr bs = \<lparr>ph_type = get32 bs 0, ph_flags = get32 bs 4, ph_off = get64 bs 8, ph_vaddr = get64 bs 16,
     ph_filesz = get64 bs 32, ph_memsz = get64 bs 40\<rparr>"

definition flags2perm :: "u32 \<Rightarrow> u64" where
  "flags2perm flags =
     (let perm = (if flags AND 1 \<noteq> 0 then PTE_X else 0)
      in if flags AND 2 \<noteq> 0 then perm OR PTE_W else perm)"

text \<open>What \<open>readi\<close> delivers to the physical address \<open>pa\<close> is stored there.\<close>

function loadseg_loop :: "u64 \<Rightarrow> u64 \<Rightarrow> nat \<Rightarrow> u32 \<Rightarrow> nat \<Rightarrow> nat \<Rightarrow> ('s kfs_scheme, int) kop" where
  "loadseg_loop pt va ip offset i sz =
     (if \<not> i < sz then kret 0
      else kbind (walkaddr pt (va + of_nat i)) (\<lambda>pa.
        if pa = 0 then kpanic ''loadseg: address should exist''
        else let n = (if sz - i < 4096 then sz - i else 4096) in
          kbind (readi ip KernDst (offset + of_nat i) (of_nat n)) (\<lambda>(r, bs).
          kseq (kmod (\<lambda>s. s\<lparr>mem := mem_store (mem s) pa bs\<rparr>))
          (if r \<noteq> int n then kret (-1)
           else loadseg_loop pt va ip offset (i + 4096) sz))))"
  by pat_completeness auto
termination
  by (relation "measure (\<lambda>(pt, va, ip, offset, i, sz). sz - i)") auto

declare loadseg_loop.simps [simp del]

definition loadseg :: "u64 \<Rightarrow> u64 \<Rightarrow> nat \<Rightarrow> u32 \<Rightarrow> u32 \<Rightarrow> ('s kfs_scheme, int) kop" where
  "loadseg pt va ip offset sz = loadseg_loop pt va ip offset 0 (unat sz)"

text \<open>The loop over the program headers; the result says whether it went through, and the size reached.\<close>

primrec exec_load :: "nat \<Rightarrow> nat \<Rightarrow> u64 \<Rightarrow> u32 \<Rightarrow> u64 \<Rightarrow> ('s kfs_scheme, bool \<times> u64) kop" where
  "exec_load 0 ip pt off sz = kret (True, sz)"
| "exec_load (Suc k) ip pt off sz =
     kbind (readi ip KernDst off 56) (\<lambda>(r, bs).
     let ph = get_proghdr bs in
     if r \<noteq> 56 then kret (False, sz)
     else if ph_type ph \<noteq> ELF_PROG_LOAD then exec_load k ip pt (off + 56) sz
     else if ph_memsz ph < ph_filesz ph then kret (False, sz)
     else if ph_vaddr ph + ph_memsz ph < ph_vaddr ph then kret (False, sz)
     else if ph_vaddr ph mod PGSIZE \<noteq> 0 then kret (False, sz)
     else kbind (uvmalloc pt sz (ph_vaddr ph + ph_memsz ph) (flags2perm (ph_flags ph))) (\<lambda>sz1.
       if sz1 = 0 then kret (False, sz)
       else kbind (loadseg pt (ph_vaddr ph) ip (ucast (ph_off ph)) (ucast (ph_filesz ph))) (\<lambda>r.
         if r < 0 then kret (False, sz1) else exec_load k ip pt (off + 56) sz1)))"

text \<open>Pushing the argument strings; the addresses pushed come back in \<open>ustack\<close>, \<open>None\<close> is \<open>goto bad\<close>.\<close>

primrec push_args :: "u8 list list \<Rightarrow> u64 \<Rightarrow> u64 \<Rightarrow> u64 \<Rightarrow> nat \<Rightarrow> u64 list \<Rightarrow> ('s kmem_scheme, (u64 \<times> u64 list) option) kop" where
  "push_args [] pt sp stackbase argc ustack = kret (Some (sp, ustack))"
| "push_args (s # argv) pt sp stackbase argc ustack =
     (if argc \<ge> MAXARG then kret None
      else let sp = sp - of_nat (length s); sp = sp - sp mod 16 in
        if sp < stackbase then kret None
        else kbind (copyout pt sp s) (\<lambda>r.
          if r < 0 then kret None
          else push_args argv pt sp stackbase (Suc argc) (ustack @ [sp])))"

text \<open>The last component of the path: what follows the last slash.\<close>

definition last_elem :: "u8 list \<Rightarrow> u8 list" where
  "last_elem path = rev (takeWhile (\<lambda>c. c \<noteq> 47) (rev path))"

definition set_name :: "u8 list \<Rightarrow> proc \<Rightarrow> proc" where
  "set_name src q = q\<lparr>pname := map (safestrcpy (cp (pname q)) (cp src) 16) [0..<16]\<rparr>"

definition st_tf :: "nat \<Rightarrow> u64 \<Rightarrow> u64 \<Rightarrow> ('s kproc_scheme, unit) kop" where
  "st_tf p off v = kbind (pget trapframe p) (\<lambda>tf. kmod (\<lambda>s. s\<lparr>mem := st64 (mem s) (tf + off) v\<rparr>))"

text \<open>Label \<open>bad\<close>.\<close>

definition exec_bad :: "u64 \<Rightarrow> u64 \<Rightarrow> nat option \<Rightarrow> ('s kfs_scheme, int) kop" where
  "exec_bad pt sz ip =
     kseq (if pt \<noteq> 0 then proc_freepagetable pt sz else kret ())
    (kseq (case ip of None \<Rightarrow> kret () | Some i \<Rightarrow> kseq (iunlockput i) end_op)
     (kret (-1)))"

text \<open>The second half: stack, arguments, and the switch to the new image.\<close>

definition exec_commit :: "u8 list \<Rightarrow> u8 list list \<Rightarrow> u64 \<Rightarrow> u64 \<Rightarrow> u64 \<Rightarrow> ('s kfs_scheme, int) kop" where
  "exec_commit path argv pt sz entry =
     kbind myproc (\<lambda>p.
     kbind (pget psz p) (\<lambda>oldsz.
     let sz = PGROUNDUP sz in
     kbind (uvmalloc pt sz (sz + (USERSTACK + 1) * PGSIZE) PTE_W) (\<lambda>sz1.
     if sz1 = 0 then exec_bad pt sz None
     else kseq (uvmclear pt (sz1 - (USERSTACK + 1) * PGSIZE))
       (let sp = sz1; stackbase = sp - USERSTACK * PGSIZE in
        kbind (push_args argv pt sp stackbase 0 []) (\<lambda>r.
        case r of
          None \<Rightarrow> exec_bad pt sz1 None
        | Some (sp, ustack) \<Rightarrow>
            let argc = length ustack; ustack = ustack @ [0];
                sp = sp - of_nat (argc + 1) * 8; sp = sp - sp mod 16 in
            if sp < stackbase then exec_bad pt sz1 None
            else kbind (copyout pt sp (concat (map (le_bytes 8) ustack))) (\<lambda>r.
              if r < 0 then exec_bad pt sz1 None
              else kseq (st_tf p (tf_a 1) sp)
                  (kseq (pmod (set_name (last_elem path)) p)
                  (kbind (pget pagetable p) (\<lambda>oldpt.
                   kseq (pmod (\<lambda>q. q\<lparr>pagetable := pt, psz := sz1\<rparr>) p)
                  (kseq (st_tf p tf_epc entry)
                  (kseq (st_tf p tf_sp sp)
                  (kseq (proc_freepagetable oldpt oldsz)
                   (kret (int argc))))))))))))))"

definition exec :: "u8 list \<Rightarrow> u8 list list \<Rightarrow> ('s kfs_scheme, int) kop" where
  "exec path argv =
     kbind myproc (\<lambda>p.
     kseq begin_op
    (kbind (namei path) (\<lambda>r.
     case r of
       None \<Rightarrow> kseq end_op (kret (-1))
     | Some ip \<Rightarrow>
         kseq (ilock ip)
        (kbind (readi ip KernDst 0 64) (\<lambda>(n, bs).
         let elf = get_elfhdr bs in
         if n \<noteq> 64 then exec_bad 0 0 (Some ip)
         else if e_magic elf \<noteq> ELF_MAGIC then exec_bad 0 0 (Some ip)
         else kbind (proc_pagetable p) (\<lambda>pt.
           if pt = 0 then exec_bad 0 0 (Some ip)
           else kbind (exec_load (unat (e_phnum elf)) ip pt (ucast (e_phoff elf)) 0) (\<lambda>(ok, sz).
             if \<not> ok then exec_bad pt sz (Some ip)
             else kseq (iunlockput ip)
                 (kseq end_op
                  (exec_commit path argv pt sz (e_entry elf))))))))))"

end
