(* ===== verification/Sysfile.thy ===== *)
theory Sysfile
  imports Exec
begin

text \<open>
  The file-system calls, \<^verbatim>\<open>kernel/sysfile.c\<close>. Each returns the \<open>uint64\<close> that goes to \<open>a0\<close>; an
  error is \<open>-1\<close>. Labels \<open>bad\<close> and \<open>fail\<close> are definitions of their own.
\<close>

section \<open>Descriptors\<close>

definition MAXPATH :: nat where [simp]: "MAXPATH = 128"

definition ret_int :: "int \<Rightarrow> u64" where
  "ret_int r = scast (word_of_int r :: u32)"

definition argfd :: "nat \<Rightarrow> ('s kfile_scheme, (nat \<times> nat) option) kop" where
  "argfd n =
     kbind (argint n) (\<lambda>w.
     kbind myproc (\<lambda>p.
     kbind (pget ofile p) (\<lambda>fs.
     let fd = sint w in
     if fd < 0 \<or> fd \<ge> int NOFILE then kret None
     else case fs ! nat fd of None \<Rightarrow> kret None | Some f \<Rightarrow> kret (Some (nat fd, f)))))"

definition set_fd :: "nat \<Rightarrow> nat option \<Rightarrow> ('s kfile_scheme, unit) kop" where
  "set_fd fd f = kbind myproc (\<lambda>p. pmod (\<lambda>q. q\<lparr>ofile := (ofile q)[fd := f]\<rparr>) p)"

definition fdalloc :: "nat \<Rightarrow> ('s kfile_scheme, nat option) kop" where
  "fdalloc f =
     kbind myproc (\<lambda>p.
     kbind (pget ofile p) (\<lambda>fs.
     case find_idx (\<lambda>x. x = None) fs of
       None \<Rightarrow> kret None
     | Some fd \<Rightarrow> kseq (set_fd fd (Some f)) (kret (Some fd))))"

definition sys_dup :: "('s kfile_scheme, u64) kop" where
  "sys_dup =
     kbind (argfd 0) (\<lambda>r.
     case r of
       None \<Rightarrow> kret (-1)
     | Some (_, f) \<Rightarrow>
         kbind (fdalloc f) (\<lambda>r.
         case r of
           None \<Rightarrow> kret (-1)
         | Some fd \<Rightarrow> kseq (filedup f) (kret (of_nat fd))))"

definition sys_read :: "('s kfile_scheme, u64) kop" where
  "sys_read =
     kbind (argaddr 1) (\<lambda>p.
     kbind (argint 2) (\<lambda>n.
     kbind (argfd 0) (\<lambda>r.
     case r of
       None \<Rightarrow> kret (-1)
     | Some (_, f) \<Rightarrow> kbind (fileread f p n) (\<lambda>r. kret (ret_int r)))))"

definition sys_write :: "('s kfile_scheme, u64) kop" where
  "sys_write =
     kbind (argaddr 1) (\<lambda>p.
     kbind (argint 2) (\<lambda>n.
     kbind (argfd 0) (\<lambda>r.
     case r of
       None \<Rightarrow> kret (-1)
     | Some (_, f) \<Rightarrow> kbind (filewrite f p n) (\<lambda>r. kret (ret_int r)))))"

definition sys_close :: "('s kfile_scheme, u64) kop" where
  "sys_close =
     kbind (argfd 0) (\<lambda>r.
     case r of
       None \<Rightarrow> kret (-1)
     | Some (fd, f) \<Rightarrow> kseq (set_fd fd None) (kseq (fileclose f) (kret 0)))"

definition sys_fstat :: "('s kfile_scheme, u64) kop" where
  "sys_fstat =
     kbind (argaddr 1) (\<lambda>st.
     kbind (argfd 0) (\<lambda>r.
     case r of
       None \<Rightarrow> kret (-1)
     | Some (_, f) \<Rightarrow> kbind (filestat f st) (\<lambda>r. kret (ret_int r))))"

section \<open>Names\<close>

text \<open>A path argument: \<open>None\<close> when it cannot be fetched, otherwise its characters.\<close>

definition argpath :: "nat \<Rightarrow> ('s kproc_scheme, u8 list option) kop" where
  "argpath n =
     kbind (argstr n MAXPATH) (\<lambda>(r, buf).
     kret (if r < 0 then None else Some (takeWhile (\<lambda>b. b \<noteq> 0) buf)))"

definition link_bad :: "nat \<Rightarrow> ('s kfile_scheme, u64) kop" where
  "link_bad ip =
     kseq (ilock ip)
    (kseq (imod (\<lambda>i. i\<lparr>inlink := inlink i - 1\<rparr>) ip)
    (kseq (iupdate ip)
    (kseq (iunlockput ip)
    (kseq end_op
     (kret (-1))))))"

definition sys_link :: "('s kfile_scheme, u64) kop" where
  "sys_link =
     kbind (argpath 0) (\<lambda>old. case old of None \<Rightarrow> kret (-1) | Some old \<Rightarrow>
     kbind (argpath 1) (\<lambda>new. case new of None \<Rightarrow> kret (-1) | Some new \<Rightarrow>
     kseq begin_op
    (kbind (namei old) (\<lambda>r.
     case r of
       None \<Rightarrow> kseq end_op (kret (-1))
     | Some ip \<Rightarrow>
         kseq (ilock ip)
        (kbind (ifld itype ip) (\<lambda>t.
         if t = T_DIR then kseq (iunlockput ip) (kseq end_op (kret (-1)))
         else kseq (imod (\<lambda>i. i\<lparr>inlink := inlink i + 1\<rparr>) ip)
             (kseq (iupdate ip)
             (kseq (iunlock ip)
             (kbind (nameiparent new) (\<lambda>r.
              case r of
                None \<Rightarrow> link_bad ip
              | Some (dp, name) \<Rightarrow>
                  kseq (ilock dp)
                 (kbind (ifld idev dp) (\<lambda>dd.
                  kbind (ifld (\<lambda>i. i) ip) (\<lambda>i.
                  kbind (if dd \<noteq> idev i then kret (-1) else dirlink dp name (inum i)) (\<lambda>r.
                  if r < 0 then kseq (iunlockput dp) (link_bad ip)
                  else kseq (iunlockput dp)
                      (kseq (iput ip)
                      (kseq end_op
                       (kret 0)))))))))))))))))"

primrec isdirempty_loop :: "nat \<Rightarrow> nat \<Rightarrow> nat \<Rightarrow> ('s kfs_scheme, bool) kop" where
  "isdirempty_loop 0 off dp = kret True"
| "isdirempty_loop (Suc k) off dp =
     kbind (ifld isize dp) (\<lambda>sz.
     if \<not> off < unat sz then kret True
     else kbind (readi dp KernDst (of_nat off) 16) (\<lambda>(r, de).
       if r \<noteq> 16 then kpanic ''isdirempty: readi''
       else if de_inum de \<noteq> 0 then kret False
       else isdirempty_loop k (off + 16) dp))"

definition isdirempty :: "nat \<Rightarrow> ('s kfs_scheme, bool) kop" where
  "isdirempty dp = kbind (ifld isize dp) (\<lambda>sz. isdirempty_loop (unat sz div 16 + 1) 32 dp)"

definition unlink_bad :: "nat \<Rightarrow> ('s kfile_scheme, u64) kop" where
  "unlink_bad dp = kseq (iunlockput dp) (kseq end_op (kret (-1)))"

text \<open>The names \<open>.\<close> and \<open>..\<close>.\<close>

definition dot :: "u8 list" where "dot = [46]"
definition dotdot :: "u8 list" where "dotdot = [46, 46]"

definition sys_unlink :: "('s kfile_scheme, u64) kop" where
  "sys_unlink =
     kbind (argpath 0) (\<lambda>path. case path of None \<Rightarrow> kret (-1) | Some path \<Rightarrow>
     kseq begin_op
    (kbind (nameiparent path) (\<lambda>r.
     case r of
       None \<Rightarrow> kseq end_op (kret (-1))
     | Some (dp, name) \<Rightarrow>
         kseq (ilock dp)
         (if namecmp name dot = 0 \<or> namecmp name dotdot = 0 then unlink_bad dp
          else kbind (dirlookup dp name) (\<lambda>r.
            case r of
              None \<Rightarrow> unlink_bad dp
            | Some (ip, off) \<Rightarrow>
                kseq (ilock ip)
               (kbind (ifld (\<lambda>i. i) ip) (\<lambda>i.
                if sint (inlink i) < 1 then kpanic ''unlink: nlink < 1''
                else kbind (if itype i = T_DIR then isdirempty ip else kret True) (\<lambda>e.
                  if \<not> e then kseq (iunlockput ip) (unlink_bad dp)
                  else kbind (writei dp (KernSrc (replicate 16 0)) (of_nat off) 16) (\<lambda>w.
                    if w \<noteq> 16 then kpanic ''unlink: writei''
                    else kseq (if itype i = T_DIR then
                                 kseq (imod (\<lambda>d. d\<lparr>inlink := inlink d - 1\<rparr>) dp) (iupdate dp)
                               else kret ())
                        (kseq (iunlockput dp)
                        (kseq (imod (\<lambda>i. i\<lparr>inlink := inlink i - 1\<rparr>) ip)
                        (kseq (iupdate ip)
                        (kseq (iunlockput ip)
                        (kseq end_op
                         (kret 0)))))))))))))))"

definition create_fail :: "nat \<Rightarrow> nat \<Rightarrow> ('s kfile_scheme, nat option) kop" where
  "create_fail ip dp =
     kseq (imod (\<lambda>i. i\<lparr>inlink := 0\<rparr>) ip)
    (kseq (iupdate ip)
    (kseq (iunlockput ip)
    (kseq (iunlockput dp)
     (kret None))))"

text \<open>Entering the new inode into its directory, after it has been initialised.\<close>

definition create_link :: "nat \<Rightarrow> nat \<Rightarrow> u8 list \<Rightarrow> u16 \<Rightarrow> ('s kfile_scheme, nat option) kop" where
  "create_link ip dp name type =
     kbind (ifld inum ip) (\<lambda>n.
     kbind (ifld inum dp) (\<lambda>dn.
     kbind (if type = T_DIR then
              kbind (dirlink ip dot n) (\<lambda>r. if r < 0 then kret (-1) else dirlink ip dotdot dn)
            else kret 0) (\<lambda>r.
     if r < 0 then create_fail ip dp
     else kbind (dirlink dp name n) (\<lambda>r.
       if r < 0 then create_fail ip dp
       else kseq (if type = T_DIR then
                    kseq (imod (\<lambda>d. d\<lparr>inlink := inlink d + 1\<rparr>) dp) (iupdate dp)
                  else kret ())
           (kseq (iunlockput dp)
            (kret (Some ip)))))))"

definition create :: "u8 list \<Rightarrow> u16 \<Rightarrow> u16 \<Rightarrow> u16 \<Rightarrow> ('s kfile_scheme, nat option) kop" where
  "create path type major minor =
     kbind (nameiparent path) (\<lambda>r.
     case r of
       None \<Rightarrow> kret None
     | Some (dp, name) \<Rightarrow>
         kseq (ilock dp)
        (kbind (dirlookup dp name) (\<lambda>r.
         case r of
           Some (ip, _) \<Rightarrow>
             kseq (iunlockput dp)
            (kseq (ilock ip)
            (kbind (ifld itype ip) (\<lambda>t.
             if type = T_FILE \<and> (t = T_FILE \<or> t = T_DEVICE) then kret (Some ip)
             else kseq (iunlockput ip) (kret None))))
         | None \<Rightarrow>
             kbind (ifld idev dp) (\<lambda>d.
             kbind (ialloc d type) (\<lambda>r.
             case r of
               None \<Rightarrow> kseq (iunlockput dp) (kret None)
             | Some ip \<Rightarrow>
                 kseq (ilock ip)
                (kseq (imod (\<lambda>i. i\<lparr>imajor := major, iminor := minor, inlink := 1\<rparr>) ip)
                (kseq (iupdate ip)
                 (create_link ip dp name type))))))))"

section \<open>Opening files\<close>

definition O_WRONLY :: u32 where [simp]: "O_WRONLY = 0x001"
definition O_RDWR :: u32 where [simp]: "O_RDWR = 0x002"
definition O_CREATE :: u32 where [simp]: "O_CREATE = 0x200"
definition O_TRUNC :: u32 where [simp]: "O_TRUNC = 0x400"

text \<open>The second half of \<open>sys_open\<close>, with the inode locked.\<close>

definition open_file :: "nat \<Rightarrow> u32 \<Rightarrow> ('s kfile_scheme, u64) kop" where
  "open_file ip omode =
     kbind (ifld (\<lambda>i. i) ip) (\<lambda>i.
     if itype i = T_DEVICE \<and> (sint (imajor i) < 0 \<or> sint (imajor i) \<ge> NDEV) then
       kseq (iunlockput ip) (kseq end_op (kret (-1)))
     else kbind filealloc (\<lambda>r.
       case r of
         None \<Rightarrow> kseq (iunlockput ip) (kseq end_op (kret (-1)))
       | Some f \<Rightarrow>
           kbind (fdalloc f) (\<lambda>r.
           case r of
             None \<Rightarrow> kseq (fileclose f) (kseq (iunlockput ip) (kseq end_op (kret (-1))))
           | Some fd \<Rightarrow>
               kseq (if itype i = T_DEVICE then fmod (\<lambda>x. x\<lparr>ftype := FD_DEVICE, fmajor := imajor i\<rparr>) f
                     else fmod (\<lambda>x. x\<lparr>ftype := FD_INODE, foff := 0\<rparr>) f)
              (kseq (fmod (\<lambda>x. x\<lparr>fip := ip, readable := (omode AND O_WRONLY = 0),
                   writable := (omode AND O_WRONLY \<noteq> 0 \<or> omode AND O_RDWR \<noteq> 0)\<rparr>) f)
              (kseq (if omode AND O_TRUNC \<noteq> 0 \<and> itype i = T_FILE then itrunc ip else kret ())
              (kseq (iunlock ip)
              (kseq end_op
               (kret (of_nat fd)))))))))"

definition sys_open :: "('s kfile_scheme, u64) kop" where
  "sys_open =
     kbind (argint 1) (\<lambda>omode.
     kbind (argpath 0) (\<lambda>path. case path of None \<Rightarrow> kret (-1) | Some path \<Rightarrow>
     kseq begin_op
     (if omode AND O_CREATE \<noteq> 0 then
        kbind (create path T_FILE 0 0) (\<lambda>r.
        case r of None \<Rightarrow> kseq end_op (kret (-1)) | Some ip \<Rightarrow> open_file ip omode)
      else kbind (namei path) (\<lambda>r.
        case r of
          None \<Rightarrow> kseq end_op (kret (-1))
        | Some ip \<Rightarrow>
            kseq (ilock ip)
           (kbind (ifld itype ip) (\<lambda>t.
            if t = T_DIR \<and> omode \<noteq> 0 then kseq (iunlockput ip) (kseq end_op (kret (-1)))
            else open_file ip omode))))))"

definition sys_mkdir :: "('s kfile_scheme, u64) kop" where
  "sys_mkdir =
     kseq begin_op
    (kbind (argpath 0) (\<lambda>path.
     kbind (case path of None \<Rightarrow> kret None | Some path \<Rightarrow> create path T_DIR 0 0) (\<lambda>r.
     case r of
       None \<Rightarrow> kseq end_op (kret (-1))
     | Some ip \<Rightarrow> kseq (iunlockput ip) (kseq end_op (kret 0)))))"

definition sys_mknod :: "('s kfile_scheme, u64) kop" where
  "sys_mknod =
     kseq begin_op
    (kbind (argint 1) (\<lambda>major.
     kbind (argint 2) (\<lambda>minor.
     kbind (argpath 0) (\<lambda>path.
     kbind (case path of None \<Rightarrow> kret None | Some path \<Rightarrow> create path T_DEVICE (ucast major) (ucast minor)) (\<lambda>r.
     case r of
       None \<Rightarrow> kseq end_op (kret (-1))
     | Some ip \<Rightarrow> kseq (iunlockput ip) (kseq end_op (kret 0)))))))"

definition iput_opt :: "nat option \<Rightarrow> ('s kfs_scheme, unit) kop" where
  "iput_opt c = (case c of None \<Rightarrow> kpanic ''null inode'' | Some i \<Rightarrow> iput i)"

definition sys_chdir :: "('s kfile_scheme, u64) kop" where
  "sys_chdir =
     kbind myproc (\<lambda>p.
     kseq begin_op
    (kbind (argpath 0) (\<lambda>path.
     kbind (case path of None \<Rightarrow> kret None | Some path \<Rightarrow> namei path) (\<lambda>r.
     case r of
       None \<Rightarrow> kseq end_op (kret (-1))
     | Some ip \<Rightarrow>
         kseq (ilock ip)
        (kbind (ifld itype ip) (\<lambda>t.
         if t \<noteq> T_DIR then kseq (iunlockput ip) (kseq end_op (kret (-1)))
         else kseq (iunlock ip)
             (kbind (pget cwd p) (\<lambda>c.
              kseq (iput_opt c)
             (kseq end_op
             (kseq (pmod (\<lambda>q. q\<lparr>cwd := Some ip\<rparr>) p)
              (kret 0)))))))))))"

section \<open>Programs and pipes\<close>

primrec free_argv :: "u64 list \<Rightarrow> ('s kmem_scheme, unit) kop" where
  "free_argv [] = kret ()"
| "free_argv (a # as) = kseq (kfree a) (free_argv as)"

text \<open>
  Fetching the argument vector into fresh pages: \<open>k\<close> slots of \<open>argv\<close> are left. The result is the
  list of pages and strings, or \<open>Inl\<close> the pages to free on the way out.
\<close>

primrec fetch_argv :: "nat \<Rightarrow> u64 \<Rightarrow> u64 list \<Rightarrow> u8 list list \<Rightarrow> ('s kproc_scheme, u64 list + (u64 list \<times> u8 list list)) kop" where
  "fetch_argv 0 ua pages strs = kret (Inl pages)"
| "fetch_argv (Suc k) ua pages strs =
     kbind (fetchaddr ua) (\<lambda>(r, uarg).
     if r < 0 then kret (Inl pages)
     else if uarg = 0 then kret (Inr (pages, strs))
     else kbind kalloc (\<lambda>pg.
       if pg = 0 then kret (Inl pages)
       else kbind (fetchstr uarg (unat PGSIZE)) (\<lambda>(r, buf).
         kseq (kmod (\<lambda>s. s\<lparr>mem := mem_store (mem s) pg buf\<rparr>))
         (if r < 0 then kret (Inl (pages @ [pg]))
          else fetch_argv k (ua + 8) (pages @ [pg]) (strs @ [takeWhile (\<lambda>b. b \<noteq> 0) buf @ [0]])))))"

definition sys_exec :: "('s kfile_scheme, u64) kop" where
  "sys_exec =
     kbind (argaddr 1) (\<lambda>uargv.
     kbind (argpath 0) (\<lambda>path. case path of None \<Rightarrow> kret (-1) | Some path \<Rightarrow>
     kbind (fetch_argv MAXARG uargv [] []) (\<lambda>r.
     case r of
       Inl pages \<Rightarrow> kseq (free_argv pages) (kret (-1))
     | Inr (pages, strs) \<Rightarrow>
         kbind (exec path strs) (\<lambda>r.
         kseq (free_argv pages) (kret (ret_int r))))))"

text \<open>The two ways \<open>sys_pipe\<close> fails after \<open>pipealloc\<close>.\<close>

definition pipe_undo :: "nat list \<Rightarrow> nat \<Rightarrow> nat \<Rightarrow> ('s kfile_scheme, u64) kop" where
  "pipe_undo fds rd wr =
     kseq (fold (\<lambda>fd k. kseq k (set_fd fd None)) fds (kret ()))
    (kseq (fileclose rd)
    (kseq (fileclose wr)
     (kret (-1))))"

definition sys_pipe :: "('s kfile_scheme, u64) kop" where
  "sys_pipe =
     kbind myproc (\<lambda>p.
     kbind (argaddr 0) (\<lambda>fdarray.
     kbind pipealloc (\<lambda>r.
     case r of
       None \<Rightarrow> kret (-1)
     | Some (rd, wr) \<Rightarrow>
         kbind (fdalloc rd) (\<lambda>r0.
         case r0 of
           None \<Rightarrow> pipe_undo [] rd wr
         | Some fd0 \<Rightarrow>
             kbind (fdalloc wr) (\<lambda>r1.
             case r1 of
               None \<Rightarrow> pipe_undo [fd0] rd wr
             | Some fd1 \<Rightarrow>
                 kbind (pget pagetable p) (\<lambda>pt.
                 kbind (copyout pt fdarray (le_bytes 4 (of_nat fd0 :: u32))) (\<lambda>c0.
                 if c0 < 0 then pipe_undo [fd0, fd1] rd wr
                 else kbind (copyout pt (fdarray + 4) (le_bytes 4 (of_nat fd1 :: u32))) (\<lambda>c1.
                   if c1 < 0 then pipe_undo [fd0, fd1] rd wr
                   else kret 0))))))))"

end
