(* ===== verification/Virtio.thy ===== *)
theory Virtio
  imports File
begin

text \<open>
  The disk driver, \<^verbatim>\<open>kernel/virtio_disk.c\<close>. Descriptors, the available and used rings and the driver's
  book-keeping are lists of \<open>NUM\<close> entries; the DMA address in a descriptor says what it points to
  (a command header, the data of a buffer, a status byte). \<open>virtio_disk_rw\<close> sleeps twice, so it is
  two operations: submitting the request, and finishing after the interrupt. The device is not
  part of the repository: one step of it, \<open>vd_device\<close>, takes a request it has read from the available
  ring, does the transfer its descriptors ask for and reports it in the used ring, as the
  specification of virtio block devices says.
\<close>

section \<open>Definitions\<close>

definition NUM :: nat where [simp]: "NUM = 8"
definition VRING_DESC_F_NEXT :: u16 where [simp]: "VRING_DESC_F_NEXT = 1"
definition VRING_DESC_F_WRITE :: u16 where [simp]: "VRING_DESC_F_WRITE = 2"
definition VIRTIO_BLK_T_IN :: u32 where [simp]: "VIRTIO_BLK_T_IN = 0"
definition VIRTIO_BLK_T_OUT :: u32 where [simp]: "VIRTIO_BLK_T_OUT = 1"

datatype dma = DmaNull | DmaOp nat | DmaData nat | DmaStatus nat

record virtq_desc =
  daddr :: dma
  dlen :: u32
  dflags :: u16
  dnext :: u16

record virtio_blk_req =
  rtype :: u32
  rsector :: u64

record vdisk =
  desc :: "virtq_desc list"
  avail_idx :: u16
  avail_ring :: "u16 list"
  used_dev_idx :: u16
  used_ring :: "u32 list"
  vfree :: "bool list"
  used_idx :: u16
  info_b :: "nat option list"
  info_status :: "u8 list"
  vops :: "virtio_blk_req list"

record kvd = kfile +
  vd :: vdisk

definition vdmod :: "(vdisk \<Rightarrow> vdisk) \<Rightarrow> ('s kvd_scheme, unit) kop" where
  "vdmod f = kmod (\<lambda>s. s\<lparr>vd := f (vd s)\<rparr>)"

subsection \<open>Initialisation\<close>

text \<open>
  The registers of the device as the driver reads them, and the writes it makes, in order: offset
  and value. The second value of \<open>STATUS\<close> is what is read after offering \<open>FEATURES_OK\<close>.
\<close>

record vregs =
  r_magic :: u32
  r_version :: u32
  r_device_id :: u32
  r_vendor_id :: u32
  r_features :: u32
  r_status :: u32
  r_queue_ready :: u32
  r_queue_num_max :: u32

definition drop_feature :: "nat \<Rightarrow> u64 \<Rightarrow> u64" where
  "drop_feature k f = f AND NOT (scast (push_bit k 1 :: u32))"

definition negotiate :: "u32 \<Rightarrow> u64" where
  "negotiate f = drop_feature 28 (drop_feature 29 (drop_feature 27 (drop_feature 12 (drop_feature 11
     (drop_feature 7 (drop_feature 5 (ucast f)))))))"

definition lo32 :: "u64 \<Rightarrow> u32" where "lo32 a = ucast a"
definition hi32 :: "u64 \<Rightarrow> u32" where "hi32 a = ucast (drop_bit 32 a)"

definition zero_page :: "u64 \<Rightarrow> ('s kmem_scheme, unit) kop" where
  "zero_page pa = kmod (\<lambda>s. s\<lparr>mem := memset pa 0 (ucast PGSIZE) (mem s)\<rparr>)"

definition virtio_disk_init :: "vregs \<Rightarrow> ('s kvd_scheme, (nat \<times> u32) list) kop" where
  "virtio_disk_init R =
     (if r_magic R \<noteq> 0x74726976 \<or> r_version R \<noteq> 2 \<or> r_device_id R \<noteq> 2 \<or> r_vendor_id R \<noteq> 0x554d4551
      then kpanic ''could not find virtio disk''
      else let w1 = [(0x070, 0), (0x070, 1), (0x070, 1 OR 2), (0x020, ucast (negotiate (r_features R))), (0x070, 1 OR 2 OR 8)];
               status = r_status R
      in if status AND 8 = 0 then kpanic ''virtio disk FEATURES_OK unset''
      else if r_queue_ready R \<noteq> 0 then kpanic ''virtio disk should not be ready''
      else if r_queue_num_max R = 0 then kpanic ''virtio disk has no queue 0''
      else if r_queue_num_max R < of_nat NUM then kpanic ''virtio disk max queue too short''
      else kbind kalloc (\<lambda>d. kbind kalloc (\<lambda>a. kbind kalloc (\<lambda>u.
        if d = 0 \<or> a = 0 \<or> u = 0 then kpanic ''virtio disk kalloc''
        else kseq (zero_page d) (kseq (zero_page a) (kseq (zero_page u)
            (kseq (vdmod (\<lambda>v. v\<lparr>desc := replicate NUM \<lparr>daddr = DmaNull, dlen = 0, dflags = 0, dnext = 0\<rparr>,
                avail_idx := 0, avail_ring := replicate NUM 0, used_dev_idx := 0, used_ring := replicate NUM 0,
                vfree := replicate NUM True\<rparr>))
            (kret (w1 @ [(0x030, 0), (0x038, of_nat NUM), (0x080, lo32 d), (0x084, hi32 d), (0x090, lo32 a),
               (0x094, hi32 a), (0x0a0, lo32 u), (0x0a4, hi32 u), (0x044, 1), (0x070, status OR 4)])))))))))"

subsection \<open>Descriptors\<close>

definition alloc_desc :: "('s kvd_scheme, nat option) kop" where
  "alloc_desc =
     kbind (kget (\<lambda>s. find_idx (\<lambda>f. f) (vfree (vd s)))) (\<lambda>r.
     case r of
       None \<Rightarrow> kret None
     | Some i \<Rightarrow> kseq (vdmod (\<lambda>v. v\<lparr>vfree := (vfree v)[i := False]\<rparr>)) (kret (Some i)))"

definition free_desc :: "nat \<Rightarrow> ('s kvd_scheme, unit) kop" where
  "free_desc i =
     kbind (kget vd) (\<lambda>v.
     if i \<ge> NUM then kpanic ''free_desc 1''
     else if vfree v ! i then kpanic ''free_desc 2''
     else kseq (vdmod (\<lambda>v. v\<lparr>desc := (desc v)[i := \<lparr>daddr = DmaNull, dlen = 0, dflags = 0, dnext = 0\<rparr>],
                vfree := (vfree v)[i := True]\<rparr>))
          (wakeup Chan_disk_free))"

text \<open>
  A chain cannot be longer than the table: freeing a descriptor twice panics, so the fuel
  \<open>NUM + 1\<close> is never used up.
\<close>

primrec free_chain_loop :: "nat \<Rightarrow> nat \<Rightarrow> ('s kvd_scheme, unit) kop" where
  "free_chain_loop 0 i = (\<lambda>s. Diverge)"
| "free_chain_loop (Suc k) i =
     kbind (kget (\<lambda>s. desc (vd s) ! i)) (\<lambda>d.
     kseq (free_desc i)
     (if dflags d AND VRING_DESC_F_NEXT \<noteq> 0 then free_chain_loop k (unat (dnext d)) else kret ()))"

definition free_chain :: "nat \<Rightarrow> ('s kvd_scheme, unit) kop" where
  "free_chain i = free_chain_loop (NUM + 1) i"

primrec free_descs :: "nat list \<Rightarrow> ('s kvd_scheme, unit) kop" where
  "free_descs [] = kret ()"
| "free_descs (j # js) = kseq (free_desc j) (free_descs js)"

primrec alloc_descs :: "nat \<Rightarrow> nat list \<Rightarrow> ('s kvd_scheme, nat list option) kop" where
  "alloc_descs 0 idx = kret (Some idx)"
| "alloc_descs (Suc k) idx =
     kbind alloc_desc (\<lambda>r.
     case r of
       None \<Rightarrow> kseq (free_descs idx) (kret None)
     | Some i \<Rightarrow> alloc_descs k (idx @ [i]))"

definition alloc3_desc :: "('s kvd_scheme, nat list option) kop" where
  "alloc3_desc = alloc_descs 3 []"

subsection \<open>Requests\<close>

definition format_request :: "nat \<Rightarrow> bool \<Rightarrow> u64 \<Rightarrow> nat list \<Rightarrow> vdisk \<Rightarrow> vdisk" where
  "format_request b write sector idx v =
     (let i0 = idx ! 0; i1 = idx ! 1; i2 = idx ! 2 in
      v\<lparr>vops := (vops v)[i0 := \<lparr>rtype = (if write then VIRTIO_BLK_T_OUT else VIRTIO_BLK_T_IN), rsector = sector\<rparr>],
        desc := (desc v)
          [i0 := \<lparr>daddr = DmaOp i0, dlen = 16, dflags = VRING_DESC_F_NEXT, dnext = of_nat i1\<rparr>,
           i1 := \<lparr>daddr = DmaData b, dlen = of_nat BSIZE,
                  dflags = (if write then 0 else VRING_DESC_F_WRITE) OR VRING_DESC_F_NEXT, dnext = of_nat i2\<rparr>,
           i2 := \<lparr>daddr = DmaStatus i0, dlen = 1, dflags = VRING_DESC_F_WRITE, dnext = 0\<rparr>],
        info_status := (info_status v)[i0 := 0xff],
        info_b := (info_b v)[i0 := Some b],
        avail_ring := (avail_ring v)[unat (avail_idx v) mod NUM := of_nat i0],
        avail_idx := avail_idx v + 1\<rparr>)"

text \<open>The part of \<open>virtio_disk_rw\<close> up to its second \<open>sleep\<close>; the result is \<open>idx\<close>.\<close>

definition virtio_disk_submit :: "nat \<Rightarrow> bool \<Rightarrow> ('s kvd_scheme, nat list) kop" where
  "virtio_disk_submit b write =
     kbind (bfld blockno b) (\<lambda>n.
     let sector = ucast (n * 2) in
     kbind alloc3_desc (\<lambda>r.
     case r of
       None \<Rightarrow> kblock Chan_disk_free
     | Some idx \<Rightarrow>
         kseq (vdmod (format_request b write sector idx))
        (kseq (bmod (\<lambda>x. x\<lparr>diskf := True\<rparr>) b)
         (kret idx))))"

text \<open>The rest, from the test of the waiting loop on.\<close>

definition virtio_disk_finish :: "nat \<Rightarrow> nat \<Rightarrow> ('s kvd_scheme, unit) kop" where
  "virtio_disk_finish b i0 =
     kbind (bfld diskf b) (\<lambda>busy.
     if busy then kblock (Chan_buf b)
     else kseq (vdmod (\<lambda>v. v\<lparr>info_b := (info_b v)[i0 := None]\<rparr>)) (free_chain i0))"

subsection \<open>Completion\<close>

primrec vd_intr_loop :: "nat \<Rightarrow> ('s kvd_scheme, unit) kop" where
  "vd_intr_loop 0 = kret ()"
| "vd_intr_loop (Suc k) =
     kbind (kget vd) (\<lambda>v.
     let id = unat (used_ring v ! (unat (used_idx v) mod NUM)) in
     if info_status v ! id \<noteq> 0 then kpanic ''virtio_disk_intr status''
     else case info_b v ! id of
       None \<Rightarrow> kpanic ''null buffer''
     | Some b \<Rightarrow>
         kseq (bmod (\<lambda>x. x\<lparr>diskf := False\<rparr>) b)
        (kseq (wakeup (Chan_buf b))
        (kseq (vdmod (\<lambda>v. v\<lparr>used_idx := used_idx v + 1\<rparr>))
         (vd_intr_loop k))))"

text \<open>As many rounds as the device has added entries.\<close>

definition virtio_disk_intr :: "('s kvd_scheme, unit) kop" where
  "virtio_disk_intr = kbind (kget (\<lambda>s. unat (used_dev_idx (vd s) - used_idx (vd s)))) vd_intr_loop"

subsection \<open>The device\<close>

text \<open>
  One request: follow the three descriptors of the chain with head \<open>i0\<close>; transfer one block
  between the disk and the buffer the second one names, in the direction the command says; put
  0 into the status byte; append the head to the used ring.
\<close>

definition vd_device :: "nat \<Rightarrow> 's kvd_scheme \<Rightarrow> 's kvd_scheme" where
  "vd_device i0 s =
     (let v = vd s;
          d0 = desc v ! i0; d1 = desc v ! unat (dnext d0); d2 = desc v ! unat (dnext d1)
      in case (daddr d0, daddr d1, daddr d2) of
           (DmaOp op, DmaData b, DmaStatus st) \<Rightarrow>
             let q = vops v ! op; blk = (ucast (rsector q div 2) :: u32);
                 s = (if rtype q = VIRTIO_BLK_T_OUT then s\<lparr>disk := (disk s)(blk := bdata (bufs s ! b))\<rparr>
                      else s\<lparr>bufs := (bufs s)[b := (bufs s ! b)\<lparr>bdata := disk s blk\<rparr>]\<rparr>)
             in s\<lparr>vd := v\<lparr>info_status := (info_status v)[st := 0],
                     used_ring := (used_ring v)[unat (used_dev_idx v) mod NUM := of_nat i0],
                     used_dev_idx := used_dev_idx v + 1\<rparr>\<rparr>
         | _ \<Rightarrow> s)"

end
