(* ===== verification/Proc_Life.thy ===== *)
theory Proc_Life
  imports Sysfile Virtio
begin

text \<open>
  The life of a process, the rest of \<^verbatim>\<open>kernel/proc.c\<close>: \<open>userinit\<close>, \<open>fork\<close> and \<open>exit\<close>, which tie process
  slots to page tables, open files and directories; and \<^verbatim>\<open>kernel/sysproc.c\<close>.
\<close>

section \<open>Definitions\<close>

definition initcode :: "u8 list" where
  "initcode =
     [0x17, 0x05, 0x00, 0x00, 0x13, 0x05, 0x45, 0x02, 0x97, 0x05, 0x00,
      0x00, 0x93, 0x85, 0x35, 0x02, 0x93, 0x08, 0x70, 0x00, 0x73, 0x00,
      0x00, 0x00, 0x93, 0x08, 0x20, 0x00, 0x73, 0x00, 0x00, 0x00, 0xef,
      0xf0, 0x9f, 0xff, 0x2f, 0x69, 0x6e, 0x69, 0x74, 0x00, 0x00, 0x24,
      0x00, 0x00, 0x00, 0x00, 0x00, 0x00, 0x00, 0x00]"

text \<open>\<open>allocproc\<close> failing at boot would be a null dereference.\<close>

definition userinit :: "('s kfs_scheme, unit) kop" where
  "userinit =
     kbind allocproc (\<lambda>r.
     kseq (kmod (\<lambda>s. s\<lparr>initproc := r\<rparr>))
     (case r of
        None \<Rightarrow> kpanic ''null process''
      | Some p \<Rightarrow>
          kbind (pget pagetable p) (\<lambda>pt.
          kseq (uvmfirst pt initcode)
         (kseq (pmod (\<lambda>q. q\<lparr>psz := PGSIZE\<rparr>) p)
         (kseq (st_tf p tf_epc 0)
         (kseq (st_tf p tf_sp PGSIZE)
         (kseq (pmod (set_name (map of_char ''initcode'')) p)
         (kbind (namei [47]) (\<lambda>c.
          pmod (\<lambda>q. q\<lparr>cwd := c, state := RUNNABLE\<rparr>) p)))))))))"

primrec dup_files :: "nat list \<Rightarrow> nat \<Rightarrow> nat \<Rightarrow> ('s kfile_scheme, unit) kop" where
  "dup_files [] p np = kret ()"
| "dup_files (i # is) p np =
     kbind (pget ofile p) (\<lambda>fs.
     kseq (case fs ! i of
             None \<Rightarrow> kret ()
           | Some f \<Rightarrow> kbind (filedup f) (\<lambda>f. pmod (\<lambda>q. q\<lparr>ofile := (ofile q)[i := Some f]\<rparr>) np))
     (dup_files is p np))"

definition copy_trapframe :: "nat \<Rightarrow> nat \<Rightarrow> ('s kproc_scheme, unit) kop" where
  "copy_trapframe p np =
     kbind (pget trapframe p) (\<lambda>tf. kbind (pget trapframe np) (\<lambda>ntf.
     kmod (\<lambda>s. s\<lparr>mem := mem_store (mem s) ntf (mem_bytes (mem s) tf 288)\<rparr>)))"

definition dup_cwd :: "nat \<Rightarrow> nat \<Rightarrow> ('s kfile_scheme, unit) kop" where
  "dup_cwd p np =
     kbind (pget cwd p) (\<lambda>c.
     case c of
       None \<Rightarrow> kpanic ''null inode''
     | Some i \<Rightarrow> kbind (idup i) (\<lambda>i. pmod (\<lambda>q. q\<lparr>cwd := Some i\<rparr>) np))"

definition fork :: "('s kfile_scheme, u32) kop" where
  "fork =
     kbind myproc (\<lambda>p.
     kbind allocproc (\<lambda>r.
     case r of
       None \<Rightarrow> kret (-1)
     | Some np \<Rightarrow>
         kbind (pget (\<lambda>q. (pagetable q, psz q, tmask q, pname q)) p) (\<lambda>(pt, sz, m, name).
         kbind (pget pagetable np) (\<lambda>npt.
         kbind (uvmcopy pt npt sz) (\<lambda>r.
         if r < 0 then kseq (freeproc np) (kret (-1))
         else kseq (pmod (\<lambda>q. q\<lparr>psz := sz, tmask := m\<rparr>) np)
             (kseq (copy_trapframe p np)
             (kseq (st_tf np (tf_a 0) 0)
             (kseq (dup_files [0..<NOFILE] p np)
             (kseq (dup_cwd p np)
             (kseq (pmod (set_name name) np)
             (kbind (pget pid np) (\<lambda>n.
              kseq (pmod (\<lambda>q. q\<lparr>parent := Some p\<rparr>) np)
             (kseq (pmod (\<lambda>q. q\<lparr>state := RUNNABLE\<rparr>) np)
              (kret n))))))))))))))"

primrec close_files :: "nat list \<Rightarrow> nat \<Rightarrow> ('s kfile_scheme, unit) kop" where
  "close_files [] p = kret ()"
| "close_files (fd # fds) p =
     kbind (pget ofile p) (\<lambda>fs.
     kseq (case fs ! fd of
             None \<Rightarrow> kret ()
           | Some f \<Rightarrow> kseq (fileclose f) (pmod (\<lambda>q. q\<lparr>ofile := (ofile q)[fd := None]\<rparr>) p))
     (close_files fds p))"

text \<open>
  \<open>exit\<close> up to the call of \<open>sched\<close>, from which the process does not come back. \<open>wakeup(p->parent)\<close> for a
  process without parent wakes nobody.
\<close>

definition exit :: "u32 \<Rightarrow> ('s kfile_scheme, unit) kop" where
  "exit status =
     kbind myproc (\<lambda>p.
     kbind (kget initproc) (\<lambda>ip.
     if ip = Some p then kpanic ''init exiting''
     else kseq (close_files [0..<NOFILE] p)
         (kseq begin_op
         (kbind (pget cwd p) (\<lambda>c.
          kseq (iput_opt c)
         (kseq end_op
         (kseq (pmod (\<lambda>q. q\<lparr>cwd := None\<rparr>) p)
         (kseq (reparent p)
         (kbind (pget parent p) (\<lambda>par.
          kseq (case par of None \<Rightarrow> kret () | Some i \<Rightarrow> wakeup (Chan_proc i))
          (pmod (\<lambda>q. q\<lparr>xstate := status, state := ZOMBIE\<rparr>) p)))))))))))"

section \<open>System calls about processes\<close>

text \<open>A call that does not return to the caller (\<open>exit\<close>) gives \<open>None\<close>.\<close>

definition sys_exit :: "('s kfile_scheme, u64 option) kop" where
  "sys_exit = kbind (argint 0) (\<lambda>n. kseq (exit n) (kret None))"

definition sys_getpid :: "('s kfile_scheme, u64) kop" where
  "sys_getpid = kbind myproc (\<lambda>p. kbind (pget pid p) (\<lambda>n. kret (scast n)))"

definition sys_fork :: "('s kfile_scheme, u64) kop" where
  "sys_fork = kbind fork (\<lambda>n. kret (scast n))"

definition sys_wait :: "('s kfile_scheme, u64) kop" where
  "sys_wait = kbind (argaddr 0) (\<lambda>a. kbind (wait a) (\<lambda>n. kret (scast n)))"

definition sys_sbrk :: "('s kfile_scheme, u64) kop" where
  "sys_sbrk =
     kbind (argint 0) (\<lambda>n.
     kbind myproc (\<lambda>p.
     kbind (pget psz p) (\<lambda>addr.
     kbind (growproc n) (\<lambda>r.
     kret (if r < 0 then -1 else addr)))))"

text \<open>The waiting loop of \<open>sys_sleep\<close>, entered again after each tick; the comparison is unsigned.\<close>

definition sleep_loop :: "u32 \<Rightarrow> u32 \<Rightarrow> ('s kfile_scheme, u64) kop" where
  "sleep_loop ticks0 n =
     kbind (kget ticks) (\<lambda>t.
     if t - ticks0 < n then
       kbind myproc (\<lambda>p. kbind (killed p) (\<lambda>k. if k then kret (-1) else kblock Chan_ticks))
     else kret 0)"

definition sys_sleep :: "('s kfile_scheme, u64) kop" where
  "sys_sleep =
     kbind (argint 0) (\<lambda>n.
     let n = (if sint n < 0 then 0 else n) in
     kbind (kget ticks) (\<lambda>ticks0. sleep_loop ticks0 n))"

definition sys_kill :: "('s kfile_scheme, u64) kop" where
  "sys_kill = kbind (argint 0) (\<lambda>n. kbind (kill n) (\<lambda>r. kret (ret_int r)))"

definition sys_uptime :: "('s kfile_scheme, u64) kop" where
  "sys_uptime = kbind (kget ticks) (\<lambda>t. kret (ucast t))"

definition sys_trace :: "('s kfile_scheme, u64) kop" where
  "sys_trace =
     kbind (argint 0) (\<lambda>m.
     kbind myproc (\<lambda>p.
     kseq (pmod (\<lambda>q. q\<lparr>tmask := m\<rparr>) p) (kret 0)))"

record sysinfo =
  si_freemem :: u64
  si_nproc :: u64
  si_nopenfiles :: u64

definition sysinfo_bytes :: "sysinfo \<Rightarrow> u8 list" where
  "sysinfo_bytes si = le_bytes 8 (si_freemem si) @ le_bytes 8 (si_nproc si) @ le_bytes 8 (si_nopenfiles si)"

definition sys_sysinfo :: "('s kfile_scheme, u64) kop" where
  "sys_sysinfo =
     kbind myproc (\<lambda>p.
     kbind (argaddr 0) (\<lambda>addr.
     kbind (kget count_freemmem) (\<lambda>fm.
     case fm of
       None \<Rightarrow> (\<lambda>s. Diverge)
     | Some fm \<Rightarrow>
         kbind (kget (\<lambda>s. \<lparr>si_freemem = fm, si_nproc = count_proc s, si_nopenfiles = count_openfile s\<rparr>)) (\<lambda>si.
         kbind (pget pagetable p) (\<lambda>pt.
         kbind (copyout pt addr (sysinfo_bytes si)) (\<lambda>r.
         kret (if r < 0 then -1 else 0)))))))"

end
