(* ===== verification/Trap.thy ===== *)
theory Trap
  imports Proc_Life
begin

text \<open>
  System-call dispatch (second half of \<^verbatim>\<open>kernel/syscall.c\<close>), traps and interrupts (\<^verbatim>\<open>kernel/trap.c\<close>),
  the interrupt controller (\<^verbatim>\<open>kernel/plic.c\<close>) and \<open>forkret\<close>. Control and status registers are fields of
  the state, with the interrupt-enable bit in \<open>sstatus\<close>; the addresses of assembly entry points
  are parameters. Where the code leaves for good or for a while (\<open>exit\<close>, \<open>yield\<close>, the jump to
  \<open>userret\<close>) the operation ends with a value that says so.
\<close>

section \<open>Dispatch\<close>

definition ret_some :: "('s, u64) kop \<Rightarrow> ('s, u64 option) kop" where
  "ret_some m = kbind m (\<lambda>v. kret (Some v))"

definition syscalls :: "('s kfile_scheme, u64 option) kop option list" where
  "syscalls =
     [None,
      Some (ret_some sys_fork),
      Some sys_exit,
      Some (ret_some sys_wait),
      Some (ret_some sys_pipe),
      Some (ret_some sys_read),
      Some (ret_some sys_kill),
      Some (ret_some sys_exec),
      Some (ret_some sys_fstat),
      Some (ret_some sys_chdir),
      Some (ret_some sys_dup),
      Some (ret_some sys_getpid),
      Some (ret_some sys_sbrk),
      Some (ret_some sys_sleep),
      Some (ret_some sys_uptime),
      Some (ret_some sys_open),
      Some (ret_some sys_write),
      Some (ret_some sys_mknod),
      Some (ret_some sys_unlink),
      Some (ret_some sys_link),
      Some (ret_some sys_mkdir),
      Some (ret_some sys_close),
      Some (ret_some sys_trace),
      Some (ret_some sys_sysinfo)]"

definition syscall_list :: "string list" where
  "syscall_list =
     ['''', ''fork'', ''exit'', ''wait'', ''pipe'', ''read'', ''kill'', ''exec'',
      ''fstat'', ''chdir'', ''dup'', ''getpid'', ''sbrk'', ''sleep'', ''uptime'',
      ''open'', ''write'', ''mknod'', ''unlink'', ''link'', ''mkdir'', ''close'',
      ''trace'', ''sysinfo'']"

definition ld_tf :: "nat \<Rightarrow> u64 \<Rightarrow> ('s kproc_scheme, u64) kop" where
  "ld_tf p off = kbind (pget trapframe p) (\<lambda>tf. kget (\<lambda>s. ld64 (mem s) (tf + off)))"

text \<open>The result says whether the process is still there.\<close>

definition syscall :: "('s kfile_scheme, bool) kop" where
  "syscall =
     kbind myproc (\<lambda>p.
     kbind (ld_tf p (tf_a 7)) (\<lambda>a7.
     let num = (ucast a7 :: u32) in
     case (if 0 < sint num \<and> sint num < int (length (syscalls :: ('s kfile_scheme, u64 option) kop option list))
           then syscalls ! nat (sint num) else None) of
       Some f \<Rightarrow>
         kbind f (\<lambda>r.
         case r of
           None \<Rightarrow> kret False
         | Some v \<Rightarrow>
             kseq (st_tf p (tf_a 0) v)
            (kbind (pget tmask p) (\<lambda>m.
             kseq (if m AND push_bit (nat (sint num)) 1 \<noteq> 0 then
                     kbind (pget pid p) (\<lambda>n. kbind (ld_tf p (tf_a 0)) (\<lambda>a0.
                     kprintf (''%d: syscall %s -> %ld'' @ [CHR 0x0A])
                       [VInt n, VStr (Some (syscall_list ! nat (sint num))), VLong a0]))
                   else kret ())
             (kret True))))
     | None \<Rightarrow>
         kbind (pget (\<lambda>q. (pid q, pname q)) p) (\<lambda>(n, name).
         kseq (kprintf (''%d %s: unknown sys call %d'' @ [CHR 0x0A]) [VInt n, VStr (Some (cstr name)), VInt num])
        (kseq (st_tf p (tf_a 0) (-1))
         (kret True)))))"

section \<open>The interrupt controller\<close>

definition UART0_IRQ :: u32 where [simp]: "UART0_IRQ = 10"
definition VIRTIO0_IRQ :: u32 where [simp]: "VIRTIO0_IRQ = 1"

definition PLIC_SENABLE :: "u64 \<Rightarrow> u64" where "PLIC_SENABLE hart = PLIC + 0x2080 + hart * 0x100"
definition PLIC_SPRIORITY :: "u64 \<Rightarrow> u64" where "PLIC_SPRIORITY hart = PLIC + 0x201000 + hart * 0x2000"
definition PLIC_SCLAIM :: "u64 \<Rightarrow> u64" where "PLIC_SCLAIM hart = PLIC + 0x201004 + hart * 0x2000"

text \<open>Register writes in order, as address and value.\<close>

definition plicinit :: "(u64 \<times> u32) list" where
  "plicinit = [(PLIC + ucast UART0_IRQ * 4, 1), (PLIC + ucast VIRTIO0_IRQ * 4, 1)]"

definition plicinithart :: "u64 \<Rightarrow> (u64 \<times> u32) list" where
  "plicinithart hart =
     [(PLIC_SENABLE hart, push_bit 10 1 OR push_bit 1 1),
      (PLIC_SPRIORITY hart, 0)]"

record ktrap = kvd +
  sstatus :: u64
  scause :: u64
  sepc :: u64
  stval :: u64
  stvec :: u64
  satp :: u64
  hart :: u64
  rtime :: u64
  stimecmp :: u64
  plic_pending :: u32
  plic_writes :: "(u64 \<times> u32) list"
  kernelvec :: u64
  usertrap_addr :: u64
  uservec :: u64
  userret :: u64
  firstret :: bool

definition plic_claim :: "('s ktrap_scheme, u32) kop" where
  "plic_claim = kget plic_pending"

definition plic_complete :: "u32 \<Rightarrow> ('s ktrap_scheme, unit) kop" where
  "plic_complete irq = kmod (\<lambda>s. s\<lparr>plic_writes := plic_writes s @ [(PLIC_SCLAIM (hart s), irq)]\<rparr>)"

section \<open>Interrupts\<close>

definition SSTATUS_SPP :: u64 where [simp]: "SSTATUS_SPP = 0x100"
definition SSTATUS_SPIE :: u64 where [simp]: "SSTATUS_SPIE = 0x20"
definition SSTATUS_SIE :: u64 where [simp]: "SSTATUS_SIE = 0x2"

definition intr_on :: "('s ktrap_scheme, unit) kop" where
  "intr_on = kmod (\<lambda>s. s\<lparr>sstatus := sstatus s OR SSTATUS_SIE\<rparr>)"

definition intr_off :: "('s ktrap_scheme, unit) kop" where
  "intr_off = kmod (\<lambda>s. s\<lparr>sstatus := sstatus s AND NOT SSTATUS_SIE\<rparr>)"

definition intr_get :: "('s ktrap_scheme, bool) kop" where
  "intr_get = kget (\<lambda>s. sstatus s AND SSTATUS_SIE \<noteq> 0)"

definition trapinithart :: "('s ktrap_scheme, unit) kop" where
  "trapinithart = kmod (\<lambda>s. s\<lparr>stvec := kernelvec s\<rparr>)"

definition clockintr :: "('s ktrap_scheme, unit) kop" where
  "clockintr =
     kbind (kget hart) (\<lambda>h.
     kseq (if h = 0 then kseq (kmod (\<lambda>s. s\<lparr>ticks := ticks s + 1\<rparr>)) (wakeup Chan_ticks) else kret ())
     (kmod (\<lambda>s. s\<lparr>stimecmp := rtime s + 1000000\<rparr>)))"

definition devintr :: "('s ktrap_scheme, nat) kop" where
  "devintr =
     kbind (kget scause) (\<lambda>c.
     if c = 0x8000000000000009 then
       kbind plic_claim (\<lambda>irq.
       kseq (if irq = UART0_IRQ then uartintr
             else if irq = VIRTIO0_IRQ then virtio_disk_intr
             else if irq \<noteq> 0 then kprintf (''unexpected interrupt irq=%d'' @ [CHR 0x0A]) [VInt irq]
             else kret ())
      (kseq (if irq \<noteq> 0 then plic_complete irq else kret ())
       (kret 1)))
     else if c = 0x8000000000000005 then kseq clockintr (kret 2)
     else kret 0)"

section \<open>Traps from user space\<close>

text \<open>How a trap ends: the process is gone, it gave up the CPU, or it jumps to user space.\<close>

datatype trap_end = TExit | TYield | TRet u64 u64

definition MAKE_SATP :: "u64 \<Rightarrow> u64" where
  "MAKE_SATP pt = 0x8000000000000000 OR drop_bit 12 pt"

text \<open>The jump to \<open>userret\<close> in the trampoline, with the page table to switch to.\<close>

definition usertrapret :: "('s ktrap_scheme, trap_end) kop" where
  "usertrapret =
     kbind myproc (\<lambda>p.
     kseq intr_off
    (kseq (kmod (\<lambda>s. s\<lparr>stvec := TRAMPOLINE + (uservec s - trampoline s)\<rparr>))
    (kbind (kget satp) (\<lambda>sa.
     kseq (st_tf p tf_kernel_satp sa)
    (kbind (pget kstack p) (\<lambda>ks.
     kseq (st_tf p tf_kernel_sp (ks + PGSIZE))
    (kbind (kget usertrap_addr) (\<lambda>ut.
     kseq (st_tf p tf_kernel_trap ut)
    (kbind (kget hart) (\<lambda>h.
     kseq (st_tf p tf_kernel_hartid h)
    (kseq (kmod (\<lambda>s. s\<lparr>sstatus := (sstatus s AND NOT SSTATUS_SPP) OR SSTATUS_SPIE\<rparr>))
    (kbind (ld_tf p tf_epc) (\<lambda>epc.
     kseq (kmod (\<lambda>s. s\<lparr>sepc := epc\<rparr>))
    (kbind (pget pagetable p) (\<lambda>pt.
     kget (\<lambda>s. TRet (TRAMPOLINE + (userret s - trampoline s)) (MAKE_SATP pt)))))))))))))))))"

text \<open>\<open>yield\<close>: the slot is runnable and the CPU goes to the scheduler; the process continues with \<open>usertrapret\<close>.\<close>

definition yield :: "('s kproc_scheme, unit) kop" where
  "yield = kbind myproc (\<lambda>p. pmod (\<lambda>q. q\<lparr>state := RUNNABLE\<rparr>) p)"

text \<open>The end of \<open>usertrap\<close>, after the cause has been dealt with.\<close>

definition usertrap_tail :: "nat \<Rightarrow> nat \<Rightarrow> ('s ktrap_scheme, trap_end) kop" where
  "usertrap_tail p which_dev =
     kbind (killed p) (\<lambda>k.
     if k then kseq (exit (-1)) (kret TExit)
     else if which_dev = 2 then kseq yield (kret TYield)
     else usertrapret)"

definition usertrap :: "('s ktrap_scheme, trap_end) kop" where
  "usertrap =
     kbind (kget sstatus) (\<lambda>st.
     if st AND SSTATUS_SPP \<noteq> 0 then kpanic ''usertrap: not from user mode''
     else kseq trapinithart
    (kbind myproc (\<lambda>p.
     kbind (kget sepc) (\<lambda>pc.
     kseq (st_tf p tf_epc pc)
    (kbind (kget scause) (\<lambda>c.
     if c = 8 then
       kbind (killed p) (\<lambda>k.
       if k then kseq (exit (-1)) (kret TExit)
       else kbind (ld_tf p tf_epc) (\<lambda>epc.
         kseq (st_tf p tf_epc (epc + 4))
        (kseq intr_on
        (kbind syscall (\<lambda>alive.
         if \<not> alive then kret TExit else usertrap_tail p 0)))))
     else kbind devintr (\<lambda>which_dev.
       kseq (if which_dev = 0 then
               kbind (pget pid p) (\<lambda>n.
               kbind (kget stval) (\<lambda>sv.
               kseq (kprintf (''usertrap(): unexpected scause 0x%lx pid=%d'' @ [CHR 0x0A]) [VLong c, VInt n])
              (kseq (kprintf (''            sepc=0x%lx stval=0x%lx'' @ [CHR 0x0A]) [VLong pc, VLong sv])
               (setkilled p))))
             else kret ())
       (usertrap_tail p which_dev))))))))"

section \<open>Traps from the kernel\<close>

text \<open>The result says whether the handler gave up the CPU before restoring the trap registers.\<close>

definition kerneltrap :: "bool \<Rightarrow> ('s ktrap_scheme, bool) kop" where
  "kerneltrap have_proc =
     kbind (kget (\<lambda>s. (sepc s, sstatus s, scause s))) (\<lambda>(pc, st, c).
     if st AND SSTATUS_SPP = 0 then kpanic ''kerneltrap: not from supervisor mode''
     else kbind intr_get (\<lambda>on.
     if on then kpanic ''kerneltrap: interrupts enabled''
     else kbind devintr (\<lambda>which_dev.
       if which_dev = 0 then
         kbind (kget stval) (\<lambda>sv.
         kseq (kprintf (''scause=0x%lx sepc=0x%lx stval=0x%lx'' @ [CHR 0x0A]) [VLong c, VLong pc, VLong sv])
         (kpanic ''kerneltrap''))
       else
         kseq (if which_dev = 2 \<and> have_proc then yield else kret ())
        (kseq (kmod (\<lambda>s. s\<lparr>sepc := pc, sstatus := st\<rparr>))
         (kret (which_dev = 2 \<and> have_proc))))))"

section \<open>First return\<close>

definition forkret :: "('s ktrap_scheme, trap_end) kop" where
  "forkret =
     kbind (kget firstret) (\<lambda>fst.
     kseq (if fst then kseq (fsinit ROOTDEV) (kmod (\<lambda>s. s\<lparr>firstret := False\<rparr>)) else kret ())
     usertrapret)"

end
