(* ===== verification/Vm_Frame.thy ===== *)
theory Vm_Frame
  imports Vm_Props
begin

text \<open>
  The predicates on address spaces look at physical memory, the end of the kernel and the free
  list only. They carry over between kernel states, also of different extensions of the record,
  that agree on these three; and the operations of \<^verbatim>\<open>vm.c\<close> change nothing else.
\<close>

definition same_kmem :: "'s kmem_scheme \<Rightarrow> 't kmem_scheme \<Rightarrow> bool" where
  "same_kmem s t \<longleftrightarrow> mem s = mem t \<and> kend s = kend t \<and> freelist s = freelist t"

lemma same_kmem_refl [simp]: "same_kmem s s"
  by (simp add: same_kmem_def)

lemma same_kmem_cong:
  assumes "same_kmem s t"
  shows "kmem_wf s = kmem_wf t" and "page_ok s = page_ok t" and "pt_wf s = pt_wf t" and "as_wf s = as_wf t"
    and "pte_of s = pte_of t" and "upte s = upte t" and "upage s = upage t" and "uspace s = uspace t"
    and "ubyte s = ubyte t"
proof -
  note e = assms [unfolded same_kmem_def]
  show 1: "kmem_wf s = kmem_wf t" and 2: "page_ok s = page_ok t" and 3: "pt_wf s = pt_wf t"
    by (intro ext, simp add: e kmem_wf_def page_ok_def pt_wf_def)+
  show 4: "as_wf s = as_wf t" by (intro ext) (simp add: 1 3 as_wf_def)
  show 5: "pte_of s = pte_of t" by (intro ext) (simp add: e pte_of_def)
  show 6: "upte s = upte t" by (intro ext) (simp add: 5 upte_def)
  show 7: "upage s = upage t" by (intro ext) (simp add: 6 upage_def)
  show "uspace s = uspace t" by (intro ext) (simp add: e 2 4 6 7 uspace_def)
  show "ubyte s = ubyte t" by (intro ext) (simp add: e 7 ubyte_def)
qed

lemma copied_same:
  assumes "copied s ps root D va src n r s'" and "same_kmem s t" and "same_kmem s' t'" and "kmem_frame t t'"
  shows "copied t ps root D va src n r t'"
proof -
  have "mem s = mem t" "mem s' = mem t'" using assms(2,3) by (simp_all add: same_kmem_def)
  then show ?thesis
    using assms(1,4) unfolding copied_def same_kmem_cong [OF assms(2)] same_kmem_cong [OF assms(3)] by (simp del: MAXVA_def)
qed

text \<open>Copying out one byte and then the rest.\<close>

lemma copied_Cons:
  assumes c1: "copied s ps root D va [x] 1 0 s1" and c2: "copied s1 ps root D (Suc va) xs n r s2"
  shows "copied s ps root D va (x # xs) (Suc n) r s2"
proof -
  have up: "upte s1 root i = upte s root i" and pg: "upage s1 root i = upage s root i" for i
    using c1 by (simp_all add: copied_def upage_def)
  have b: "ubyte s2 root a = (if va \<le> a \<and> a < va + Suc n then (x # xs) ! (a - va) else ubyte s root a)"
    if a: "a div 4096 \<in> D" for a
  proof -
    have b1: "ubyte s1 root a = (if a = va then x else ubyte s root a)"
      using c1 a unfolding copied_def by auto
    have "ubyte s2 root a = (if Suc va \<le> a \<and> a < Suc va + n then xs ! (a - Suc va) else ubyte s1 root a)"
      using c2 a unfolding copied_def by blast
    then show ?thesis using b1 by (auto simp: nth_Cons')
  qed
  have w: "a < unat MAXVA \<and> writable (upte s root (a div 4096))" if "va \<le> a" "a < va + Suc n" for a
  proof (cases "a = va")
    case True
    then show ?thesis using c1 by (simp add: copied_def)
  next
    case False
    then have "Suc va \<le> a" "a < Suc va + n" using that by simp_all
    then show ?thesis using c2 unfolding copied_def up by blast
  qed
  have img: "upage s1 root ` D = upage s root ` D" using pg by simp
  show ?thesis
    unfolding copied_def
  proof (intro conjI allI impI)
    show "uspace s2 ps root D" and "upte s2 root i = upte s root i" for i using c2 up by (simp_all add: copied_def)
    show "kmem_frame s s2" using c1 c2 unfolding copied_def by (blast intro: kmem_frame_trans)
    show "if r = 0 then Suc n = length (x # xs)
      else r = -1 \<and> Suc n < length (x # xs) \<and> (unat MAXVA \<le> va + Suc n \<or> \<not> writable (upte s root ((va + Suc n) div 4096)))"
      using c2 unfolding copied_def up by (auto split: if_splits)
    fix q assume "page_aligned q" "q \<notin> upage s root ` D"
    then show "page_eq (mem s) (mem s2) q"
      using c1 c2 img unfolding copied_def by (blast intro: page_eq_trans)
  qed (use b w in auto)
qed

lemma copied_Nil: "uspace s ps root D \<Longrightarrow> copied s ps root D va [] 0 0 s"
  unfolding copied_def by auto

end
