(* ===== verification/Demo.thy ===== *)
theory Demo
  imports Trap Vm_Frame
begin

text \<open>
  A small but complete kernel state, on which the properties of the kernel components are
  instantiated: the address space of theory \<open>Vm_Props\<close>, one running process that owns it, an empty
  pipe, and empty tables.
\<close>

definition demo_proc :: proc where
  "demo_proc = \<lparr>state = RUNNING, wchan = None, killedf = False, xstate = 0, pid = 1, tmask = 0, parent = None,
     kstack = KSTACK 0, psz = 4096, pagetable = 0x87fff000, trapframe = 0x87ff0000,
     pcontext = \<lparr>ctx_ra = 0, ctx_sp = 0, sregs = replicate 12 0\<rparr>,
     ofile = replicate 16 None, cwd = None, pname = replicate 16 0\<rparr>"

definition demo_free_proc :: "nat \<Rightarrow> proc" where
  "demo_free_proc i = demo_proc\<lparr>state := UNUSED, pid := 0, kstack := KSTACK (of_nat i), psz := 0, pagetable := 0, trapframe := 0\<rparr>"

definition demo_buf :: buf where
  "demo_buf = \<lparr>valid = False, diskf = False, dev = 0, blockno = 0, block = initsleeplock ''buffer'', refcnt = 0,
     bprev = 0, bnext = 0, bdata = replicate 1024 0\<rparr>"

definition demo_inode :: inode where
  "demo_inode = \<lparr>idev = 0, inum = 0, iref = 0, ilk = initsleeplock ''inode'', ivalid = False, itype = 0, imajor = 0,
     iminor = 0, inlink = 0, isize = 0, addrs = replicate 13 0\<rparr>"

definition demo_file :: file_s where
  "demo_file = \<lparr>ftype = FD_NONE, fref = 0, readable = False, writable = False, fpipe = 0, fip = 0, foff = 0, fmajor = 0\<rparr>"

definition demo_pipe :: pipe where
  "demo_pipe = \<lparr>pdata = replicate 512 5, nread = 0, nwrite = 0, readopen = True, writeopen = True\<rparr>"

definition demo_sb :: superblock where
  "demo_sb = \<lparr>magic = FSMAGIC, sbsize = 2000, nblocks = 1954, ninodes = 200, nlog = 30, logstart = 2,
     inodestart = 32, bmapstart = 45\<rparr>"

definition demo_vd :: vdisk where
  "demo_vd = \<lparr>desc = replicate 8 \<lparr>daddr = DmaNull, dlen = 0, dflags = 0, dnext = 0\<rparr>, avail_idx = 0,
     avail_ring = replicate 8 0, used_dev_idx = 0, used_ring = replicate 8 0, vfree = replicate 8 True, used_idx = 0,
     info_b = replicate 8 None, info_status = replicate 8 0, vops = replicate 8 \<lparr>rtype = 0, rsector = 0\<rparr>\<rparr>"

definition demo_k :: ktrap where
  "demo_k = \<lparr>mem = demo_mem, kend = 0x80020000, freelist = 0x87ffb000, etext = 0x80008000, trampoline = 0x80007000,
     kernel_pagetable = 0, procs = demo_proc # map demo_free_proc [1..<64], cur = 0, initproc = None, nextpid = 2, ticks = 0,
     forkret_addr = 0, cons_out = [], bufs = replicate 31 demo_buf, disk = (\<lambda>_. replicate 1024 0),
     log = \<lparr>start = 2, lsize = 30, outstanding = 0, committing = False, ldev = 1, lh_n = 0, lh_block = replicate 30 0\<rparr>,
     sb = demo_sb, inodes = replicate 50 demo_inode, cons_buf = replicate 128 0, cons_r = 0, cons_w = 0, cons_e = 0,
     uart_tx_buf = replicate 32 0, uart_tx_w = 0, uart_tx_r = 0, panicked = False, tx_room = 1, rx_fifo = [],
     pipes = (\<lambda>_. demo_pipe), files = replicate 100 demo_file, stack_junk = [0, 0, 0, 0], vd = demo_vd,
     sstatus = 0, scause = 8, sepc = 0, stval = 0, stvec = 0, satp = 0, hart = 0, rtime = 0, stimecmp = 0,
     plic_pending = 0, plic_writes = [], kernelvec = 0x80006000, usertrap_addr = 0x80005000, uservec = 0x80007000,
     userret = 0x8000709c, firstret = False\<rparr>"

lemma demo_k_same: "same_kmem demo_k demo"
  by (simp add: same_kmem_def demo_k_def demo_def)

lemma demo_k_uspace: "uspace demo_k [0x87ffb000] 0x87fff000 {0}"
  using demo_uspace unfolding same_kmem_cong [OF demo_k_same] .

lemma demo_k_upte: "upte demo_k 0x87fff000 j = upte demo 0x87fff000 j"
  unfolding same_kmem_cong [OF demo_k_same] ..

lemma demo_user_page: "writable (upte demo_k 0x87fff000 0)" "Vm_Copy.readable (upte demo_k 0x87fff000 0)"
  unfolding demo_k_upte demo_upte(1) Vm_Copy.writable_def Vm_Copy.readable_def by (simp_all add: PA2PTE_def)

lemma demo_only_page: "j < 67108864 \<Longrightarrow> Vm_Copy.readable (upte demo_k 0x87fff000 j) \<Longrightarrow> j = 0"
  using demo_upte(2) [of j] unfolding demo_k_upte by (cases "j = 0") (auto simp: Vm_Copy.readable_def)

end
