(* ===== verification/Pipe_Props.thy ===== *)
theory Pipe_Props
  imports Demo
begin

text \<open>
  A pipe is a bounded queue of bytes: \<open>pipewrite\<close> appends bytes of the writer's memory, \<open>piperead\<close>
  moves bytes from the front to the reader's memory, across the wrap-around of the buffer and of
  the 32-bit counters.
\<close>

section \<open>The queue of a pipe\<close>

interpretation pr: ring 512 "TYPE(32)"
  by unfold_locales simp_all

definition pqueue :: "pipe \<Rightarrow> u8 list" where
  "pqueue p = ring_queue PIPESIZE (pdata p) (nread p) (nwrite p)"

definition pipe_inv :: "pipe \<Rightarrow> bool" where
  "pipe_inv p \<longleftrightarrow> length (pdata p) = PIPESIZE \<and> length (pqueue p) \<le> PIPESIZE"

lemma pqueue_length: "length (pqueue p) = unat (nwrite p - nread p)"
  by (simp add: pqueue_def)

lemma pqueue_full: "nwrite p = nread p + of_nat PIPESIZE \<longleftrightarrow> length (pqueue p) = PIPESIZE"
  using pr.ring_full_iff [of "nwrite p" "nread p"] by (simp add: pqueue_def)

lemma pqueue_empty: "nread p = nwrite p \<longleftrightarrow> pqueue p = []"
  by (simp add: pqueue_def ring_queue_Nil)

lemma put_byte_queue:
  assumes "pipe_inv p" and "length (pqueue p) \<noteq> PIPESIZE"
  shows "pqueue (put_byte ch p) = pqueue p @ [ch]" and "pipe_inv (put_byte ch p)"
    and "readopen (put_byte ch p) = readopen p"
proof -
  have "unat (nwrite p - nread p) < 512" and l: "length (pdata p) = 512"
    using assms by (simp_all add: pipe_inv_def pqueue_length)
  then show q: "pqueue (put_byte ch p) = pqueue p @ [ch]"
    using pr.ring_push [of "nwrite p" "nread p" "pdata p" ch] by (simp add: pqueue_def put_byte_def)
  show "pipe_inv (put_byte ch p)"
    using assms unfolding pipe_inv_def q by (simp add: put_byte_def)
qed (simp add: put_byte_def)

lemma take_byte_queue:
  assumes "pipe_inv p" and "nread p \<noteq> nwrite p" and "p' = p\<lparr>nread := nread p + 1\<rparr>"
  shows "pqueue p = (pdata p ! slot PIPESIZE (nread p)) # pqueue p'" and "pipe_inv p'"
proof -
  show q: "pqueue p = (pdata p ! slot PIPESIZE (nread p)) # pqueue p'"
    using pr.ring_pop [OF assms(2), of "pdata p"] assms(3) by (simp add: pqueue_def)
  show "pipe_inv p'" using assms(1) unfolding pipe_inv_def q using assms(3) by simp
qed

section \<open>Writing\<close>

text \<open>One byte of user memory.\<close>

lemma copyin1:
  assumes "as_wf s ps root" and "\<forall>j < 67108864. Vm_Copy.readable (upte s root j) \<longrightarrow> upage s root j \<noteq> 0"
  shows "copyin root va 1 s =
    (if va < MAXVA \<and> Vm_Copy.readable (upte s root (unat va div 4096)) then Ret ((0, [ubyte s root (unat va)]), s)
     else Ret ((-1, []), s))"
proof -
  from copyin_ok [OF assms] obtain r n where c: "copyin root va 1 s = Ret ((r, map (ubyte s root) [unat va..<unat va + n]), s)"
    and f: "fetched s root (unat va) 1 r n" by blast
  show ?thesis
  proof (cases "r = 0")
    case True
    then have n: "n = 1" using f by (simp add: fetched_def)
    then have "unat va < unat MAXVA \<and> Vm_Copy.readable (upte s root (unat va div 4096))" using f by (simp add: fetched_def)
    then show ?thesis using c True n by (simp add: word_less_nat_alt)
  next
    case False
    then have "r = -1" "n = 0" "unat MAXVA \<le> unat va \<or> \<not> Vm_Copy.readable (upte s root (unat va div 4096))"
      using f by (auto simp: fetched_def)
    then show ?thesis using c by (auto simp: word_less_nat_alt)
  qed
qed

text \<open>Where a write of \<open>n\<close> bytes from \<open>a\<close> has to stop: at the first unreadable byte.\<close>

definition can_read :: "'s kmem_scheme \<Rightarrow> u64 \<Rightarrow> nat \<Rightarrow> bool" where
  "can_read s root a \<longleftrightarrow> a < unat MAXVA \<and> Vm_Copy.readable (upte s root (a div 4096))"

definition wrote :: "'s kpipe_scheme \<Rightarrow> u64 \<Rightarrow> u64 \<Rightarrow> nat \<Rightarrow> nat \<Rightarrow> nat \<Rightarrow> pres \<Rightarrow> 's kpipe_scheme \<Rightarrow> nat \<Rightarrow> bool" where
  "wrote s root pi a i n res s' k \<longleftrightarrow>
     k \<le> n \<and> pipe_inv (pipes s' pi) \<and> mem s' = mem s \<and> (\<forall>q. q \<noteq> pi \<longrightarrow> pipes s' q = pipes s q) \<and>
     pqueue (pipes s' pi) = pqueue (pipes s pi) @ map (ubyte s root) [a + i..<a + i + k] \<and>
     (case res of
        PDone r \<Rightarrow> r = -1 \<and> (\<not> readopen (pipes s pi) \<or> killedf (procs s ! cur s)) \<or>
                   r = int (i + k) \<and> (k = n \<or> \<not> can_read s root (a + i + k))
      | PSleep j \<Rightarrow> j = i + k \<and> k < n \<and> length (pqueue (pipes s' pi)) = PIPESIZE)"

lemma wrote_step:
  assumes "wrote s1 root pi a (Suc i) n res s' k" and "s1 = s\<lparr>pipes := (pipes s)(pi := put_byte (ubyte s root (a + i)) (pipes s pi))\<rparr>"
    and "pipe_inv (pipes s pi)" and "length (pqueue (pipes s pi)) \<noteq> PIPESIZE"
  shows "wrote s root pi a i (Suc n) res s' (Suc k)"
proof -
  have q: "pqueue (pipes s1 pi) = pqueue (pipes s pi) @ [ubyte s root (a + i)]" "readopen (pipes s1 pi) = readopen (pipes s pi)"
    using put_byte_queue [OF assms(3,4), of "ubyte s root (a + i)"] assms(2) by simp_all
  have u: "ubyte s1 root = ubyte s root" "can_read s1 root = can_read s root" "procs s1 = procs s" "cur s1 = cur s" "mem s1 = mem s"
    using assms(2) by (simp_all add: ubyte_def can_read_def upage_def upte_def pte_of_def fun_eq_iff)
  have l: "[a + i..<a + i + Suc k] = (a + i) # [a + Suc i..<a + Suc i + k]" by (simp add: upt_conv_Cons)
  have o: "pipes s1 x = pipes s x" if "x \<noteq> pi" for x using assms(2) that by simp
  show ?thesis
    using assms(1) o unfolding wrote_def q u l by (cases res) auto
qed

lemma pipewrite_loop_ok:
  assumes "as_wf s ps root" and "\<forall>j < 67108864. Vm_Copy.readable (upte s root j) \<longrightarrow> upage s root j \<noteq> 0"
    and "pipe_inv (pipes s pi)" and "pagetable (procs s ! cur s) = root" and "unat addr + i + n < 2 ^ 64"
  shows "\<exists>res s' k. pipewrite_loop n pi addr i s = Ret (res, s') \<and> wrote s root pi (unat addr) i n res s' k"
  using assms
proof (induction n arbitrary: s i)
  case 0
  then show ?case by (simp add: wakeup_def wrote_def)
next
  case (Suc n)
  let ?p = "pipes s pi" and ?a = "unat addr + i"
  have va: "unat (addr + of_nat i) = ?a" using Suc.prems(5) by (intro unat_add_of_nat) simp
  note eval = pifld_def myproc_def killed_def pget_def pimod_def wakeup_def
  consider (closed) "\<not> readopen ?p \<or> killedf (procs s ! cur s)"
    | (full) "readopen ?p" "\<not> killedf (procs s ! cur s)" "length (pqueue ?p) = PIPESIZE"
    | (bad) "readopen ?p" "\<not> killedf (procs s ! cur s)" "length (pqueue ?p) \<noteq> PIPESIZE" "\<not> can_read s root ?a"
    | (ok) "readopen ?p" "\<not> killedf (procs s ! cur s)" "length (pqueue ?p) \<noteq> PIPESIZE" "can_read s root ?a"
    by blast
  then show ?case
  proof cases
    case closed
    then have "pipewrite_loop (Suc n) pi addr i s = Ret (PDone (-1), s)" by (simp add: eval)
    moreover have "wrote s root pi (unat addr) i (Suc n) (PDone (-1)) s 0"
      using closed Suc.prems(3) by (simp add: wrote_def)
    ultimately show ?thesis by blast
  next
    case full
    then have "pipewrite_loop (Suc n) pi addr i s = Ret (PSleep i, s\<lparr>procs := wake (cur s) (Chan_pipe_read pi) (procs s)\<rparr>)"
      using pqueue_full [of ?p] by (simp add: eval)
    moreover have "wrote s root pi (unat addr) i (Suc n) (PSleep i) (s\<lparr>procs := wake (cur s) (Chan_pipe_read pi) (procs s)\<rparr>) 0"
      using full Suc.prems(3) by (simp add: wrote_def)
    ultimately show ?thesis by blast
  next
    case bad
    then have "copyin root (addr + of_nat i) 1 s = Ret ((-1, []), s)"
      unfolding copyin1 [OF Suc.prems(1,2)] va by (simp add: can_read_def word_less_nat_alt va)
    then have "pipewrite_loop (Suc n) pi addr i s = Ret (PDone (int i), s\<lparr>procs := wake (cur s) (Chan_pipe_read pi) (procs s)\<rparr>)"
      using bad pqueue_full [of ?p] Suc.prems(4) by (simp add: eval)
    moreover have "wrote s root pi (unat addr) i (Suc n) (PDone (int i)) (s\<lparr>procs := wake (cur s) (Chan_pipe_read pi) (procs s)\<rparr>) 0"
      using bad Suc.prems(3) by (simp add: wrote_def)
    ultimately show ?thesis by blast
  next
    case ok
    let ?b = "ubyte s root ?a"
    let ?s1 = "s\<lparr>pipes := (pipes s)(pi := put_byte ?b ?p)\<rparr>"
    have "copyin root (addr + of_nat i) 1 s = Ret ((0, [?b]), s)"
      unfolding copyin1 [OF Suc.prems(1,2)] va using ok by (simp add: can_read_def word_less_nat_alt va)
    then have run: "pipewrite_loop (Suc n) pi addr i s = pipewrite_loop n pi addr (Suc i) ?s1"
      using ok pqueue_full [of ?p] Suc.prems(4) by (simp add: eval)
    have "as_wf ?s1 ps root" "\<forall>j < 67108864. Vm_Copy.readable (upte ?s1 root j) \<longrightarrow> upage ?s1 root j \<noteq> 0"
      using Suc.prems(1,2) by (simp_all add: as_wf_def kmem_wf_def page_ok_def pt_wf_def upage_def upte_def pte_of_def)
    moreover have "pipe_inv (pipes ?s1 pi)" using put_byte_queue(2) [OF Suc.prems(3) ok(3)] by simp
    ultimately obtain res s' k where "pipewrite_loop n pi addr (Suc i) ?s1 = Ret (res, s')"
        "wrote ?s1 root pi (unat addr) (Suc i) n res s' k"
      using Suc.IH [of ?s1 "Suc i"] Suc.prems(4,5) by auto
    with run wrote_step [OF this(2) refl Suc.prems(3) ok(3)] show ?thesis by auto
  qed
qed

section \<open>Reading\<close>

text \<open>
  \<open>moved\<close>: the first \<open>k\<close> bytes of the queue have been copied to user memory from \<open>a + i\<close> on; the queue
  has lost them, and one byte more when the copy failed.
\<close>

definition moved :: "'s kpipe_scheme \<Rightarrow> u64 list \<Rightarrow> u64 \<Rightarrow> nat set \<Rightarrow> u64 \<Rightarrow> nat \<Rightarrow> nat \<Rightarrow> 's kpipe_scheme \<Rightarrow> nat \<Rightarrow> int \<Rightarrow> bool" where
  "moved s ps root D pi a n s' k e \<longleftrightarrow>
     copied s ps root D a (take n (pqueue (pipes s pi))) k e (s'\<lparr>pipes := pipes s\<rparr>) \<and>
     pqueue (pipes s' pi) = drop (if e = 0 then k else Suc k) (pqueue (pipes s pi)) \<and>
     pipe_inv (pipes s' pi) \<and> (\<forall>q. q \<noteq> pi \<longrightarrow> pipes s' q = pipes s q)"

lemma frame_kpipe:
  fixes s :: "'s kpipe_scheme"
  assumes "kmem_frame s s'"
  shows "pipes s' = pipes s" and "procs s' = procs s" and "cur s' = cur s"
proof -
  have f: "s' = s\<lparr>mem := mem s', freelist := freelist s'\<rparr>" using assms by (simp only: kmem_frame_def)
  show "pipes s' = pipes s" by (subst f) simp
  show "procs s' = procs s" by (subst f) simp
  show "cur s' = cur s" by (subst f) simp
qed

lemma kmem_frame_pipes:
  fixes s :: "'s kpipe_scheme"
  assumes "kmem_frame s s'"
  shows "kmem_frame (s\<lparr>pipes := P\<rparr>) (s'\<lparr>pipes := P\<rparr>)"
proof -
  have f: "s' = s\<lparr>mem := mem s', freelist := freelist s'\<rparr>" using assms by (simp only: kmem_frame_def)
  show ?thesis unfolding kmem_frame_def by (subst f) simp
qed

lemma copied_pipes:
  fixes s :: "'s kpipe_scheme"
  assumes "copied s ps root D va src n r s'"
  shows "copied (s\<lparr>pipes := P\<rparr>) ps root D va src n r (s'\<lparr>pipes := P\<rparr>)"
proof -
  have "kmem_frame s s'" using assms by (simp add: copied_def)
  then show ?thesis by (intro copied_same [OF assms]) (simp_all add: same_kmem_def kmem_frame_pipes)
qed

lemma copyout1_fail:
  assumes "as_wf s ps root" and "copyout root va [x] s = Ret (r, s')" and "r \<noteq> 0"
  shows "s' = s"
proof (cases "va < MAXVA")
  case True
  have m: "min (4096 - unat va mod 4096) (length [x]) = 1"
    using mod_less_divisor [of 4096 "unat va"] by (simp del: mod_less_divisor)
  have nil: "copyout root w [] t = Ret (0, t)" for w and t :: "'a kmem_scheme" by (subst copyout.simps) simp
  show ?thesis
    using copyout_step [OF assms(1) True, of "[x]"] assms(2,3) nil unfolding Let_def m by (simp split: if_splits)
next
  case False
  then show ?thesis using copyout_high [of va "[x]" root s] assms(2) by (simp add: not_less)
qed

lemma moved_step:
  assumes inv: "pipe_inv (pipes s pi)" and ne: "nread (pipes s pi) \<noteq> nwrite (pipes s pi)"
    and p': "p' = (pipes s pi)\<lparr>nread := nread (pipes s pi) + 1\<rparr>" and s0: "s0 = s\<lparr>pipes := (pipes s)(pi := p')\<rparr>"
    and ch: "ch = pdata (pipes s pi) ! slot PIPESIZE (nread (pipes s pi))"
    and c1: "copied s0 ps root D a [ch] 1 0 s1" and m: "moved s1 ps root D pi (Suc a) n s2 k e"
  shows "moved s ps root D pi a (Suc n) s2 (Suc k) e"
proof -
  note tk = take_byte_queue [OF inv ne p', folded ch]
  have "kmem_frame s0 s1" using c1 by (simp add: copied_def)
  then have p1: "pipes s1 = (pipes s)(pi := p')" using frame_kpipe(1) [of s0 s1] s0 by simp
  have "copied s ps root D a [ch] 1 0 (s1\<lparr>pipes := pipes s\<rparr>)"
    using copied_pipes [OF c1, of "pipes s"] s0 by simp
  moreover have "copied (s1\<lparr>pipes := pipes s\<rparr>) ps root D (Suc a) (take n (pqueue p')) k e (s2\<lparr>pipes := pipes s\<rparr>)"
    using m copied_pipes [of s1 ps root D "Suc a" "take n (pqueue p')" k e "s2\<lparr>pipes := pipes s1\<rparr>" "pipes s"]
    by (simp add: moved_def p1)
  ultimately have "copied s ps root D a (ch # take n (pqueue p')) (Suc k) e (s2\<lparr>pipes := pipes s\<rparr>)"
    by (rule copied_Cons)
  then show ?thesis using m unfolding moved_def tk(1) by (auto simp: p1)
qed

lemma moved_fail:
  assumes inv: "pipe_inv (pipes s pi)" and ne: "nread (pipes s pi) \<noteq> nwrite (pipes s pi)"
    and p': "p' = (pipes s pi)\<lparr>nread := nread (pipes s pi) + 1\<rparr>" and s0: "s0 = s\<lparr>pipes := (pipes s)(pi := p')\<rparr>"
    and us: "uspace s ps root D" and w: "unat MAXVA \<le> a \<or> \<not> Vm_Copy.writable (upte s root (a div 4096))"
  shows "moved s ps root D pi a (Suc n) s0 0 (-1)"
proof -
  note tk = take_byte_queue [OF inv ne p']
  have "take (Suc n) (pqueue (pipes s pi)) \<noteq> []" unfolding tk(1) by simp
  then have "copied s ps root D a (take (Suc n) (pqueue (pipes s pi))) 0 (-1) s" using us w by (intro copied_stop)
  then show ?thesis using tk s0 by (simp add: moved_def)
qed

lemma piperead_loop_ok:
  assumes "uspace s ps root D" and "\<forall>j < 67108864. Vm_Copy.writable (upte s root j) \<longrightarrow> j \<in> D"
    and "pipe_inv (pipes s pi)" and "pagetable (procs s ! cur s) = root" and "unat addr + i + n < 2 ^ 64"
  shows "\<exists>s' k e. piperead_loop n pi addr i s = Ret (int (i + k), s') \<and> moved s ps root D pi (unat addr + i) n s' k e \<and>
     procs s' = procs s \<and> cur s' = cur s"
  using assms
proof (induction n arbitrary: s i)
  case 0
  then show ?case by (auto simp: moved_def copied_Nil intro!: exI [of _ 0])
next
  case (Suc n)
  let ?p = "pipes s pi" and ?a = "unat addr + i"
  have va: "unat (addr + of_nat i) = ?a" using Suc.prems(5) by (intro unat_add_of_nat) simp
  note eval = pifld_def myproc_def pget_def pimod_def
  show ?case
  proof (cases "nread ?p = nwrite ?p")
    case True
    then have "piperead_loop (Suc n) pi addr i s = Ret (int i, s)" "pqueue ?p = []"
      by (simp_all add: eval pqueue_empty)
    then show ?thesis
      using Suc.prems(1,3) by (intro exI [of _ s] exI [of _ 0]) (simp add: moved_def copied_Nil)
  next
    case False
    let ?p' = "?p\<lparr>nread := nread ?p + 1\<rparr>" and ?ch = "pdata ?p ! slot PIPESIZE (nread ?p)"
    let ?s0 = "s\<lparr>pipes := (pipes s)(pi := ?p')\<rparr>"
    have same: "same_kmem s ?s0" by (simp add: same_kmem_def)
    note cg = same_kmem_cong [OF same]
    have us0: "uspace ?s0 ps root D" "\<forall>j < 67108864. Vm_Copy.writable (upte ?s0 root j) \<longrightarrow> j \<in> D"
      using Suc.prems(1,2) unfolding cg by simp_all
    from copyout_ok [OF us0, of "addr + of_nat i" "[?ch]"] obtain r m s1 where
      c: "copyout root (addr + of_nat i) [?ch] ?s0 = Ret (r, s1)" "copied ?s0 ps root D ?a [?ch] m r s1"
      unfolding va by blast
    show ?thesis
    proof (cases "r = 0")
      case True
      then have m: "m = 1" using c(2) by (simp add: copied_def)
      have c1: "copied ?s0 ps root D ?a [?ch] 1 0 s1" using c(2) True m by simp
      have fr: "kmem_frame ?s0 s1" "uspace s1 ps root D" "\<And>j. upte s1 root j = upte ?s0 root j"
        using c1 by (simp_all add: copied_def)
      note fk = frame_kpipe [OF fr(1)]
      have run: "piperead_loop (Suc n) pi addr i s = piperead_loop n pi addr (Suc i) s1"
        using False c(1) True Suc.prems(4) by (simp add: eval)
      have "pipe_inv (pipes s1 pi)" using take_byte_queue(2) [OF Suc.prems(3) False refl] fk(1) by simp
      then obtain s' k e where r: "piperead_loop n pi addr (Suc i) s1 = Ret (int (Suc i + k), s')"
          "moved s1 ps root D pi (unat addr + Suc i) n s' k e" "procs s' = procs s1" "cur s' = cur s1"
        using Suc.IH [of s1 "Suc i"] fr us0(2) fk Suc.prems(4,5) by auto
      have "moved s ps root D pi ?a (Suc n) s' (Suc k) e"
        by (rule moved_step [OF Suc.prems(3) False refl refl refl c1]) (use r(2) in simp)
      then show ?thesis using run r(1,3,4) fk by (intro exI [of _ s'] exI [of _ "Suc k"] exI [of _ e]) simp
    next
      case F: False
      then have f: "r = -1" "m = 0" "unat MAXVA \<le> ?a \<or> \<not> Vm_Copy.writable (upte s root (?a div 4096))"
        using c(2) unfolding copied_def cg [symmetric] by (auto simp del: MAXVA_def)
      have "as_wf ?s0 ps root" using us0(1) by (simp add: uspace_def)
      then have "s1 = ?s0" using c(1) F by (rule copyout1_fail)
      then have "copyout root (addr + of_nat i) [?ch] ?s0 = Ret (-1, ?s0)" using c(1) f(1) by simp
      then have run: "piperead_loop (Suc n) pi addr i s = Ret (int (i + 0), ?s0)"
        using False Suc.prems(4) by (simp add: eval)
      have "moved s ps root D pi ?a (Suc n) ?s0 0 (-1)"
        by (rule moved_fail [OF Suc.prems(3) False refl refl Suc.prems(1) f(3)])
      moreover have "procs ?s0 = procs s" "cur ?s0 = cur s" by simp_all
      ultimately show ?thesis using run by blast
    qed
  qed
qed

section \<open>Properties\<close>

text \<open>
  Property C25. Writing to a pipe appends to its queue, in order, a prefix of the bytes at the user
  address, and touches no other pipe and no memory. The call returns \<open>-1\<close> only when the read end is
  closed or the caller was killed; otherwise it returns the number of bytes queued, which is all
  of them unless user memory stops being readable there; or it sleeps with the queue full, to be
  resumed after the bytes queued so far. The queue never holds more than \<open>PIPESIZE\<close> bytes.
\<close>

theorem pipewrite_appends:
  assumes "as_wf s ps root" and "\<forall>j < 67108864. Vm_Copy.readable (upte s root j) \<longrightarrow> upage s root j \<noteq> 0"
    and "pipe_inv (pipes s pi)" and "pagetable (procs s ! cur s) = root" and "unat addr + nat n < 2 ^ 64"
  shows "\<exists>res s' k. pipewrite pi addr n s = Ret (res, s') \<and>
     k \<le> nat n \<and> pipe_inv (pipes s' pi) \<and> mem s' = mem s \<and> (\<forall>q. q \<noteq> pi \<longrightarrow> pipes s' q = pipes s q) \<and>
     pqueue (pipes s' pi) = pqueue (pipes s pi) @ map (ubyte s root) [unat addr..<unat addr + k] \<and>
     (case res of
        PDone r \<Rightarrow> r = -1 \<and> (\<not> readopen (pipes s pi) \<or> killedf (procs s ! cur s)) \<or>
                   r = int k \<and> (k = nat n \<or> \<not> can_read s root (unat addr + k))
      | PSleep j \<Rightarrow> j = k \<and> k < nat n \<and> length (pqueue (pipes s' pi)) = PIPESIZE)"
  using pipewrite_loop_ok [OF assms(1-4), of addr 0 "nat n"] assms(5)
  unfolding pipewrite_def wrote_def add_0 add_0_right by blast

theorem pipewrite_appends_witness:
  "\<exists>s'. pipewrite 0x87ff1000 0 3 demo_k = Ret (PDone 3, s') \<and>
     pqueue (pipes s' 0x87ff1000) = map (ubyte demo_k 0x87fff000) [0..<3]"
proof -
  have wf: "as_wf demo_k [0x87ffb000] 0x87fff000" using demo_k_uspace by (simp add: uspace_def)
  have nz: "\<forall>j < 67108864. Vm_Copy.readable (upte demo_k 0x87fff000 j) \<longrightarrow> upage demo_k 0x87fff000 j \<noteq> 0"
    using demo_only_page uspaceD(3) [OF demo_k_uspace, of 0] by (auto simp: page_ok_def)
  have inv: "pipe_inv (pipes demo_k 0x87ff1000)" by (simp add: demo_k_def demo_pipe_def pipe_inv_def pqueue_def)
  have pt: "pagetable (procs demo_k ! cur demo_k) = 0x87fff000" by (simp add: demo_k_def demo_proc_def)
  have e: "pqueue (pipes demo_k 0x87ff1000) = []" by (simp add: demo_k_def demo_pipe_def pqueue_def)
  have op: "readopen (pipes demo_k 0x87ff1000)" "\<not> killedf (procs demo_k ! cur demo_k)"
    by (simp_all add: demo_k_def demo_pipe_def demo_proc_def)
  have rd: "can_read demo_k 0x87fff000 k" if "k < 3" for k
    using that demo_user_page(2) by (simp add: can_read_def)
  have n3: "nat 3 = (3 :: nat)" and u0: "unat (0 :: u64) = 0" by simp_all
  have lt: "unat (0 :: u64) + nat 3 < 2 ^ 64" by simp
  from pipewrite_appends [OF wf nz inv pt lt, unfolded n3 u0 e append_Nil add_0] obtain res s' k where
    w: "pipewrite 0x87ff1000 0 3 demo_k = Ret (res, s')" "k \<le> 3"
    "pqueue (pipes s' 0x87ff1000) = map (ubyte demo_k 0x87fff000) [0..<k]" and
    c: "case res of
        PDone r \<Rightarrow> r = -1 \<and> (\<not> readopen (pipes demo_k 0x87ff1000) \<or> killedf (procs demo_k ! cur demo_k)) \<or>
                   r = int k \<and> (k = 3 \<or> \<not> can_read demo_k 0x87fff000 k)
      | PSleep j \<Rightarrow> j = k \<and> k < 3 \<and> length (pqueue (pipes s' 0x87ff1000)) = PIPESIZE"
    by blast
  have "res = PDone 3 \<and> k = 3" using c rd w(2,3) op by (cases res) (auto simp: le_less)
  then show ?thesis using w by auto
qed

text \<open>
  Property C26. Reading from a pipe that has data, or whose write end is closed: the call always
  returns, the first \<open>k\<close> bytes of the queue (as many as asked for and available) are at the user
  address in order, no other user byte and no other page has changed, and the queue has lost these
  bytes. If user memory stops being writable, the byte that could not be delivered is lost too.
  With an empty queue and an open write end the reader sleeps, or returns \<open>-1\<close> when killed.
\<close>

theorem piperead_takes:
  assumes "uspace s ps root D" and "\<forall>j < 67108864. Vm_Copy.writable (upte s root j) \<longrightarrow> j \<in> D"
    and "pipe_inv (pipes s pi)" and "pagetable (procs s ! cur s) = root" and "unat addr + nat n < 2 ^ 64"
  shows "if pqueue (pipes s pi) = [] \<and> writeopen (pipes s pi)
     then piperead pi addr n s = Ret (if killedf (procs s ! cur s) then PDone (-1) else PSleep 0, s)
     else \<exists>s' k e. piperead pi addr n s = Ret (PDone (int k), s') \<and>
       copied s ps root D (unat addr) (take (nat n) (pqueue (pipes s pi))) k e
         (s'\<lparr>pipes := pipes s, procs := procs s\<rparr>) \<and>
       pqueue (pipes s' pi) = drop (if e = 0 then k else Suc k) (pqueue (pipes s pi)) \<and>
       pipe_inv (pipes s' pi) \<and> (\<forall>q. q \<noteq> pi \<longrightarrow> pipes s' q = pipes s q)"
proof (cases "pqueue (pipes s pi) = [] \<and> writeopen (pipes s pi)")
  case True
  then show ?thesis by (simp add: piperead_def pifld_def myproc_def killed_def pget_def pqueue_empty)
next
  case False
  from piperead_loop_ok [OF assms(1-4), of addr 0 "nat n"] assms(5) obtain s1 k e where
    r: "piperead_loop (nat n) pi addr 0 s = Ret (int k, s1)" and m: "moved s ps root D pi (unat addr) (nat n) s1 k e"
    and p: "procs s1 = procs s" "cur s1 = cur s" by auto
  let ?s2 = "s1\<lparr>procs := wake (cur s1) (Chan_pipe_write pi) (procs s1)\<rparr>"
  have "piperead pi addr n s = Ret (PDone (int k), ?s2)"
    using False r by (simp add: piperead_def pifld_def myproc_def killed_def pget_def pqueue_empty wakeup_def)
  moreover have "?s2\<lparr>pipes := pipes s, procs := procs s\<rparr> = s1\<lparr>pipes := pipes s\<rparr>" using p by simp
  ultimately show ?thesis using False m unfolding moved_def by (intro if_not_P [THEN iffD2] exI [of _ ?s2]) auto
qed

theorem piperead_takes_witness:
  "piperead 0x87ff1000 0 3 demo_k = Ret (PSleep 0, demo_k)"
proof -
  have us: "\<forall>j < 67108864. Vm_Copy.writable (upte demo_k 0x87fff000 j) \<longrightarrow> j \<in> {0}"
    using demo_only_page by (auto simp: Vm_Copy.readable_def Vm_Copy.writable_def)
  have inv: "pipe_inv (pipes demo_k 0x87ff1000)" by (simp add: demo_k_def demo_pipe_def pipe_inv_def pqueue_def)
  have pt: "pagetable (procs demo_k ! cur demo_k) = 0x87fff000" by (simp add: demo_k_def demo_proc_def)
  have "pqueue (pipes demo_k 0x87ff1000) = []" "writeopen (pipes demo_k 0x87ff1000)" "\<not> killedf (procs demo_k ! cur demo_k)"
    by (simp_all add: demo_k_def demo_pipe_def pqueue_def demo_proc_def)
  then show ?thesis using piperead_takes [OF demo_k_uspace us inv pt, of 0 3] by simp
qed

end
