(* ===== verification/Console_Props.thy ===== *)
theory Console_Props
  imports Demo
begin

text \<open>
  The console: the transmit buffer delivers characters in order, and the interrupt handler is a
  line editor on a queue of committed input and a pending line.
\<close>

interpretation ur: ring 32 "TYPE(64)"
  by unfold_locales simp_all

interpretation cr: ring 128 "TYPE(32)"
  by unfold_locales simp_all

section \<open>Transmitting\<close>

definition tx_queue :: "'s kcons_scheme \<Rightarrow> u8 list" where
  "tx_queue s = ring_queue UART_TX_BUF_SIZE (uart_tx_buf s) (uart_tx_r s) (uart_tx_w s)"

definition tx_inv :: "'s kcons_scheme \<Rightarrow> bool" where
  "tx_inv s \<longleftrightarrow> length (uart_tx_buf s) = UART_TX_BUF_SIZE \<and> length (tx_queue s) \<le> UART_TX_BUF_SIZE"

definition chr :: "u8 \<Rightarrow> char" where
  "chr b = char_of (unat b)"

lemma uartstart_loop_sends:
  assumes "tx_inv s"
  shows "\<exists>s'. uartstart_loop n s = Ret ((), s') \<and> tx_inv s' \<and> tx_queue s' = drop n (tx_queue s) \<and>
     cons_out s' = cons_out s @ map chr (take n (tx_queue s)) \<and> tx_room s' = tx_room s - min n (length (tx_queue s)) \<and>
     uart_tx_w s' = uart_tx_w s \<and> panicked s' = panicked s"
  using assms
proof (induction n arbitrary: s)
  case (Suc n)
  show ?case
  proof (cases "uart_tx_w s = uart_tx_r s")
    case True
    then show ?thesis using Suc.prems by (simp add: tx_queue_def)
  next
    case False
    let ?c = "uart_tx_buf s ! slot UART_TX_BUF_SIZE (uart_tx_r s)"
    let ?s1 = "s\<lparr>uart_tx_r := uart_tx_r s + 1, procs := wake (cur s) Chan_uart_tx (procs s),
        cons_out := cons_out s @ [chr ?c], tx_room := tx_room s - 1\<rparr>"
    have q: "tx_queue s = ?c # tx_queue ?s1"
      using ur.ring_pop [of "uart_tx_r s" "uart_tx_w s" "uart_tx_buf s"] False by (simp add: tx_queue_def)
    have "uartstart_loop (Suc n) s = uartstart_loop n ?s1"
      using False by (simp add: write_thr_def wakeup_def chr_def)
    moreover have "tx_inv ?s1" using Suc.prems q by (simp add: tx_inv_def)
    ultimately show ?thesis using Suc.IH [of ?s1] q by auto
  qed
qed simp

section \<open>Line editing\<close>

definition committed :: "'s kcons_scheme \<Rightarrow> u8 list" where
  "committed s = ring_queue INPUT_BUF_SIZE (cons_buf s) (cons_r s) (cons_w s)"

definition pending :: "'s kcons_scheme \<Rightarrow> u8 list" where
  "pending s = ring_queue INPUT_BUF_SIZE (cons_buf s) (cons_w s) (cons_e s)"

text \<open>\<open>r \<le> w \<le> e\<close> along the ring, at most one buffer apart, and no newline in the pending line.\<close>

definition cons_inv :: "'s kcons_scheme \<Rightarrow> bool" where
  "cons_inv s \<longleftrightarrow> length (cons_buf s) = INPUT_BUF_SIZE \<and>
     unat (cons_e s - cons_r s) = unat (cons_w s - cons_r s) + unat (cons_e s - cons_w s) \<and>
     unat (cons_e s - cons_r s) \<le> INPUT_BUF_SIZE \<and> 10 \<notin> set (pending s)"

text \<open>What one input character does to the committed input and the pending line.\<close>

definition edit :: "u8 \<Rightarrow> u8 list \<times> u8 list \<Rightarrow> u8 list \<times> u8 list" where
  "edit c = (\<lambda>(q, line).
     if c = 16 then (q, line)
     else if c = 21 then (q, [])
     else if c = 8 \<or> c = 0x7f then (q, butlast line)
     else if c = 0 \<or> length q + length line \<ge> INPUT_BUF_SIZE then (q, line)
     else let c = (if c = 13 then 10 else c); line = line @ [c] in
       if c = 10 \<or> c = 4 \<or> length q + length line = INPUT_BUF_SIZE then (q @ line, []) else (q, line))"

lemma cons_lengths:
  assumes "cons_inv s"
  shows "length (committed s) + length (pending s) = unat (cons_e s - cons_r s)"
  using assms by (simp add: cons_inv_def committed_def pending_def)

text \<open>Committed and pending input are adjacent.\<close>

lemma committed_pending:
  assumes "unat (e - r) = unat (w - r) + unat (e - w)"
  shows "ring_queue N d r (e :: u32) = ring_queue N d r w @ ring_queue N d w e"
proof -
  have "[0..<unat (e - r)] = [0..<unat (w - r)] @ map (\<lambda>i. i + unat (w - r)) [0..<unat (e - w)]"
    unfolding map_add_upt assms using upt_add_eq_append [of 0 "unat (w - r)" "unat (e - w)"]
    by (simp only: le0 simp_thms add.commute)
  moreover have "r + of_nat (i + unat (w - r)) = w + of_nat i" for i :: nat
    by simp
  ultimately show ?thesis unfolding ring_queue_def by (simp only: map_append map_map o_def)
qed

lemma consputc_ok:
  "\<not> panicked s \<Longrightarrow> \<exists>o1 n. consputc c s = Ret ((), s\<lparr>cons_out := o1, tx_room := n\<rparr>)"
  by (auto simp: consputc_def uartputc_sync_def write_thr_def)

text \<open>Echoing does not touch the input buffer.\<close>

lemma echo_same [simp]:
  "committed (s\<lparr>cons_out := o1, tx_room := n\<rparr>) = committed s"
  "pending (s\<lparr>cons_out := o1, tx_room := n\<rparr>) = pending s"
  "cons_inv (s\<lparr>cons_out := o1, tx_room := n\<rparr>) = cons_inv s"
  by (simp_all add: committed_def pending_def cons_inv_def)

lemma erase_last:
  assumes "cons_inv s" and "cons_e s \<noteq> cons_w s"
  shows "pending s = pending (s\<lparr>cons_e := cons_e s - 1\<rparr>) @ [cons_buf s ! slot INPUT_BUF_SIZE (cons_e s - 1)]"
    and "cons_inv (s\<lparr>cons_e := cons_e s - 1\<rparr>)" and "committed (s\<lparr>cons_e := cons_e s - 1\<rparr>) = committed s"
proof -
  show p: "pending s = pending (s\<lparr>cons_e := cons_e s - 1\<rparr>) @ [cons_buf s ! slot INPUT_BUF_SIZE (cons_e s - 1)]"
    using cr.ring_unpush [of "cons_w s" "cons_e s" "cons_buf s"] assms(2) by (simp add: pending_def)
  have w: "unat (cons_e s - 1 - cons_w s) = unat (cons_e s - cons_w s) - 1" "0 < unat (cons_e s - cons_w s)"
    using arg_cong [OF p, of length] by (simp_all add: pending_def)
  have "0 < unat (cons_e s - cons_r s)" using assms(1) w(2) by (simp add: cons_inv_def)
  then have "cons_e s - cons_r s \<noteq> 0" by (metis unat_0 less_irrefl)
  then have "unat (cons_e s - cons_r s - 1) = unat (cons_e s - cons_r s) - 1" by (rule unat_minus_one)
  then have "unat (cons_e s - 1 - cons_r s) = unat (cons_e s - cons_r s) - 1"
    by (simp only: cancel_ab_semigroup_add_class.diff_right_commute [of "cons_e s" "cons_r s" 1])
  then show "cons_inv (s\<lparr>cons_e := cons_e s - 1\<rparr>)"
    using assms(1) w p unfolding cons_inv_def by (auto simp: committed_def)
qed (simp add: committed_def)

lemma kill_line_ok:
  assumes "cons_inv s" and "\<not> panicked s" and "n = length (pending s)"
  shows "\<exists>s'. kill_line n s = Ret ((), s') \<and> cons_inv s' \<and> committed s' = committed s \<and> pending s' = []"
  using assms
proof (induction n arbitrary: s)
  case (Suc n)
  let ?s1 = "s\<lparr>cons_e := cons_e s - 1\<rparr>"
  have ne: "cons_e s \<noteq> cons_w s" using Suc.prems(3) by (auto simp: pending_def)
  note er = erase_last [OF Suc.prems(1) ne]
  have "cons_buf s ! slot INPUT_BUF_SIZE (cons_e s - 1) \<noteq> 10"
    using Suc.prems(1) er(1) unfolding cons_inv_def by (metis in_set_conv_decomp)
  moreover obtain o1 r where o: "consputc BACKSPACE ?s1 = Ret ((), ?s1\<lparr>cons_out := o1, tx_room := r\<rparr>)"
    using consputc_ok [of ?s1 BACKSPACE] Suc.prems(2) by auto
  ultimately have run: "kill_line (Suc n) s = kill_line n (?s1\<lparr>cons_out := o1, tx_room := r\<rparr>)" by simp
  have "\<exists>s'. kill_line n (?s1\<lparr>cons_out := o1, tx_room := r\<rparr>) = Ret ((), s') \<and> cons_inv s' \<and>
      committed s' = committed (?s1\<lparr>cons_out := o1, tx_room := r\<rparr>) \<and> pending s' = []"
    using er Suc.prems arg_cong [OF er(1), of length] by (intro Suc.IH) (simp_all only: echo_same, simp_all)
  then show ?case using run er(3) by (simp only: echo_same)
qed simp

lemma procdump_fmt: "\<exists>t. printf ''%d %s %s'' [VInt w, VStr (Some a), VStr (Some b)] = Some t"
proof -
  obtain t where "printint (scast w) 10 True = Some t" using printint_int by blast
  then show ?thesis
    by (simp add: printf_def printf_loop.simps conversion_def fmt_at_def kprinters_def)
qed

lemma kprintf_nl: "kprintf [CHR 0x0A] [] s = Ret ((), s\<lparr>cons_out := cons_out s @ [CHR 0x0A]\<rparr>)"
  by (simp add: kprintf_def printf_def printf_loop.simps)

lemma procdump_loop_ok: "\<exists>o1. procdump_loop ps s = Ret ((), s\<lparr>cons_out := o1\<rparr>)"
proof (induction ps arbitrary: s)
  case Nil
  then show ?case by (auto intro: exI [of _ "cons_out s"])
next
  case (Cons p ps)
  obtain t where "printf ''%d %s %s'' [VInt (pid p), VStr (Some (state_name (state p))), VStr (Some (cstr (pname p)))] = Some t"
    using procdump_fmt by blast
  then have t: "kprintf ''%d %s %s'' [VInt (pid p), VStr (Some (state_name (state p))), VStr (Some (cstr (pname p)))] s =
      Ret ((), s\<lparr>cons_out := cons_out s @ t\<rparr>)"
    by (simp add: kprintf_def)
  show ?case
  proof (cases "state p = UNUSED")
    case True
    then show ?thesis using Cons.IH [of s] by simp
  next
    case False
    let ?s1 = "s\<lparr>cons_out := cons_out s @ t @ [CHR 0x0A]\<rparr>"
    have "procdump_loop (p # ps) s = procdump_loop ps ?s1"
      using False by (simp add: kprintf_nl t kseq_def)
    then show ?thesis using Cons.IH [of ?s1] by simp
  qed
qed

lemma procdump_ok: "\<exists>o1. procdump s = Ret ((), s\<lparr>cons_out := o1\<rparr>)"
proof -
  let ?s1 = "s\<lparr>cons_out := cons_out s @ [CHR 0x0A]\<rparr>"
  have "procdump s = procdump_loop (procs s) ?s1" by (simp add: procdump_def kprintf_nl)
  then show ?thesis using procdump_loop_ok [of "procs s" ?s1] by simp
qed

text \<open>A character is stored at the edit index.\<close>

lemma append_pending:
  fixes s :: "'s kcons_scheme" and c :: u8
  assumes "cons_inv s" and "unat (cons_e s - cons_r s) < INPUT_BUF_SIZE"
  defines "t \<equiv> s\<lparr>cons_buf := (cons_buf s)[slot INPUT_BUF_SIZE (cons_e s) := c], cons_e := cons_e s + 1\<rparr>"
  shows "pending t = pending s @ [c]" and "committed t = committed s"
    and "unat (cons_e t - cons_r t) = Suc (unat (cons_e s - cons_r s))"
    and "unat (cons_e t - cons_w t) = Suc (unat (cons_e s - cons_w s))"
proof -
  let ?d = "(cons_buf s)[slot INPUT_BUF_SIZE (cons_e s) := c]"
  have inv: "length (cons_buf s) = 128" and split: "unat (cons_e s - cons_r s) = unat (cons_w s - cons_r s) + unat (cons_e s - cons_w s)"
    using assms(1) by (simp_all add: cons_inv_def)
  then have w: "unat (cons_e s - cons_w s) < 128" using assms(2) by simp
  show p: "pending t = pending s @ [c]"
    using cr.ring_push [OF w inv, of c] by (simp add: pending_def t_def)
  show e: "unat (cons_e t - cons_r t) = Suc (unat (cons_e s - cons_r s))"
    using cr.index_diff_Suc [of "cons_e s" "cons_r s"] assms(2) by (simp add: t_def)
  show ew: "unat (cons_e t - cons_w t) = Suc (unat (cons_e s - cons_w s))"
    using cr.index_diff_Suc [OF w] by (simp add: t_def)
  have "ring_queue 128 ?d (cons_r s) (cons_e s + 1) = ring_queue 128 (cons_buf s) (cons_r s) (cons_e s) @ [c]"
    using cr.ring_push [of "cons_e s" "cons_r s" "cons_buf s" c] assms(2) inv by simp
  moreover have "unat (cons_e s + 1 - cons_r s) = unat (cons_w s - cons_r s) + unat (cons_e s + 1 - cons_w s)"
    using e ew split by (simp add: t_def)
  ultimately show "committed t = committed s"
    using p committed_pending [OF split, of 128 "cons_buf s"]
      committed_pending [of "cons_e s + 1" "cons_r s" "cons_w s" 128 ?d]
    by (simp add: committed_def pending_def t_def)
qed

text \<open>Committing the pending line.\<close>

lemma commit_pending:
  assumes "unat (cons_e s - cons_r s) = unat (cons_w s - cons_r s) + unat (cons_e s - cons_w s)"
  shows "committed (s\<lparr>cons_w := cons_e s, procs := ps\<rparr>) = committed s @ pending s"
    and "pending (s\<lparr>cons_w := cons_e s, procs := ps\<rparr>) = []"
  using committed_pending [OF assms] by (simp_all add: committed_def pending_def)

text \<open>An ordinary character, with room for it.\<close>

lemma consoleintr_store:
  assumes "cons_inv s" and "\<not> panicked s" and "c \<notin> {0, 16, 21, 8, 0x7f}"
    and "unat (cons_e s - cons_r s) < INPUT_BUF_SIZE"
  shows "\<exists>s'. consoleintr c s = Ret ((), s') \<and> cons_inv s' \<and>
     (committed s', pending s') = edit c (committed s, pending s)"
proof -
  define d where "d = (if c = 13 then 10 else c)"
  obtain o1 n where o: "consputc (ucast d) s = Ret ((), s\<lparr>cons_out := o1, tx_room := n\<rparr>)"
    using consputc_ok [OF assms(2)] by blast
  define u where "u = s\<lparr>cons_out := o1, tx_room := n\<rparr>"
  define t where "t = u\<lparr>cons_buf := (cons_buf u)[slot INPUT_BUF_SIZE (cons_e u) := d], cons_e := cons_e u + 1\<rparr>"
  have iu: "cons_inv u" "unat (cons_e u - cons_r u) < INPUT_BUF_SIZE" using assms(1,4) by (simp_all only: u_def echo_same, simp)
  note ap = append_pending [OF iu, of d, folded t_def]
  have tc: "committed t = committed s" "pending t = pending s @ [d]"
    using ap(1,2) by (simp_all only: u_def echo_same)
  have len: "length (committed t) + length (pending t) = unat (cons_e t - cons_r t)"
    using ap(3) cons_lengths [OF iu(1)] unfolding ap(1,2) by simp
  have split: "unat (cons_e t - cons_r t) = unat (cons_w t - cons_r t) + unat (cons_e t - cons_w t)"
    using len by (simp add: committed_def pending_def)
  have full: "cons_e t - cons_r t = of_nat INPUT_BUF_SIZE \<longleftrightarrow> unat (cons_e t - cons_r t) = INPUT_BUF_SIZE"
    by (simp add: word_unat_eq_iff)
  define v where "v = t\<lparr>cons_w := cons_e t, procs := wake (cur t) Chan_cons (procs t)\<rparr>"
  let ?commit = "d = 10 \<or> d = 4 \<or> cons_e t - cons_r t = of_nat INPUT_BUF_SIZE"
  have lt: "cons_e s - cons_r s < of_nat INPUT_BUF_SIZE" using assms(4) by (simp add: word_less_nat_alt)
  have run: "consoleintr c s = Ret ((), if ?commit then v else t)"
    using assms(3) o lt by (simp add: consoleintr_def d_def [symmetric] Let_def v_def t_def u_def wakeup_def)
  have ed: "edit c (committed s, pending s) = (if ?commit then (committed s @ pending s @ [d], []) else (committed s, pending s @ [d]))"
    using assms(3,4) len full cons_lengths [OF assms(1)] unfolding tc by (simp add: edit_def d_def [symmetric] Let_def)
  have lb: "length (cons_buf t) = 128" "unat (cons_e t - cons_r t) \<le> 128"
    using iu ap(3) by (simp_all add: cons_inv_def t_def)
  show ?thesis
  proof (cases ?commit)
    case True
    have "pending v = []" "committed v = committed s @ pending s @ [d]"
      unfolding v_def commit_pending [OF split] tc by simp_all
    moreover have "cons_inv v" using lb \<open>pending v = []\<close> by (simp add: cons_inv_def v_def)
    ultimately show ?thesis using run ed True by simp
  next
    case False
    have "cons_inv t" using lb split assms(1) False tc by (auto simp: cons_inv_def)
    then show ?thesis using run ed tc False by simp
  qed
qed

section \<open>Properties\<close>

text \<open>
  Property C27. Output is delivered in order: \<open>uartputc\<close> sleeps exactly when the transmit buffer is full;
  otherwise the characters the device has taken, followed by those in the buffer, are the same as
  before with the new one at the end, and the handler stops only with an empty buffer or a busy device.
\<close>

theorem uartputc_stream:
  assumes "tx_inv s" and "\<not> panicked s"
  shows "if length (tx_queue s) = UART_TX_BUF_SIZE then uartputc c s = Blocked Chan_uart_tx
     else \<exists>s'. uartputc c s = Ret ((), s') \<and> tx_inv s' \<and> \<not> panicked s' \<and>
       cons_out s' @ map chr (tx_queue s') = cons_out s @ map chr (tx_queue s @ [c]) \<and>
       (tx_queue s' = [] \<or> tx_room s' = 0)"
proof (cases "length (tx_queue s) = UART_TX_BUF_SIZE")
  case True
  then show ?thesis using assms ur.ring_full_iff [of "uart_tx_w s" "uart_tx_r s"] by (simp add: uartputc_def tx_queue_def)
next
  case False
  let ?s1 = "s\<lparr>uart_tx_buf := (uart_tx_buf s)[slot UART_TX_BUF_SIZE (uart_tx_w s) := c], uart_tx_w := uart_tx_w s + 1\<rparr>"
  have n: "unat (uart_tx_w s - uart_tx_r s) < 32" and l: "length (uart_tx_buf s) = 32"
    using assms(1) False by (simp_all add: tx_inv_def tx_queue_def)
  have q: "tx_queue ?s1 = tx_queue s @ [c]" using ur.ring_push [OF n l, of c] by (simp add: tx_queue_def)
  have inv: "tx_inv ?s1" unfolding tx_inv_def q using n l by (simp add: tx_queue_def)
  have "uart_tx_w s \<noteq> uart_tx_r s + 32"
    using n ur.ring_full_iff [of "uart_tx_w s" "uart_tx_r s"] by simp
  then have run: "uartputc c s = uartstart_loop (tx_room s) ?s1"
    using assms(2) by (simp add: uartputc_def uartstart_def)
  obtain s' where s': "uartstart_loop (tx_room s) ?s1 = Ret ((), s')" "tx_inv s'" "tx_queue s' = drop (tx_room s) (tx_queue ?s1)"
      "cons_out s' = cons_out s @ map chr (take (tx_room s) (tx_queue ?s1))" "panicked s' = panicked s"
      "tx_room s' = tx_room s - min (tx_room s) (length (tx_queue ?s1))"
    using uartstart_loop_sends [OF inv, of "tx_room s"] by auto
  have "cons_out s' @ map chr (tx_queue s') = cons_out s @ map chr (tx_queue s @ [c])"
    unfolding s'(3,4) q by (metis append.assoc append_take_drop_id map_append)
  moreover have "tx_queue s' = [] \<or> tx_room s' = 0"
    unfolding s'(3,6) q by (cases "tx_room s \<le> length (tx_queue s @ [c])") simp_all
  ultimately show ?thesis using False run s' assms(2) by auto
qed

theorem uartputc_stream_witness:
  "\<exists>s'. uartputc 65 demo_k = Ret ((), s') \<and> cons_out s' @ map chr (tx_queue s') = ''A''"
proof -
  have "tx_inv demo_k" "\<not> panicked demo_k" "tx_queue demo_k = []" "cons_out demo_k = []"
    by (simp_all add: tx_inv_def tx_queue_def demo_k_def)
  moreover have "chr 65 = CHR ''A''" by (simp add: chr_def char_of_def bit_0)
  ultimately show ?thesis using uartputc_stream [of demo_k 65] by auto
qed

text \<open>
  Property C28. The console interrupt handler is a line editor: on the committed input and the pending
  line, each character acts as \<open>edit\<close> says (control-U drops the line, delete and control-H its last
  character, carriage return becomes newline, a newline, control-D or a full buffer commits the line,
  and input beyond the buffer is dropped); the handler always returns, and the ring stays well formed.
\<close>

theorem consoleintr_edits:
  assumes "cons_inv s" and "\<not> panicked s"
  shows "\<exists>s'. consoleintr c s = Ret ((), s') \<and> cons_inv s' \<and>
     (committed s', pending s') = edit c (committed s, pending s)"
proof -
  consider (dump) "c = 16" | (kill) "c = 21" | (del) "c = 8 \<or> c = 0x7f" | (drop) "c \<notin> {16, 21, 8, 0x7f}" "c = 0 \<or> unat (cons_e s - cons_r s) \<ge> INPUT_BUF_SIZE"
    | (store) "c \<notin> {0, 16, 21, 8, 0x7f}" "unat (cons_e s - cons_r s) < INPUT_BUF_SIZE"
    by fastforce
  then show ?thesis
  proof cases
    case dump
    obtain o1 where "procdump s = Ret ((), s\<lparr>cons_out := o1\<rparr>)" using procdump_ok by blast
    moreover have "committed (s\<lparr>cons_out := o1\<rparr>) = committed s" "pending (s\<lparr>cons_out := o1\<rparr>) = pending s"
        "cons_inv (s\<lparr>cons_out := o1\<rparr>) = cons_inv s"
      by (simp_all add: committed_def pending_def cons_inv_def)
    ultimately show ?thesis using dump assms(1) by (simp add: consoleintr_def edit_def)
  next
    case kill
    have "unat (cons_e s - cons_w s) = length (pending s)" by (simp add: pending_def)
    then show ?thesis using kill kill_line_ok [OF assms refl] by (simp add: consoleintr_def edit_def)
  next
    case del
    show ?thesis
    proof (cases "cons_e s = cons_w s")
      case True
      then have "pending s = []" by (simp add: pending_def)
      then show ?thesis using del True assms by (auto simp: consoleintr_def edit_def)
    next
      case False
      let ?s1 = "s\<lparr>cons_e := cons_e s - 1\<rparr>"
      obtain o1 r where o: "consputc BACKSPACE ?s1 = Ret ((), ?s1\<lparr>cons_out := o1, tx_room := r\<rparr>)"
        using consputc_ok [of ?s1 BACKSPACE] assms(2) by auto
      have "edit c (committed s, pending s) = (committed s, butlast (pending s))"
        using del by (auto simp: edit_def)
      moreover have "consoleintr c s = Ret ((), ?s1\<lparr>cons_out := o1, tx_room := r\<rparr>)"
        using del False o by (auto simp: consoleintr_def)
      ultimately show ?thesis using erase_last [OF assms(1) False] by (simp only: echo_same) auto
    qed
  next
    case drop
    have "\<not> (c \<noteq> 0 \<and> cons_e s - cons_r s < of_nat INPUT_BUF_SIZE)"
      using drop(2) by (auto simp: word_less_nat_alt)
    then show ?thesis using drop assms cons_lengths [OF assms(1)] by (auto simp: consoleintr_def edit_def)
  next
    case store
    then show ?thesis using consoleintr_store [OF assms] by blast
  qed
qed

theorem consoleintr_edits_witness:
  "\<exists>s'. consoleintr 13 demo_k = Ret ((), s') \<and> committed s' = [10] \<and> pending s' = []"
proof -
  have "cons_inv demo_k" "\<not> panicked demo_k" "pending demo_k = []" "committed demo_k = []"
    by (simp_all add: cons_inv_def pending_def committed_def demo_k_def)
  moreover have "edit 13 ([], []) = ([10], [])" by (simp add: edit_def)
  ultimately show ?thesis using consoleintr_edits [of demo_k 13] by auto
qed

end
