(* ===== verification/Bio_List.thy ===== *)
theory Bio_List
  imports Bio
begin

text \<open>
  The doubly linked list of the buffer cache as a recency order: what the pointer operations do to
  it, and that the scans of \<open>bget\<close> are searches in it.
\<close>

section \<open>The recency list\<close>

text \<open>Consecutive elements point at each other.\<close>

fun linked :: "buf list \<Rightarrow> nat list \<Rightarrow> bool" where
  "linked bs (x # y # zs) \<longleftrightarrow> bnext (bs ! x) = y \<and> bprev (bs ! y) = x \<and> linked bs (y # zs)"
| "linked bs _ \<longleftrightarrow> True"

text \<open>The buffers in the order of their last use, most recent first; the head closes the circle.\<close>

definition lru :: "buf list \<Rightarrow> nat list \<Rightarrow> bool" where
  "lru bs xs \<longleftrightarrow> length bs = Suc NBUF \<and> distinct xs \<and> set xs = {..<NBUF} \<and> linked bs (NBUF # xs @ [NBUF])"

lemma linked_append:
  "xs \<noteq> [] \<Longrightarrow> ys \<noteq> [] \<Longrightarrow>
   linked bs (xs @ ys) \<longleftrightarrow> linked bs xs \<and> linked bs ys \<and> bnext (bs ! List.last xs) = hd ys \<and> bprev (bs ! hd ys) = List.last xs"
proof (induction xs)
  case (Cons x xs)
  then show ?case by (cases xs; cases ys) auto
qed simp

lemma linked_cong:
  assumes "\<And>x. x \<in> set (butlast xs) \<Longrightarrow> bnext (bs ! x) = bnext (cs ! x)"
    and "\<And>x. x \<in> set (tl xs) \<Longrightarrow> bprev (bs ! x) = bprev (cs ! x)"
  shows "linked bs xs = linked cs xs"
  using assms
proof (induction bs xs rule: linked.induct)
  case (1 bs x y zs)
  have "bnext (bs ! x) = bnext (cs ! x)" "bprev (bs ! y) = bprev (cs ! y)" using "1.prems" by simp_all
  moreover have "linked bs (y # zs) = linked cs (y # zs)"
    using "1.prems" by (intro "1.IH") simp_all
  ultimately show ?case by simp
qed simp_all

subsection \<open>Moving a buffer to the front\<close>

lemma unlink_fields:
  assumes "b \<le> NBUF" and "bnext (bs ! b) \<le> NBUF" and "bprev (bs ! b) \<le> NBUF" and "length bs = Suc NBUF" and "i \<le> NBUF"
  shows "bnext (unlink_buf b bs ! i) = (if i = bprev (bs ! b) then bnext (bs ! b) else bnext (bs ! i))"
    and "bprev (unlink_buf b bs ! i) = (if i = bnext (bs ! b) then bprev (bs ! b) else bprev (bs ! i))"
  using assms by (auto simp: unlink_buf_def Let_def nth_list_update)

lemma link_fields:
  assumes "b < NBUF" and "bnext (bs ! NBUF) \<le> NBUF" and "length bs = Suc NBUF" and "i \<le> NBUF" and "bnext (bs ! NBUF) \<noteq> b"
  shows "bnext (link_front b bs ! i) = (if i = NBUF then b else if i = b then bnext (bs ! NBUF) else bnext (bs ! i))"
    and "bprev (link_front b bs ! i) = (if i = bnext (bs ! NBUF) then b else if i = b then NBUF else bprev (bs ! i))"
  using assms by (auto simp: link_front_def Let_def nth_list_update)

text \<open>What the list operations leave alone: everything but the two pointers.\<close>

definition bcore :: "buf \<Rightarrow> buf" where
  "bcore x = x\<lparr>bprev := 0, bnext := 0\<rparr>"

lemma bcore_eq: "bcore x = bcore y \<longleftrightarrow> valid x = valid y \<and> diskf x = diskf y \<and> dev x = dev y \<and> blockno x = blockno y \<and>
    block x = block y \<and> refcnt x = refcnt y \<and> bdata x = bdata y"
  by (cases x; cases y) (simp add: bcore_def)

lemma map_bcore_update: "bcore y = bcore (bs ! i) \<Longrightarrow> map bcore (bs[i := y]) = map bcore bs"
  by (metis list_update_id map_update)

lemma core_unlink [simp]: "map bcore (unlink_buf b bs) = map bcore bs"
  unfolding unlink_buf_def Let_def by (subst map_bcore_update, simp add: bcore_eq)+ simp

lemma core_link [simp]: "map bcore (link_front b bs) = map bcore bs"
  unfolding link_front_def Let_def by (subst map_bcore_update, simp add: bcore_eq)+ simp

lemma length_unlink [simp]: "length (unlink_buf b bs) = length bs"
  by (simp add: unlink_buf_def Let_def)

lemma length_link [simp]: "length (link_front b bs) = length bs"
  by (simp add: link_front_def Let_def)

lemma linked_unlink:
  assumes "linked bs (NBUF # ys @ b # zs @ [NBUF])" and "distinct (ys @ b # zs)" and "set (ys @ b # zs) \<subseteq> {..<NBUF}"
    and "length bs = Suc NBUF"
  shows "linked (unlink_buf b bs) (NBUF # ys @ zs @ [NBUF])"
proof -
  let ?as = "NBUF # ys" and ?cs = "zs @ [NBUF]" and ?u = "unlink_buf b bs"
  have l: "linked bs ?as" "linked bs ?cs" and pv: "bprev (bs ! b) = List.last ?as" and nx: "bnext (bs ! b) = hd ?cs"
    using assms(1) linked_append [of ?as "b # ?cs" bs] linked_append [of "[b]" ?cs bs] by simp_all
  have in_as: "List.last ?as \<in> set ?as" "hd ?cs \<in> set ?cs"
    by (metis last_in_set list.distinct(1), cases zs) simp_all
  have as: "set ?as \<subseteq> {..NBUF}" "set ?cs \<subseteq> {..NBUF}" using assms(3) by force+
  have le: "List.last ?as \<le> NBUF" "hd ?cs \<le> NBUF" using in_as as by (meson atMost_iff subsetD)+
  have b: "b \<le> NBUF" using assms(3) by simp
  note f = unlink_fields [of b bs, OF b _ _ assms(4), unfolded nx pv, OF le(2,1)]
  have d: "distinct ?as" "distinct ?cs" "set ys \<inter> set zs = {}" using assms(2,3) by auto
  have ne: "List.last ?as \<notin> set (butlast ?as)" "hd ?cs \<notin> set (tl ?cs)"
    using d(1,2) by (metis append_butlast_last_id distinct_butlast list.distinct(1) not_distinct_conv_prefix append_Nil2 distinct_append disjoint_iff list.set_intros(1),
        metis Nil_is_append_conv distinct.simps(2) list.collapse list.distinct(1))
  have disj: "List.last ?as \<notin> set zs" "hd ?cs \<notin> set ys"
    using in_as d assms(3) by auto
  have "linked ?u ?as = linked bs ?as"
  proof (rule linked_cong)
    fix x assume "x \<in> set (butlast ?as)"
    then have "x \<in> set ?as" "x \<noteq> List.last ?as" using in_set_butlastD [of x ?as] ne(1) by auto
    then have "x \<le> NBUF" "x \<noteq> List.last ?as" using as(1) by auto
    then show "bnext (?u ! x) = bnext (bs ! x)" using f(1) [of x] by simp
  next
    fix x assume "x \<in> set (tl ?as)"
    then have "x \<le> NBUF" "x \<noteq> hd ?cs" using as(1) disj(2) by auto
    then show "bprev (?u ! x) = bprev (bs ! x)" using f(2) [of x] by simp
  qed
  moreover have "linked ?u ?cs = linked bs ?cs"
  proof (rule linked_cong)
    fix x assume "x \<in> set (butlast ?cs)"
    then have "x \<le> NBUF" "x \<noteq> List.last ?as" using as(2) disj(1) by auto
    then show "bnext (?u ! x) = bnext (bs ! x)" using f(1) [of x] by simp
  next
    fix x assume "x \<in> set (tl ?cs)"
    then have "x \<in> set ?cs" "x \<noteq> hd ?cs" using list.set_sel(2) [of ?cs x] ne(2) by auto
    then have "x \<le> NBUF" "x \<noteq> hd ?cs" using as(2) by auto
    then show "bprev (?u ! x) = bprev (bs ! x)" using f(2) [of x] by simp
  qed
  ultimately show ?thesis using l linked_append [of ?as ?cs ?u] f(1) [of "List.last ?as"] f(2) [of "hd ?cs"] le by simp
qed

lemma linked_link:
  assumes "linked bs (NBUF # zs @ [NBUF])" and "b \<notin> set zs" and "b < NBUF" and "distinct zs" and "set zs \<subseteq> {..<NBUF}"
    and "length bs = Suc NBUF"
  shows "linked (link_front b bs) (NBUF # b # zs @ [NBUF])"
proof -
  let ?cs = "zs @ [NBUF]" and ?u = "link_front b bs"
  have l: "linked bs ?cs" and nx: "bnext (bs ! NBUF) = hd ?cs"
    using assms(1) linked_append [of "[NBUF]" ?cs bs] by simp_all
  have "hd ?cs \<in> set ?cs" by (cases zs) simp_all
  then have le: "hd ?cs \<le> NBUF" "hd ?cs \<noteq> b" using assms(2,3,5) by auto
  note f = link_fields [OF assms(3) _ assms(6), unfolded nx, OF le(1) _ le(2)]
  have "distinct ?cs" using assms(4,5) by auto
  then have ne: "hd ?cs \<notin> set (tl ?cs)"
    by (metis Nil_is_append_conv distinct.simps(2) list.collapse list.distinct(1))
  have "linked ?u ?cs = linked bs ?cs"
  proof (rule linked_cong)
    fix x assume "x \<in> set (butlast ?cs)"
    then have "x < NBUF" "x \<noteq> b" using assms(2,5) by auto
    then show "bnext (?u ! x) = bnext (bs ! x)" using f(1) [of x] by simp
  next
    fix x assume x: "x \<in> set (tl ?cs)"
    then have "x \<in> set ?cs" by (metis list.set_sel(2) append_is_Nil_conv list.distinct(1))
    then have "x \<le> NBUF" "x \<noteq> b" "x \<noteq> hd ?cs" using x ne assms(2,3,5) by auto
    then show "bprev (?u ! x) = bprev (bs ! x)" using f(2) [of x] by simp
  qed
  then show ?thesis
    using l linked_append [of "[NBUF]" "b # ?cs" ?u] linked_append [of "[b]" ?cs ?u] f(1) [of NBUF] f(1) [of b]
      f(2) [of b] f(2) [of "hd ?cs"] le assms(3) by simp
qed

text \<open>The step of \<open>brelse\<close>.\<close>

lemma lru_move_front:
  assumes "lru bs xs" and "b < NBUF"
  shows "lru (link_front b (unlink_buf b bs)) (b # remove1 b xs)"
proof -
  obtain ys zs where xs: "xs = ys @ b # zs" "b \<notin> set ys"
    using assms split_list_first [of b xs] by (auto simp: lru_def)
  have d: "distinct (ys @ b # zs)" "set (ys @ b # zs) = {..<NBUF}" "length bs = Suc NBUF"
      "linked bs (NBUF # ys @ b # zs @ [NBUF])"
    using assms(1) xs by (simp_all add: lru_def)
  have "linked (unlink_buf b bs) (NBUF # (ys @ zs) @ [NBUF])" using linked_unlink [OF d(4,1) equalityD1 [OF d(2)] d(3)] by simp
  then have "linked (link_front b (unlink_buf b bs)) (NBUF # b # (ys @ zs) @ [NBUF])"
    using d assms(2) by (intro linked_link) auto
  moreover have "remove1 b xs = ys @ zs" using xs by (simp add: remove1_append)
  ultimately show ?thesis using d by (auto simp: lru_def)
qed

lemma lru_update:
  assumes "lru bs xs" and "bnext x = bnext (bs ! i)" and "bprev x = bprev (bs ! i)"
  shows "lru (bs[i := x]) xs"
proof -
  have "bnext (bs[i := x] ! j) = bnext (bs ! j)" "bprev (bs[i := x] ! j) = bprev (bs ! j)" for j
    using assms(2,3) by (metis nth_list_update_eq nth_list_update_neq list_update_beyond not_le)+
  then have "linked (bs[i := x]) (NBUF # xs @ [NBUF]) = linked bs (NBUF # xs @ [NBUF])"
    by (intro linked_cong) auto
  then show ?thesis using assms(1) by (simp add: lru_def)
qed

subsection \<open>Scanning\<close>

text \<open>Forward and backward, the scan is a search in the recency order.\<close>

lemma bscan_next:
  assumes "linked bs (zs @ [NBUF])" and "set zs \<subseteq> {..<NBUF}" and "length zs < n"
  shows "bscan n P bnext bs (hd (zs @ [NBUF])) = Ret (List.find (\<lambda>i. P (bs ! i)) zs)"
  using assms
proof (induction zs arbitrary: n)
  case Nil
  then show ?case by (cases n) simp_all
next
  case (Cons z zs)
  obtain k where n: "n = Suc k" using Cons.prems(3) by (cases n) simp_all
  have "linked bs (zs @ [NBUF])" and "bnext (bs ! z) = hd (zs @ [NBUF])"
    using Cons.prems(1) linked_append [of "[z]" "zs @ [NBUF]" bs] by simp_all
  then show ?case using Cons.IH [of k] Cons.prems(2,3) n by simp
qed

lemma bscan_prev:
  assumes "linked bs (NBUF # zs)" and "set zs \<subseteq> {..<NBUF}" and "length zs < n"
  shows "bscan n P bprev bs (List.last (NBUF # zs)) = Ret (List.find (\<lambda>i. P (bs ! i)) (rev zs))"
  using assms
proof (induction zs arbitrary: n rule: rev_induct)
  case Nil
  then show ?case by (cases n) simp_all
next
  case (snoc z zs)
  obtain k where n: "n = Suc k" using snoc.prems(3) by (cases n) simp_all
  have "linked bs (NBUF # zs)" and "bprev (bs ! z) = List.last (NBUF # zs)"
    using snoc.prems(1) linked_append [of "NBUF # zs" "[z]" bs] by simp_all
  then show ?case using snoc.IH [of k] snoc.prems(2,3) n by simp
qed

lemma lru_length: "lru bs xs \<Longrightarrow> length xs = NBUF"
  by (metis distinct_card card_lessThan lru_def)

lemma bfind_next:
  assumes "lru (bufs s) xs"
  shows "bfind P bnext s = Ret (List.find (\<lambda>i. P (bufs s ! i)) xs, s)"
proof -
  have l: "linked (bufs s) (xs @ [NBUF])" "bnext (bufs s ! NBUF) = hd (xs @ [NBUF])"
    using assms linked_append [of "[NBUF]" "xs @ [NBUF]" "bufs s"] by (simp_all add: lru_def)
  have "set xs \<subseteq> {..<NBUF}" "length xs < NBUF + 1"
    using assms lru_length [OF assms] by (simp_all add: lru_def)
  then show ?thesis unfolding bfind_def l(2) by (simp only: bscan_next [OF l(1)] obind_simps)
qed

lemma bfind_prev:
  assumes "lru (bufs s) xs"
  shows "bfind P bprev s = Ret (List.find (\<lambda>i. P (bufs s ! i)) (rev xs), s)"
proof -
  have l: "linked (bufs s) (NBUF # xs)" "bprev (bufs s ! NBUF) = List.last (NBUF # xs)"
    using assms linked_append [of "NBUF # xs" "[NBUF]" "bufs s"] by (simp_all add: lru_def)
  have "set xs \<subseteq> {..<NBUF}" "length xs < NBUF + 1"
    using assms lru_length [OF assms] by (simp_all add: lru_def)
  then show ?thesis unfolding bfind_def l(2) by (simp only: bscan_prev [OF l(1)] obind_simps)
qed

subsection \<open>Initialisation\<close>

lemma binit_fold:
  assumes "n \<le> NBUF" and "length bs = Suc NBUF" and "bprev (bs ! NBUF) = NBUF" and "bnext (bs ! NBUF) = NBUF"
  defines "f \<equiv> \<lambda>b bs. (link_front b bs)[b := (link_front b bs ! b)\<lparr>block := initsleeplock ''buffer''\<rparr>]"
  shows "length (fold f [0..<n] bs) = Suc NBUF \<and> linked (fold f [0..<n] bs) (NBUF # rev [0..<n] @ [NBUF])"
  using assms(1)
proof (induction n)
  case (Suc n)
  let ?bs = "fold f [0..<n] bs"
  have "linked (link_front n ?bs) (NBUF # n # rev [0..<n] @ [NBUF])"
    using Suc by (intro linked_link) auto
  moreover have "linked (cs[n := (cs ! n)\<lparr>block := l\<rparr>]) zs = linked cs zs" for cs l zs
    by (rule linked_cong) (cases "n < length cs"; simp add: nth_list_update list_update_beyond)+
  ultimately show ?case using Suc by (simp add: f_def)
qed (use assms in simp)

lemma binit_lru:
  assumes "length (bufs s) = Suc NBUF"
  shows "\<exists>s'. binit s = Ret ((), s') \<and> lru (bufs s') (rev [0..<NBUF])"
proof -
  let ?bs = "(bufs s)[NBUF := (bufs s ! NBUF)\<lparr>bprev := NBUF, bnext := NBUF\<rparr>]"
  have "length ?bs = Suc NBUF" "bprev (?bs ! NBUF) = NBUF" "bnext (?bs ! NBUF) = NBUF" using assms by simp_all
  from binit_fold [OF order.refl this] show ?thesis
    by (auto simp: binit_def lru_def)
qed

end
