(* ===== verification/Bio_Props.thy ===== *)
theory Bio_Props
  imports Bio_List Demo
begin

text \<open>
  The buffer cache is transparent: reading a block gives its latest contents, cached or not. The
  operations are described on an abstract state, which is the interface of the log.
\<close>

section \<open>Operations\<close>

definition me :: "'s kbio_scheme \<Rightarrow> int" where
  "me s = uint (pid (procs s ! cur s))"

text \<open>Buffer \<open>b\<close> is changed by \<open>f\<close> and locked by the current process, which sleeps when it is locked.\<close>

definition take_buf :: "nat \<Rightarrow> (buf \<Rightarrow> buf) \<Rightarrow> 's kbio_scheme \<Rightarrow> (nat \<times> 's kbio_scheme) outcome" where
  "take_buf b f s =
     (let x = bufs s ! b in
      if slocked (block x) then Blocked (Chan_buf_lock b)
      else Ret (b, s\<lparr>bufs := (bufs s)[b := (f x)\<lparr>block := (block x)\<lparr>slocked := True, slpid := me s\<rparr>\<rparr>]\<rparr>))"

lemma block_acquire_app:
  assumes "b < length (bufs s)" and "block (f (bufs s ! b)) = block (bufs s ! b)"
  shows "kseq (bmod f b) (kseq (block_acquire b) (kret b)) s = take_buf b f s"
  using assms
  by (auto simp: bmod_def block_acquire_def myproc_def pget_def bfld_def acquiresleep_def take_buf_def me_def Let_def kseq_def)

lemma bget_lru:
  assumes "lru (bufs s) xs"
  shows "bget d n s =
     (case List.find (\<lambda>i. dev (bufs s ! i) = d \<and> blockno (bufs s ! i) = n) xs of
        Some b \<Rightarrow> take_buf b (\<lambda>x. x\<lparr>refcnt := refcnt x + 1\<rparr>) s
      | None \<Rightarrow> (case List.find (\<lambda>i. refcnt (bufs s ! i) = 0) (rev xs) of
          Some b \<Rightarrow> take_buf b (\<lambda>x. x\<lparr>dev := d, blockno := n, valid := False, refcnt := 1\<rparr>) s
        | None \<Rightarrow> Panic ''bget: no buffers''))"
proof -
  have len: "length (bufs s) = Suc NBUF" "set xs = {..<NBUF}" using assms by (simp_all add: lru_def)
  have hit: "b < length (bufs s)" if "List.find P xs = Some b" for P b
    using that len by (metis find_Some_iff nth_mem lessThan_iff less_SucI)
  have miss: "b < length (bufs s)" if "List.find P (rev xs) = Some b" for P b
    using that len by (metis find_Some_iff nth_mem lessThan_iff less_SucI set_rev)
  show ?thesis
    unfolding bget_def
    by (auto simp: bfind_next [OF assms] bfind_prev [OF assms] block_acquire_app [OF hit] block_acquire_app [OF miss]
        split: option.split)
qed

lemma brelse_app:
  assumes "holdingsleep (me s) (block (bufs s ! b))" and "b < length (bufs s)"
  defines "x \<equiv> (bufs s ! b)\<lparr>block := releasesleep (block (bufs s ! b)), refcnt := refcnt (bufs s ! b) - 1\<rparr>"
  shows "brelse b s = Ret ((), s\<lparr>procs := wake (cur s) (Chan_buf_lock b) (procs s),
     bufs := (if refcnt x = 0 then link_front b (unlink_buf b ((bufs s)[b := x])) else (bufs s)[b := x])\<rparr>)"
  using assms
  by (simp add: brelse_def bholding_def myproc_def pget_def bfld_def bmod_def wakeup_def me_def)

section \<open>What the cache stands for\<close>

text \<open>
  One client, the current process, sees the cache as four things: the current contents \<open>cv\<close> of every
  block, the contents \<open>cd\<close> that are on disk, how many references each block has, and the blocks it
  has locked.
\<close>

record cachest =
  cv :: "u32 \<Rightarrow> u8 list"
  cd :: "u32 \<Rightarrow> u8 list"
  cpin :: "u32 \<Rightarrow> nat"
  clk :: "u32 set"

definition cached :: "'s kbio_scheme \<Rightarrow> u32 \<Rightarrow> nat \<Rightarrow> bool" where
  "cached s n b \<longleftrightarrow> b < NBUF \<and> dev (bufs s ! b) = ROOTDEV \<and> blockno (bufs s ! b) = n"

text \<open>The fields of one buffer agree with the abstract state; a buffer of no block is unused.\<close>

definition buf_ok :: "int \<Rightarrow> cachest \<Rightarrow> buf \<Rightarrow> bool" where
  "buf_ok p c x \<longleftrightarrow>
     (if dev x = ROOTDEV then
        (valid x \<longrightarrow> bdata x = cv c (blockno x)) \<and> unat (refcnt x) = cpin c (blockno x) \<and>
        (slocked (block x) \<longleftrightarrow> blockno x \<in> clk c) \<and> (slocked (block x) \<longrightarrow> slpid (block x) = p \<and> valid x)
      else refcnt x = 0 \<and> \<not> valid x \<and> \<not> slocked (block x))"

definition cache_abs :: "'s kbio_scheme \<Rightarrow> cachest \<Rightarrow> bool" where
  "cache_abs s c \<longleftrightarrow>
     (\<exists>xs. lru (bufs s) xs) \<and> disk s = cd c \<and>
     (\<forall>b < NBUF. buf_ok (me s) c (bufs s ! b)) \<and>
     (\<forall>n b b'. cached s n b \<longrightarrow> cached s n b' \<longrightarrow> b = b') \<and>
     (\<forall>n. (\<nexists>b. cached s n b \<and> valid (bufs s ! b)) \<longrightarrow> cv c n = cd c n) \<and>
     (\<forall>n. (\<nexists>b. cached s n b) \<longrightarrow> cpin c n = 0) \<and>
     (\<forall>n. cpin c n = 0 \<longrightarrow> cv c n = cd c n \<and> n \<notin> clk c)"

lemma cache_absD:
  assumes "cache_abs s c"
  shows "\<exists>xs. lru (bufs s) xs" and "disk s = cd c" and "b < NBUF \<Longrightarrow> buf_ok (me s) c (bufs s ! b)"
    and "cached s n b \<Longrightarrow> cached s n b' \<Longrightarrow> b = b'"
    and "(\<And>b. cached s n b \<Longrightarrow> \<not> valid (bufs s ! b)) \<Longrightarrow> cv c n = cd c n"
    and "0 < cpin c n \<Longrightarrow> \<exists>b. cached s n b"
    and "cpin c n = 0 \<Longrightarrow> cv c n = cd c n" and "n \<in> clk c \<Longrightarrow> 0 < cpin c n"
  using assms unfolding cache_abs_def by (blast, blast, blast, blast, blast, force, blast, blast)

text \<open>The abstraction only looks at the core of the buffers, so the list operations keep it.\<close>

lemma core_nth: "map bcore bs = map bcore cs \<Longrightarrow> i < length cs \<Longrightarrow> bcore (bs ! i) = bcore (cs ! i)"
  by (metis length_map nth_map)

lemma cache_abs_core:
  assumes "cache_abs s c" and "map bcore (bufs t) = map bcore (bufs s)" and "lru (bufs t) xs"
    and "disk t = disk s" and "me t = me s"
  shows "cache_abs t c"
proof -
  have "length (bufs s) = Suc NBUF" using assms(2,3) by (metis length_map lru_def)
  then have core: "bcore (bufs t ! b) = bcore (bufs s ! b)" if "b < NBUF" for b
    using core_nth [OF assms(2)] that by simp
  have 1: "cached t = cached s" by (intro ext) (use core in \<open>auto simp: cached_def bcore_eq\<close>)
  have 2: "buf_ok p c (bufs t ! b) = buf_ok p c (bufs s ! b)" if "b < NBUF" for p b
    using core [OF that] by (simp add: buf_ok_def bcore_eq)
  have 3: "cached s n b \<and> valid (bufs t ! b) \<longleftrightarrow> cached s n b \<and> valid (bufs s ! b)" for n b
    using core [of b] by (auto simp: cached_def bcore_eq)
  show ?thesis using assms(1,3) unfolding cache_abs_def 1 3 assms(4,5) by (auto simp: 2)
qed

text \<open>One buffer changes, and holds block \<open>n\<close> afterwards.\<close>

lemma cache_abs_update:
  assumes "cache_abs s c" and "b < NBUF" and "cached s n b \<or> (\<forall>i. \<not> cached s n i) \<and> refcnt (bufs s ! b) = 0"
    and "bnext x = bnext (bufs s ! b)" "bprev x = bprev (bufs s ! b)" "dev x = ROOTDEV" "blockno x = n" "valid x"
    and "buf_ok (me s) c' x" and "\<And>m. m \<noteq> n \<Longrightarrow> cv c' m = cv c m \<and> cd c' m = cd c m \<and> cpin c' m = cpin c m \<and> (m \<in> clk c' \<longleftrightarrow> m \<in> clk c)"
    and "cpin c' n = 0 \<Longrightarrow> cv c' n = cd c' n \<and> n \<notin> clk c'"
  shows "cache_abs (s\<lparr>bufs := (bufs s)[b := x], disk := cd c'\<rparr>) c'"
proof -
  let ?t = "s\<lparr>bufs := (bufs s)[b := x], disk := cd c'\<rparr>"
  obtain xs where l: "lru (bufs s) xs" using cache_absD(1) [OF assms(1)] by blast
  note ok = cache_absD(3) [OF assms(1)] and u = cache_absD(4) [OF assms(1)] and v = cache_absD(5) [OF assms(1)]
    and p = cache_absD(6) [OF assms(1)] and z = cache_absD(7) [OF assms(1)] and k = cache_absD(8) [OF assms(1)]
  have len: "length (bufs s) = Suc NBUF" using l by (simp add: lru_def)
  have nth: "bufs ?t ! i = (if i = b then x else bufs s ! i)" if "i < NBUF" for i
    using that len assms(2) by (simp add: nth_list_update)
  have c: "cached ?t m i \<longleftrightarrow> (if i = b then m = n else cached s m i)" for m i
    unfolding cached_def using nth [of i] assms(2,6,7) by auto
  have other: "i = b \<or> blockno (bufs s ! i) \<noteq> n" if "i < NBUF" "dev (bufs s ! i) = ROOTDEV" for i
    using assms(3) u [of n i b] that by (auto simp: cached_def)
  have ok': "buf_ok (me ?t) c' (bufs ?t ! i)" if "i < NBUF" for i
    using ok [OF that] assms(9,10) other [OF that] unfolding nth [OF that] by (auto simp: buf_ok_def me_def)
  have u': "i = j" if "cached ?t m i" "cached ?t m j" for m i j
    using that u assms(3) unfolding c by (metis cached_def)
  have zero: "cpin c m = 0" if "cached s m b" "m \<noteq> n" for m
    using that assms(2,3) ok [OF assms(2)] by (auto simp: cached_def buf_ok_def)
  have v': "cv c' m = cd c' m" if "\<nexists>i. cached ?t m i \<and> valid (bufs ?t ! i)" for m
  proof -
    have "\<not> (cached ?t m b \<and> valid (bufs ?t ! b))" using that by blast
    then have False: "m \<noteq> n" using c nth [OF assms(2)] assms(8) by auto
    have "cv c m = cd c m"
    proof (cases "cached s m b")
      case True then show ?thesis using zero z False by blast
    next
      case nb: False
      show ?thesis
      proof (rule v)
        fix i assume i: "cached s m i"
        then have "i \<noteq> b" "i < NBUF" using nb by (auto simp: cached_def)
        then have "cached ?t m i" "bufs ?t ! i = bufs s ! i" using i c nth [of i] by simp_all
        then show "\<not> valid (bufs s ! i)" using that by metis
      qed
    qed
    then show ?thesis using assms(10) False by simp
  qed
  have p': "cpin c' m = 0" if "\<nexists>i. cached ?t m i" for m
  proof -
    have "\<not> cached ?t m b" using that by blast
    then have "m \<noteq> n" by (simp add: c)
    moreover have "cpin c m = 0"
    proof (rule ccontr)
      assume "cpin c m \<noteq> 0"
      then obtain i where i: "cached s m i" using p by blast
      then have "i = b" using that c by metis
      then show False using zero [of m] i \<open>m \<noteq> n\<close> \<open>cpin c m \<noteq> 0\<close> by simp
    qed
    ultimately show ?thesis using assms(10) by simp
  qed
  have z': "cv c' m = cd c' m \<and> m \<notin> clk c'" if "cpin c' m = 0" for m
    using that assms(10) [of m] assms(11) z [of m] k [of m] by (cases "m = n") auto
  have l': "lru (bufs ?t) xs" using lru_update [OF l assms(4,5)] by simp
  have d': "disk ?t = cd c'" by simp
  show ?thesis unfolding cache_abs_def using l' d' ok' u' v' p' z' by blast
qed

section \<open>The operations on the abstract state\<close>

text \<open>Everything outside the cache, the disk and the sleeping processes stays.\<close>

definition bio_frame :: "'s kbio_scheme \<Rightarrow> 's kbio_scheme \<Rightarrow> bool" where
  "bio_frame s s' \<longleftrightarrow> (\<exists>bs d ps. s' = s\<lparr>bufs := bs, disk := d, procs := ps\<rparr>)"

lemma bio_frame_refl: "bio_frame s s"
  unfolding bio_frame_def by (rule exI [of _ "bufs s"], rule exI [of _ "disk s"], rule exI [of _ "procs s"]) simp

lemma bio_frame_trans: "bio_frame s t \<Longrightarrow> bio_frame t u \<Longrightarrow> bio_frame s u"
  unfolding bio_frame_def by force

lemma bio_frame_upd: "bio_frame s (s\<lparr>bufs := bs\<rparr>)" "bio_frame s (s\<lparr>bufs := bs, disk := d\<rparr>)"
  "bio_frame s (s\<lparr>procs := ps, bufs := bs\<rparr>)"
proof -
  show "bio_frame s (s\<lparr>bufs := bs\<rparr>)"
    unfolding bio_frame_def by (rule exI [of _ bs], rule exI [of _ "disk s"], rule exI [of _ "procs s"]) simp
  show "bio_frame s (s\<lparr>bufs := bs, disk := d\<rparr>)"
    unfolding bio_frame_def by (rule exI [of _ bs], rule exI [of _ d], rule exI [of _ "procs s"]) simp
  show "bio_frame s (s\<lparr>procs := ps, bufs := bs\<rparr>)"
    unfolding bio_frame_def by (rule exI [of _ bs], rule exI [of _ "disk s"], rule exI [of _ ps]) simp
qed

text \<open>The number of referenced buffers is the number of referenced blocks.\<close>

lemma free_buffer:
  assumes "cache_abs s c" and "card {m. 0 < cpin c m} < NBUF"
  shows "\<exists>b < NBUF. refcnt (bufs s ! b) = 0"
proof (rule ccontr)
  assume "\<not> ?thesis"
  then have r: "refcnt (bufs s ! b) \<noteq> 0" if "b < NBUF" for b using that by blast
  have d: "cached s (blockno (bufs s ! b)) b \<and> 0 < cpin c (blockno (bufs s ! b))" if "b < NBUF" for b
  proof -
    have "0 < unat (refcnt (bufs s ! b))" using r [OF that] by (simp add: unat_gt_0)
    then show ?thesis using cache_absD(3) [OF assms(1) that] r [OF that] that
      by (auto simp: buf_ok_def cached_def split: if_splits)
  qed
  have "inj_on (\<lambda>b. blockno (bufs s ! b)) {..<NBUF}"
    using cache_absD(4) [OF assms(1)] d by (intro inj_onI) (metis lessThan_iff)
  moreover have "(\<lambda>b. blockno (bufs s ! b)) ` {..<NBUF} \<subseteq> {m. 0 < cpin c m}" using d by auto
  ultimately have "NBUF \<le> card {m. 0 < cpin c m}"
    using card_inj_on_le [of "\<lambda>b. blockno (bufs s ! b)" "{..<NBUF}" "{m. 0 < cpin c m}"] by simp
  then show False using assms(2) by simp
qed

text \<open>\<open>bget\<close> gives the buffer that has the block, or an unreferenced one.\<close>

lemma bget_abs:
  assumes "cache_abs s c" and "n \<notin> clk c" and "0 < cpin c n \<or> card {m. 0 < cpin c m} < NBUF"
  shows "\<exists>b f. b < NBUF \<and> bget ROOTDEV n s = take_buf b f s \<and> \<not> slocked (block (bufs s ! b)) \<and>
    (cached s n b \<and> f = (\<lambda>x. x\<lparr>refcnt := refcnt x + 1\<rparr>) \<or>
     (\<forall>i. \<not> cached s n i) \<and> refcnt (bufs s ! b) = 0 \<and> f = (\<lambda>x. x\<lparr>dev := ROOTDEV, blockno := n, valid := False, refcnt := 1\<rparr>))"
proof -
  obtain xs where l: "lru (bufs s) xs" using cache_absD(1) [OF assms(1)] by blast
  then have xs: "set xs = {..<NBUF}" by (simp add: lru_def)
  show ?thesis
  proof (cases "List.find (\<lambda>i. dev (bufs s ! i) = ROOTDEV \<and> blockno (bufs s ! i) = n) xs")
    case (Some b)
    then have b: "cached s n b" using xs unfolding find_Some_iff cached_def by (metis lessThan_iff nth_mem)
    then have "\<not> slocked (block (bufs s ! b))"
      using cache_absD(3) [OF assms(1), of b] assms(2) by (auto simp: cached_def buf_ok_def)
    then show ?thesis using bget_lru [OF l, of ROOTDEV n] Some b by (auto simp: cached_def)
  next
    case None
    then have nc: "\<not> cached s n i" for i using xs by (auto simp: find_None_iff cached_def)
    then have "\<not> 0 < cpin c n" using cache_absD(6) [OF assms(1)] by blast
    then obtain i where i: "i < NBUF" "refcnt (bufs s ! i) = 0" using assms(3) free_buffer [OF assms(1)] by metis
    then obtain b where f: "List.find (\<lambda>i. refcnt (bufs s ! i) = 0) (rev xs) = Some b"
      using xs by (cases "List.find (\<lambda>i. refcnt (bufs s ! i) = 0) (rev xs)") (auto simp: find_None_iff)
    then have b: "b < NBUF" "refcnt (bufs s ! b) = 0"
      using xs unfolding find_Some_iff by (metis lessThan_iff nth_mem set_rev, metis)
    then have "\<not> slocked (block (bufs s ! b))"
      using cache_absD(3) [OF assms(1) b(1)] cache_absD(8) [OF assms(1)]
      by (auto simp: buf_ok_def split: if_splits) (metis less_irrefl)
    then show ?thesis using bget_lru [OF l, of ROOTDEV n] None f b nc by auto
  qed
qed

lemma same_disk: "disk s = d \<Longrightarrow> s\<lparr>bufs := bs, disk := d\<rparr> = s\<lparr>bufs := bs\<rparr>"
  by auto

text \<open>\<open>bread\<close> fills in the contents that are missing.\<close>

lemma bread_take:
  assumes "bget ROOTDEV n s = take_buf b f s" and "\<not> slocked (block (bufs s ! b))" and "b < length (bufs s)"
    and "cached s n b \<and> f = (\<lambda>x. x\<lparr>refcnt := refcnt x + 1\<rparr>) \<or>
     (\<forall>i. \<not> cached s n i) \<and> refcnt (bufs s ! b) = 0 \<and> f = (\<lambda>x. x\<lparr>dev := ROOTDEV, blockno := n, valid := False, refcnt := 1\<rparr>)"
  defines "hit \<equiv> cached s n b"
  shows "bread ROOTDEV n s = Ret (b, s\<lparr>bufs := (bufs s)[b := (bufs s ! b)\<lparr>dev := ROOTDEV, blockno := n, valid := True,
      refcnt := (if hit then refcnt (bufs s ! b) + 1 else 1), block := (block (bufs s ! b))\<lparr>slocked := True, slpid := me s\<rparr>,
      bdata := (if hit \<and> valid (bufs s ! b) then bdata (bufs s ! b) else disk s n)\<rparr>]\<rparr>)"
proof (cases hit)
  case True
  then have "dev (bufs s ! b) = ROOTDEV" "blockno (bufs s ! b) = n" "f = (\<lambda>x. x\<lparr>refcnt := refcnt x + 1\<rparr>)"
    using assms(4) by (auto simp: hit_def cached_def)
  note h = this
  let ?x = "bufs s ! b" and ?k = "(block (bufs s ! b))\<lparr>slocked := True, slpid := me s\<rparr>"
  have e: "(if valid ?x then ?x\<lparr>refcnt := refcnt ?x + 1, block := ?k\<rparr>
       else ?x\<lparr>refcnt := refcnt ?x + 1, block := ?k, bdata := disk s n, valid := True\<rparr>) =
      ?x\<lparr>dev := ROOTDEV, blockno := n, valid := True, refcnt := (if hit then refcnt ?x + 1 else 1), block := ?k,
        bdata := (if hit \<and> valid ?x then bdata ?x else disk s n)\<rparr>"
    using h True by (intro buf.equality) simp_all
  show ?thesis
    unfolding e [symmetric] using assms(1-3) h
    by (simp add: bread_def take_buf_def bfld_def bmod_def disk_transfer_def Let_def)
next
  case False
  then have "f = (\<lambda>x. x\<lparr>dev := ROOTDEV, blockno := n, valid := False, refcnt := 1\<rparr>)" using assms(4) by (auto simp: hit_def)
  note h = this
  let ?x = "bufs s ! b" and ?k = "(block (bufs s ! b))\<lparr>slocked := True, slpid := me s\<rparr>"
  have e: "?x\<lparr>dev := ROOTDEV, blockno := n, refcnt := 1, block := ?k, bdata := disk s n, valid := True\<rparr> =
      ?x\<lparr>dev := ROOTDEV, blockno := n, valid := True, refcnt := (if hit then refcnt ?x + 1 else 1), block := ?k,
        bdata := (if hit \<and> valid ?x then bdata ?x else disk s n)\<rparr>"
    using False by (intro buf.equality) simp_all
  show ?thesis unfolding e [symmetric] using assms(1-3) h
    by (simp add: bread_def take_buf_def bfld_def bmod_def disk_transfer_def Let_def)
qed

lemma bread_abs:
  assumes "cache_abs s c" and "n \<notin> clk c" and "0 < cpin c n \<or> card {m. 0 < cpin c m} < NBUF"
    and "Suc (cpin c n) < 2 ^ 32"
  shows "\<exists>b s'. bread ROOTDEV n s = Ret (b, s') \<and>
    cache_abs s' (c\<lparr>cpin := (cpin c)(n := Suc (cpin c n)), clk := insert n (clk c)\<rparr>) \<and>
    cached s' n b \<and> bio_frame s s' \<and> (\<forall>m i. 0 < cpin c m \<longrightarrow> cached s m i \<longrightarrow> cached s' m i)"
proof -
  obtain b f where b: "b < NBUF" and g: "bget ROOTDEV n s = take_buf b f s" and lk: "\<not> slocked (block (bufs s ! b))"
    and f: "cached s n b \<and> f = (\<lambda>x. x\<lparr>refcnt := refcnt x + 1\<rparr>) \<or>
     (\<forall>i. \<not> cached s n i) \<and> refcnt (bufs s ! b) = 0 \<and> f = (\<lambda>x. x\<lparr>dev := ROOTDEV, blockno := n, valid := False, refcnt := 1\<rparr>)"
    using bget_abs [OF assms(1-3)] by blast
  let ?c = "c\<lparr>cpin := (cpin c)(n := Suc (cpin c n)), clk := insert n (clk c)\<rparr>"
  let ?x = "(bufs s ! b)\<lparr>dev := ROOTDEV, blockno := n, valid := True, refcnt := of_nat (Suc (cpin c n)),
      block := (block (bufs s ! b))\<lparr>slocked := True, slpid := me s\<rparr>, bdata := cv c n\<rparr>"
  let ?s' = "s\<lparr>bufs := (bufs s)[b := ?x]\<rparr>"
  have len: "length (bufs s) = Suc NBUF" using cache_absD(1) [OF assms(1)] by (auto simp: lru_def)
  note ok = cache_absD(3) [OF assms(1) b] and d = cache_absD(2) [OF assms(1)]
  have r: "(if cached s n b then refcnt (bufs s ! b) + 1 else 1) = of_nat (Suc (cpin c n))"
  proof (cases "cached s n b")
    case True
    then have "unat (refcnt (bufs s ! b)) = cpin c n" using ok by (simp add: buf_ok_def cached_def)
    then have "refcnt (bufs s ! b) = of_nat (cpin c n)" by (metis of_nat_unat ucast_id)
    then show ?thesis using True by simp
  next
    case False
    then have "cpin c n = 0" using f cache_absD(6) [OF assms(1), of n] by blast
    then show ?thesis using False by simp
  qed
  have v: "(if cached s n b \<and> valid (bufs s ! b) then bdata (bufs s ! b) else disk s n) = cv c n"
  proof (cases "cached s n b \<and> valid (bufs s ! b)")
    case True
    then show ?thesis using ok by (simp add: buf_ok_def cached_def)
  next
    case False
    then have "\<not> valid (bufs s ! i)" if "cached s n i" for i
      using that f cache_absD(4) [OF assms(1), of n b i] by blast
    then have "cv c n = cd c n" using cache_absD(5) [OF assms(1), of n] by blast
    then show ?thesis using False d by (simp only: if_False)
  qed
  have "b < length (bufs s)" using b len by simp
  from bread_take [OF g lk this f] have run: "bread ROOTDEV n s = Ret (b, ?s')" unfolding r v .
  have "unat (of_nat (Suc (cpin c n)) :: u32) = Suc (cpin c n)" using assms(4) by (simp only: unat_of_nat take_bit_nat_eq_self) simp
  then have "cache_abs (s\<lparr>bufs := (bufs s)[b := ?x], disk := cd ?c\<rparr>) ?c"
    using f b by (intro cache_abs_update [OF assms(1), of b n]) (auto simp: buf_ok_def)
  moreover have "disk s = cd ?c" using d by simp
  ultimately have "cache_abs ?s' ?c" by (simp only: same_disk)
  moreover have "cached ?s' n b" using b len by (simp add: cached_def)
  moreover have "cached ?s' m i" if "0 < cpin c m" "cached s m i" for m i
    using that f ok b len by (cases "i = b") (auto simp: cached_def buf_ok_def)
  ultimately show ?thesis using run bio_frame_upd(1) by blast
qed

text \<open>A buffer whose block the current process has locked.\<close>

lemma locked_buf:
  assumes "cache_abs s c" and "cached s n b" and "n \<in> clk c"
  shows "b < NBUF" and "dev (bufs s ! b) = ROOTDEV" and "blockno (bufs s ! b) = n" and "valid (bufs s ! b)"
    and "bdata (bufs s ! b) = cv c n" and "unat (refcnt (bufs s ! b)) = cpin c n"
    and "holdingsleep (me s) (block (bufs s ! b))"
  using assms cache_absD(3) [OF assms(1), of b] by (auto simp: cached_def buf_ok_def holdingsleep_def)

text \<open>Such a buffer changes in place.\<close>

lemma locked_update:
  assumes "cache_abs s c" and "cached s n b" and "n \<in> clk c"
    and "bnext x = bnext (bufs s ! b)" "bprev x = bprev (bufs s ! b)" "dev x = ROOTDEV" "blockno x = n" "valid x"
    and "buf_ok (me s) c' x" and "\<And>m. m \<noteq> n \<Longrightarrow> cv c' m = cv c m \<and> cpin c' m = cpin c m \<and> (m \<in> clk c' \<longleftrightarrow> m \<in> clk c)"
    and "cpin c' n = 0 \<Longrightarrow> cv c' n = cd c' n \<and> n \<notin> clk c'" and "cd c' = cd c"
  shows "cache_abs (s\<lparr>bufs := (bufs s)[b := x]\<rparr>) c'"
proof -
  have b: "b < NBUF" using locked_buf [OF assms(1-3)] by simp
  have d: "disk s = cd c'" using cache_absD(2) [OF assms(1)] assms(12) by simp
  have "cache_abs (s\<lparr>bufs := (bufs s)[b := x], disk := cd c'\<rparr>) c'"
    using assms b by (intro cache_abs_update [OF assms(1) b, of n]) auto
  then show ?thesis unfolding same_disk [OF d] .
qed

lemma cached_update:
  assumes "cached s n b" and "dev x = ROOTDEV" and "blockno x = n" and "cached s m i"
  shows "cached (s\<lparr>bufs := (bufs s)[b := x]\<rparr>) m i"
  using assms by (cases "i = b"; cases "b < length (bufs s)") (auto simp: cached_def nth_list_update list_update_beyond)

lemma bupd_abs:
  assumes "cache_abs s c" and "cached s n b" and "n \<in> clk c"
  shows "\<exists>s'. bupd b f s = Ret ((), s') \<and> cache_abs s' (c\<lparr>cv := (cv c)(n := f (cv c n))\<rparr>) \<and>
    bio_frame s s' \<and> (\<forall>m i. cached s m i \<longrightarrow> cached s' m i)"
proof -
  let ?x = "(bufs s ! b)\<lparr>bdata := f (bdata (bufs s ! b))\<rparr>"
  note l = locked_buf [OF assms]
  have "buf_ok (me s) (c\<lparr>cv := (cv c)(n := f (cv c n))\<rparr>) ?x"
    using cache_absD(3) [OF assms(1) l(1)] l by (simp add: buf_ok_def)
  then have "cache_abs (s\<lparr>bufs := (bufs s)[b := ?x]\<rparr>) (c\<lparr>cv := (cv c)(n := f (cv c n))\<rparr>)"
    using l cache_absD(8) [OF assms(1,3)] by (intro locked_update [OF assms]) simp_all
  moreover have "\<And>m i. cached s m i \<Longrightarrow> cached (s\<lparr>bufs := (bufs s)[b := ?x]\<rparr>) m i"
    using l by (intro cached_update [OF assms(2)]) simp_all
  ultimately show ?thesis using bio_frame_upd(1) by (auto simp: bupd_def bmod_def)
qed

lemma bunpin_abs:
  assumes "cache_abs s c" and "cached s n b" and "n \<in> clk c" and "1 < cpin c n"
  shows "\<exists>s'. bunpin b s = Ret ((), s') \<and> cache_abs s' (c\<lparr>cpin := (cpin c)(n := cpin c n - 1)\<rparr>) \<and>
    bio_frame s s' \<and> (\<forall>m i. cached s m i \<longrightarrow> cached s' m i)"
proof -
  let ?x = "(bufs s ! b)\<lparr>refcnt := refcnt (bufs s ! b) - 1\<rparr>"
  note l = locked_buf [OF assms(1-3)]
  have "refcnt (bufs s ! b) \<noteq> 0" using l(6) assms(4) by auto
  then have "unat (refcnt (bufs s ! b) - 1) = cpin c n - 1" using l(6) by (simp add: unat_minus_one)
  then have "buf_ok (me s) (c\<lparr>cpin := (cpin c)(n := cpin c n - 1)\<rparr>) ?x"
    using cache_absD(3) [OF assms(1) l(1)] l by (simp add: buf_ok_def)
  then have "cache_abs (s\<lparr>bufs := (bufs s)[b := ?x]\<rparr>) (c\<lparr>cpin := (cpin c)(n := cpin c n - 1)\<rparr>)"
    using l assms(4) by (intro locked_update [OF assms(1-3)]) simp_all
  moreover have "\<And>m i. cached s m i \<Longrightarrow> cached (s\<lparr>bufs := (bufs s)[b := ?x]\<rparr>) m i"
    using l by (intro cached_update [OF assms(2)]) simp_all
  ultimately show ?thesis using bio_frame_upd(1) by (auto simp: bunpin_def bmod_def)
qed

lemma bpin_abs:
  assumes "cache_abs s c" and "cached s n b" and "n \<in> clk c" and "Suc (cpin c n) < 2 ^ 32"
  shows "\<exists>s'. bpin b s = Ret ((), s') \<and> cache_abs s' (c\<lparr>cpin := (cpin c)(n := Suc (cpin c n))\<rparr>) \<and>
    bio_frame s s' \<and> (\<forall>m i. cached s m i \<longrightarrow> cached s' m i)"
proof -
  let ?x = "(bufs s ! b)\<lparr>refcnt := refcnt (bufs s ! b) + 1\<rparr>"
  note l = locked_buf [OF assms(1-3)]
  have "unat (refcnt (bufs s ! b) + 1) = Suc (cpin c n)" using l(6) assms(4) by (simp add: unat_word_ariths)
  then have "buf_ok (me s) (c\<lparr>cpin := (cpin c)(n := Suc (cpin c n))\<rparr>) ?x"
    using cache_absD(3) [OF assms(1) l(1)] l by (simp add: buf_ok_def)
  then have "cache_abs (s\<lparr>bufs := (bufs s)[b := ?x]\<rparr>) (c\<lparr>cpin := (cpin c)(n := Suc (cpin c n))\<rparr>)"
    using l assms(4) by (intro locked_update [OF assms(1-3)]) simp_all
  moreover have "\<And>m i. cached s m i \<Longrightarrow> cached (s\<lparr>bufs := (bufs s)[b := ?x]\<rparr>) m i"
    using l by (intro cached_update [OF assms(2)]) simp_all
  ultimately show ?thesis using bio_frame_upd(1) by (auto simp: bpin_def bmod_def)
qed

lemma bwrite_abs:
  assumes "cache_abs s c" and "cached s n b" and "n \<in> clk c"
  shows "\<exists>s'. bwrite b s = Ret ((), s') \<and> cache_abs s' (c\<lparr>cd := (cd c)(n := cv c n)\<rparr>) \<and>
    bio_frame s s' \<and> (\<forall>m i. cached s m i \<longrightarrow> cached s' m i)"
proof -
  let ?c = "c\<lparr>cd := (cd c)(n := cv c n)\<rparr>"
  note l = locked_buf [OF assms]
  have run: "bwrite b s = Ret ((), s\<lparr>disk := cd ?c\<rparr>)"
    using l cache_absD(2) [OF assms(1)]
    by (simp add: bwrite_def bholding_def myproc_def pget_def bfld_def disk_transfer_def me_def)
  have "cache_abs (s\<lparr>bufs := (bufs s)[b := bufs s ! b], disk := cd ?c\<rparr>) ?c"
    using l assms(2) cache_absD(3) [OF assms(1) l(1)] cache_absD(8) [OF assms(1,3)]
    by (intro cache_abs_update [OF assms(1) l(1), of n]) (auto simp: buf_ok_def)
  then have "cache_abs (s\<lparr>disk := cd ?c\<rparr>) ?c" by simp
  moreover have "bio_frame s (s\<lparr>disk := cd ?c\<rparr>)" using bio_frame_upd(2) [where s = s and bs = "bufs s" and d = "cd ?c"] by simp
  moreover have "cached (s\<lparr>disk := cd ?c\<rparr>) m i = cached s m i" for m i by (simp add: cached_def)
  ultimately show ?thesis using run by blast
qed

lemma nth_beyond: "length xs \<le> i \<Longrightarrow> xs ! i = [] ! (i - length xs)"
  by (induction xs arbitrary: i) (auto simp: nth_Cons split: nat.split)

lemma pid_wake [simp]: "pid (wake p ch ps ! i) = pid (ps ! i)"
proof (cases "i < length ps")
  case True
  then show ?thesis by (simp add: wake_def nth_enumerate_eq)
next
  case False
  then have "wake p ch ps ! i = ps ! i" using nth_beyond [of ps i] nth_beyond [of "wake p ch ps" i] by (simp add: wake_def)
  then show ?thesis by simp
qed

lemma brelse_abs:
  assumes "cache_abs s c" and "cached s n b" and "n \<in> clk c" and "cpin c n = 1 \<Longrightarrow> cv c n = cd c n"
  shows "\<exists>s'. brelse b s = Ret ((), s') \<and>
    cache_abs s' (c\<lparr>cpin := (cpin c)(n := cpin c n - 1), clk := clk c - {n}\<rparr>) \<and>
    bio_frame s s' \<and> (\<forall>m i. cached s m i \<longrightarrow> cached s' m i)"
proof -
  let ?c = "c\<lparr>cpin := (cpin c)(n := cpin c n - 1), clk := clk c - {n}\<rparr>"
  let ?x = "(bufs s ! b)\<lparr>block := releasesleep (block (bufs s ! b)), refcnt := refcnt (bufs s ! b) - 1\<rparr>"
  let ?bs = "if refcnt ?x = 0 then link_front b (unlink_buf b ((bufs s)[b := ?x])) else (bufs s)[b := ?x]"
  let ?t = "s\<lparr>bufs := (bufs s)[b := ?x]\<rparr>"
  let ?s' = "s\<lparr>procs := wake (cur s) (Chan_buf_lock b) (procs s), bufs := ?bs\<rparr>"
  note l = locked_buf [OF assms(1-3)]
  have p: "0 < cpin c n" using cache_absD(8) [OF assms(1,3)] .
  obtain xs where xs: "lru (bufs s) xs" using cache_absD(1) [OF assms(1)] by blast
  then have len: "length (bufs s) = Suc NBUF" by (simp add: lru_def)
  have run: "brelse b s = Ret ((), ?s')"
    using brelse_app [OF l(7)] l(1) len by simp
  have "refcnt (bufs s ! b) \<noteq> 0" using l(6) p by auto
  then have "unat (refcnt (bufs s ! b) - 1) = cpin c n - 1" using l(6) by (simp add: unat_minus_one)
  then have "buf_ok (me s) ?c ?x"
    using cache_absD(3) [OF assms(1) l(1)] l by (simp add: buf_ok_def releasesleep_def)
  then have t: "cache_abs ?t ?c" using l assms(4) p by (intro locked_update [OF assms(1-3)]) auto
  have t': "\<And>m i. cached s m i \<Longrightarrow> cached ?t m i" using l by (intro cached_update [OF assms(2)]) simp_all
  have core: "map bcore (bufs ?s') = map bcore (bufs ?t)" by simp
  have "lru (bufs ?t) xs" using lru_update [OF xs] by simp
  then have "\<exists>ys. lru (bufs ?s') ys"
    using lru_move_front [OF _ l(1), of "(bufs s)[b := ?x]" xs] by (cases "refcnt ?x = 0") auto
  moreover have "me ?s' = me ?t" by (simp add: me_def)
  ultimately have "cache_abs ?s' ?c" using cache_abs_core [OF t core] by auto
  moreover have "cached ?s' m i" if "cached s m i" for m i
    using t' [OF that] core_nth [OF core, of i] len by (auto simp: cached_def bcore_eq)
  ultimately show ?thesis using run bio_frame_upd(3) by blast
qed

section \<open>The interface the log relies on\<close>

abbreviation cst :: "(u32 \<Rightarrow> u8 list) \<Rightarrow> (u32 \<Rightarrow> u8 list) \<Rightarrow> (u32 \<Rightarrow> nat) \<Rightarrow> u32 set \<Rightarrow> cachest" where
  "cst V D P K \<equiv> \<lparr>cv = V, cd = D, cpin = P, clk = K\<rparr>"

locale block_cache =
  fixes abs :: "'s \<Rightarrow> cachest \<Rightarrow> bool" and at :: "'s \<Rightarrow> u32 \<Rightarrow> nat \<Rightarrow> bool" and data :: "nat \<Rightarrow> 's \<Rightarrow> u8 list"
    and frame :: "'s \<Rightarrow> 's \<Rightarrow> bool" and rd :: "u32 \<Rightarrow> ('s, nat) kop"
    and upd :: "nat \<Rightarrow> (u8 list \<Rightarrow> u8 list) \<Rightarrow> ('s, unit) kop" and wr :: "nat \<Rightarrow> ('s, unit) kop"
    and unpin :: "nat \<Rightarrow> ('s, unit) kop" and rls :: "nat \<Rightarrow> ('s, unit) kop"
  assumes frame_refl: "frame s s"
    and frame_trans: "frame s t \<Longrightarrow> frame t u \<Longrightarrow> frame s u"
    and clean: "abs s (cst V D P K) \<Longrightarrow> P n = 0 \<Longrightarrow> V n = D n"
    and data: "abs s (cst V D P K) \<Longrightarrow> at s n b \<Longrightarrow> n \<in> K \<Longrightarrow> data b s = V n"
    and rd: "abs s (cst V D P K) \<Longrightarrow> n \<notin> K \<Longrightarrow> 0 < P n \<or> card {m. 0 < P m} < NBUF \<Longrightarrow> Suc (P n) < 2 ^ 32 \<Longrightarrow>
      \<exists>b s'. rd n s = Ret (b, s') \<and> abs s' (cst V D (P(n := Suc (P n))) (insert n K)) \<and>
        at s' n b \<and> frame s s' \<and> (\<forall>m i. 0 < P m \<longrightarrow> at s m i \<longrightarrow> at s' m i)"
    and upd: "abs s (cst V D P K) \<Longrightarrow> at s n b \<Longrightarrow> n \<in> K \<Longrightarrow>
      \<exists>s'. upd b f s = Ret ((), s') \<and> abs s' (cst (V(n := f (V n))) D P K) \<and>
        frame s s' \<and> (\<forall>m i. at s m i \<longrightarrow> at s' m i)"
    and wr: "abs s (cst V D P K) \<Longrightarrow> at s n b \<Longrightarrow> n \<in> K \<Longrightarrow>
      \<exists>s'. wr b s = Ret ((), s') \<and> abs s' (cst V (D(n := V n)) P K) \<and>
        frame s s' \<and> (\<forall>m i. at s m i \<longrightarrow> at s' m i)"
    and unpin: "abs s (cst V D P K) \<Longrightarrow> at s n b \<Longrightarrow> n \<in> K \<Longrightarrow> 1 < P n \<Longrightarrow>
      \<exists>s'. unpin b s = Ret ((), s') \<and> abs s' (cst V D (P(n := P n - 1)) K) \<and>
        frame s s' \<and> (\<forall>m i. at s m i \<longrightarrow> at s' m i)"
    and rls: "abs s (cst V D P K) \<Longrightarrow> at s n b \<Longrightarrow> n \<in> K \<Longrightarrow> (P n = 1 \<Longrightarrow> V n = D n) \<Longrightarrow>
      \<exists>s'. rls b s = Ret ((), s') \<and> abs s' (cst V D (P(n := P n - 1)) (K - {n})) \<and>
        frame s s' \<and> (\<forall>m i. at s m i \<longrightarrow> at s' m i)"
begin

text \<open>Read a block and change it on disk.\<close>

lemma rewrite_block:
  assumes "abs s (cst V D P {})" and "card {m. 0 < P m} < NBUF" and "P n = 0"
  shows "\<exists>s'. kbind (rd n) (\<lambda>b. kseq (upd b f) (kseq (wr b) (rls b))) s = Ret ((), s') \<and>
     abs s' (cst (V(n := f (V n))) (D(n := f (V n))) P {}) \<and> frame s s'"
proof -
  obtain b s1 where 1: "rd n s = Ret (b, s1)" "abs s1 (cst V D (P(n := 1)) {n})" "at s1 n b" "frame s s1"
    using rd [OF assms(1), of n] assms(2,3) by auto
  obtain s2 where 2: "upd b f s1 = Ret ((), s2)" "abs s2 (cst (V(n := f (V n))) D (P(n := 1)) {n})" "at s2 n b" "frame s1 s2"
    using upd [OF 1(2,3), of f] 1(3) by auto
  obtain s3 where 3: "wr b s2 = Ret ((), s3)" "abs s3 (cst (V(n := f (V n))) (D(n := f (V n))) (P(n := 1)) {n})" "at s3 n b"
      "frame s2 s3"
    using wr [OF 2(2,3)] 2(3) by auto
  obtain s4 where 4: "rls b s3 = Ret ((), s4)" "abs s4 (cst (V(n := f (V n))) (D(n := f (V n))) P {})" "frame s3 s4"
    using rls [OF 3(2,3)] assms(3) by (auto simp: fun_upd_idem)
  have "frame s s4" using 1(4) 2(4) 3(4) 4(3) frame_trans by blast
  then show ?thesis using 1(1) 2(1) 3(1) 4 by simp
qed

end

interpretation bc: block_cache cache_abs cached "\<lambda>b s. bdata (bufs s ! b)" bio_frame "bread ROOTDEV" bupd bwrite bunpin brelse
proof (unfold_locales, goal_cases)
  case 1 show ?case by (rule bio_frame_refl)
next
  case 2 then show ?case by (rule bio_frame_trans)
next
  case 3 then show ?case by (metis cache_absD(7) cachest.select_convs(1-3))
next
  case 4 then show ?case by (metis locked_buf(5) cachest.select_convs(1,4))
next
  case (5 s V D P K n) then show ?case using bread_abs [of s "cst V D P K" n] by simp
next
  case (6 s V D P K n b f) then show ?case using bupd_abs [of s "cst V D P K" n b f] by simp
next
  case (7 s V D P K n b) then show ?case using bwrite_abs [of s "cst V D P K" n b] by simp
next
  case (8 s V D P K n b) then show ?case using bunpin_abs [of s "cst V D P K" n b] by simp
next
  case (9 s V D P K n b) then show ?case using brelse_abs [of s "cst V D P K" n b] by simp
qed

section \<open>Starting up\<close>

text \<open>The buffers of a machine that has just started are zero.\<close>

definition zero_bufs :: "'s kbio_scheme \<Rightarrow> bool" where
  "zero_bufs s \<longleftrightarrow> length (bufs s) = Suc NBUF \<and>
     (\<forall>b < NBUF. dev (bufs s ! b) = 0 \<and> \<not> valid (bufs s ! b) \<and> refcnt (bufs s ! b) = 0)"

lemma bcore_lock: "bcore (x\<lparr>block := k\<rparr>) = (bcore x)\<lparr>block := k\<rparr>"
  by (simp add: bcore_def)

lemma binit_cores:
  assumes "n \<le> NBUF" and "length bs = Suc NBUF"
  defines "f \<equiv> \<lambda>b bs. (link_front b bs)[b := (link_front b bs ! b)\<lparr>block := initsleeplock ''buffer''\<rparr>]"
  shows "length (fold f [0..<n] bs) = Suc NBUF \<and>
    (\<forall>i \<le> NBUF. bcore (fold f [0..<n] bs ! i) = (if i < n then (bcore (bs ! i))\<lparr>block := initsleeplock ''buffer''\<rparr> else bcore (bs ! i)))"
  using assms(1)
proof (induction n)
  case (Suc n)
  let ?bs = "fold f [0..<n] bs"
  have len: "length ?bs = Suc NBUF" using Suc by simp
  have core: "bcore (link_front n ?bs ! i) = bcore (?bs ! i)" if "i \<le> NBUF" for i
    using core_nth [OF core_link, of i ?bs n] that len by simp
  have "bcore (f n ?bs ! i) = (if i = n then (bcore (?bs ! i))\<lparr>block := initsleeplock ''buffer''\<rparr> else bcore (?bs ! i))" if "i \<le> NBUF" for i
    using core [OF that] that Suc.prems len by (cases "i = n") (simp_all add: f_def nth_list_update bcore_lock)
  then show ?case using Suc len by (auto simp: f_def less_Suc_eq)
qed (use assms in simp)

lemma binit_abs:
  assumes "zero_bufs s"
  shows "\<exists>s'. binit s = Ret ((), s') \<and> bio_frame s s' \<and> cache_abs s' (cst (disk s) (disk s) (\<lambda>_. 0) {})"
proof -
  let ?bs = "(bufs s)[NBUF := (bufs s ! NBUF)\<lparr>bprev := NBUF, bnext := NBUF\<rparr>]"
  let ?cs = "fold (\<lambda>b bs. (link_front b bs)[b := (link_front b bs ! b)\<lparr>block := initsleeplock ''buffer''\<rparr>]) [0..<NBUF] ?bs"
  have len: "length (bufs s) = Suc NBUF" using assms by (simp add: zero_bufs_def)
  have run: "binit s = Ret ((), s\<lparr>bufs := ?cs\<rparr>)" by (simp only: binit_def kmod_app)
  have lru: "\<exists>xs. lru ?cs xs" using binit_lru [OF len] unfolding run by auto
  have "bcore (?cs ! b) = (bcore (bufs s ! b))\<lparr>block := initsleeplock ''buffer''\<rparr>" if "b < NBUF" for b
    using binit_cores [of NBUF ?bs] len that by (simp del: NBUF_def)
  then have core: "bcore (?cs ! b) = bcore ((bufs s ! b)\<lparr>block := initsleeplock ''buffer''\<rparr>)" if "b < NBUF" for b
    using that by (simp only: bcore_lock)
  have b: "dev (?cs ! b) \<noteq> ROOTDEV \<and> refcnt (?cs ! b) = 0 \<and> \<not> valid (?cs ! b) \<and> \<not> slocked (block (?cs ! b))" if "b < NBUF" for b
    using core [OF that] assms that unfolding bcore_eq zero_bufs_def by (simp add: initsleeplock_def)
  have "cache_abs (s\<lparr>bufs := ?cs\<rparr>) (cst (disk s) (disk s) (\<lambda>_. 0) {})"
    unfolding cache_abs_def using lru b by (auto simp: cached_def buf_ok_def simp del: NBUF_def)
  then show ?thesis using run bio_frame_upd(1) by blast
qed

section \<open>Properties\<close>

lemma find_last:
  "List.find P (rev xs) = Some b \<Longrightarrow> \<exists>ys zs. xs = ys @ b # zs \<and> P b \<and> (\<forall>i \<in> set zs. \<not> P i)"
proof (induction xs rule: rev_induct)
  case (snoc x xs)
  show ?case
  proof (cases "P x")
    case True
    then show ?thesis using snoc.prems by (intro exI [of _ xs] exI [of _ "[]"]) simp
  next
    case False
    then obtain ys zs where "xs = ys @ b # zs" "P b" "\<forall>i \<in> set zs. \<not> P i" using snoc by auto
    then show ?thesis using False by (intro exI [of _ ys] exI [of _ "zs @ [x]"]) simp
  qed
qed simp

lemma take_buf_Ret:
  assumes "take_buf b f s = Ret (b', s')" and "b < length (bufs s)"
  shows "b' = b" and "\<exists>k. bufs s' ! b = (f (bufs s ! b))\<lparr>block := k\<rparr>"
    and "lru (bufs s) xs \<Longrightarrow> (\<And>x. bnext (f x) = bnext x \<and> bprev (f x) = bprev x) \<Longrightarrow> lru (bufs s') xs"
proof -
  have s': "b' = b" "s' = s\<lparr>bufs := (bufs s)[b := (f (bufs s ! b))\<lparr>block := (block (bufs s ! b))\<lparr>slocked := True, slpid := me s\<rparr>\<rparr>]\<rparr>"
    using assms(1) by (auto simp: take_buf_def Let_def split: if_splits)
  then show "b' = b" "\<exists>k. bufs s' ! b = (f (bufs s ! b))\<lparr>block := k\<rparr>" using assms(2) by auto
  show "lru (bufs s') xs" if "lru (bufs s) xs" "\<And>x. bnext (f x) = bnext x \<and> bprev (f x) = bprev x"
    unfolding s'(2) using that(2) lru_update [OF that(1)] by simp
qed

text \<open>
  Property C29. The pointers of the cache always form the recency list: \<open>bget\<close> returns, blocks or
  panics (its scans end), keeps the list, and gives the buffer that has the block or, when there is
  none, the least recently used unreferenced one; \<open>brelse\<close> moves a buffer to the front exactly
  when its last reference goes.
\<close>

theorem bcache_recency:
  assumes "lru (bufs s) xs"
  shows "bget d n s \<noteq> Diverge \<and>
    (\<forall>b s'. bget d n s = Ret (b, s') \<longrightarrow> b < NBUF \<and> lru (bufs s') xs \<and> dev (bufs s' ! b) = d \<and> blockno (bufs s' ! b) = n \<and>
      ((dev (bufs s ! b) = d \<and> blockno (bufs s ! b) = n) \<or>
       (\<forall>i < NBUF. \<not> (dev (bufs s ! i) = d \<and> blockno (bufs s ! i) = n)) \<and>
       (\<exists>ys zs. xs = ys @ b # zs \<and> refcnt (bufs s ! b) = 0 \<and> (\<forall>i \<in> set zs. refcnt (bufs s ! i) \<noteq> 0)))) \<and>
    (\<forall>b s'. b < NBUF \<longrightarrow> brelse b s = Ret ((), s') \<longrightarrow>
      lru (bufs s') (if refcnt (bufs s ! b) = 1 then b # remove1 b xs else xs))"
proof (intro conjI allI impI)
  have len: "length (bufs s) = Suc NBUF" and xs: "set xs = {..<NBUF}" using assms by (simp_all add: lru_def)
  have nd: "take_buf b f s \<noteq> Diverge" for b f by (simp add: take_buf_def Let_def)
  then show "bget d n s \<noteq> Diverge" unfolding bget_lru [OF assms] by (auto split: option.split)
  fix b s' assume r: "bget d n s = Ret (b, s')"
  let ?P = "\<lambda>i. dev (bufs s ! i) = d \<and> blockno (bufs s ! i) = n"
  let ?goal = "b < NBUF \<and> lru (bufs s') xs \<and> dev (bufs s' ! b) = d \<and> blockno (bufs s' ! b) = n \<and>
      (?P b \<or> (\<forall>i < NBUF. \<not> ?P i) \<and> (\<exists>ys zs. xs = ys @ b # zs \<and> refcnt (bufs s ! b) = 0 \<and> (\<forall>i \<in> set zs. refcnt (bufs s ! i) \<noteq> 0)))"
  have ?goal
  proof (cases "List.find ?P xs")
    case (Some c)
    then have c: "c < NBUF" "?P c" using xs unfolding find_Some_iff by (metis lessThan_iff nth_mem, metis)
    have t: "take_buf c (\<lambda>x. x\<lparr>refcnt := refcnt x + 1\<rparr>) s = Ret (b, s')" using r Some bget_lru [OF assms] by simp
    show ?thesis using take_buf_Ret [OF t] c len assms by auto
  next
    case None
    then have no: "\<forall>i < NBUF. \<not> ?P i" using xs by (auto simp: find_None_iff)
    obtain c where c: "List.find (\<lambda>i. refcnt (bufs s ! i) = 0) (rev xs) = Some c"
      and t: "take_buf c (\<lambda>x. x\<lparr>dev := d, blockno := n, valid := False, refcnt := 1\<rparr>) s = Ret (b, s')"
      using r None bget_lru [OF assms, of d n] by (auto split: option.splits)
    from find_last [OF c] obtain ys zs where z: "xs = ys @ c # zs" "refcnt (bufs s ! c) = 0" "\<forall>i \<in> set zs. refcnt (bufs s ! i) \<noteq> 0" by blast
    then have cl: "c < NBUF" using xs by auto
    have "b = c" "lru (bufs s') xs" "dev (bufs s' ! b) = d" "blockno (bufs s' ! b) = n"
      using take_buf_Ret [OF t] cl len assms by auto
    then show ?thesis using no z cl by blast
  qed
  then show "b < NBUF" "lru (bufs s') xs" "dev (bufs s' ! b) = d" "blockno (bufs s' ! b) = n" "?P b \<or> (\<forall>i < NBUF. \<not> ?P i) \<and>
      (\<exists>ys zs. xs = ys @ b # zs \<and> refcnt (bufs s ! b) = 0 \<and> (\<forall>i \<in> set zs. refcnt (bufs s ! i) \<noteq> 0))" by blast+
next
  fix b s' assume b: "b < NBUF" and r: "brelse b s = Ret ((), s')"
  have len: "b < length (bufs s)" using assms b by (simp add: lru_def)
  have h: "holdingsleep (me s) (block (bufs s ! b))"
    using r by (auto simp: brelse_def bholding_def myproc_def pget_def bfld_def me_def split: if_splits)
  have u: "lru ((bufs s)[b := x]) xs" if "bnext x = bnext (bufs s ! b)" "bprev x = bprev (bufs s ! b)" for x
    using lru_update [OF assms that] .
  show "lru (bufs s') (if refcnt (bufs s ! b) = 1 then b # remove1 b xs else xs)"
  proof (cases "refcnt (bufs s ! b) = 1")
    case True
    then show ?thesis using r lru_move_front [OF u b] unfolding brelse_app [OF h len] by auto
  next
    case False
    then show ?thesis using r u unfolding brelse_app [OF h len] by auto
  qed
qed

theorem bcache_recency_witness:
  "\<exists>s b s'. binit demo_k = Ret ((), s) \<and> bget ROOTDEV 100 s = Ret (b, s') \<and> lru (bufs s') (rev [0..<NBUF])"
proof -
  have z: "zero_bufs demo_k" by (simp add: zero_bufs_def demo_k_def demo_buf_def)
  then have "length (bufs demo_k) = Suc NBUF" by (simp add: zero_bufs_def)
  from binit_lru [OF this] obtain s where s: "binit demo_k = Ret ((), s)" "lru (bufs s) (rev [0..<NBUF])" by blast
  moreover have "cache_abs s (cst (disk demo_k) (disk demo_k) (\<lambda>_. 0) {})" using binit_abs [OF z] s(1) by auto
  from bget_abs [OF this, of 100] obtain b f where "bget ROOTDEV 100 s = take_buf b f s" "\<not> slocked (block (bufs s ! b))" by auto
  then obtain s' where "bget ROOTDEV 100 s = Ret (b, s')" by (auto simp: take_buf_def Let_def)
  ultimately show ?thesis using bcache_recency [OF s(2), of ROOTDEV 100] by blast
qed

text \<open>
  Property C3. The cache is transparent: reading a block gives its current contents, whether they were
  in the cache or came from the disk, pins and locks the block and nothing else; releasing it again
  restores the abstract state. The read does not panic as long as fewer blocks than buffers are in use.
\<close>

theorem bread_transparent:
  assumes "cache_abs s (cst V D P K)" and "n \<notin> K" and "0 < P n \<or> card {m. 0 < P m} < NBUF" and "Suc (P n) < 2 ^ 32"
  shows "\<exists>b s1 s2. bread ROOTDEV n s = Ret (b, s1) \<and> bdata (bufs s1 ! b) = V n \<and>
    cache_abs s1 (cst V D (P(n := Suc (P n))) (insert n K)) \<and>
    brelse b s1 = Ret ((), s2) \<and> cache_abs s2 (cst V D P K)"
proof -
  obtain b s1 where 1: "bread ROOTDEV n s = Ret (b, s1)" "cache_abs s1 (cst V D (P(n := Suc (P n))) (insert n K))" "cached s1 n b"
    using bc.rd [OF assms] by blast
  have d: "bdata (bufs s1 ! b) = V n" using bc.data [OF 1(2,3)] by simp
  have e: "(P(n := Suc (P n)))(n := (P(n := Suc (P n))) n - 1) = P" "insert n K - {n} = K" using assms(2) by auto
  have "n \<in> insert n K" "(P(n := Suc (P n))) n = 1 \<Longrightarrow> V n = D n" using bc.clean [OF assms(1), of n] by simp_all
  from bc.rls [OF 1(2,3) this, unfolded e] 1 d show ?thesis by blast
qed

theorem bread_transparent_witness:
  "\<exists>s b s1 s2. binit demo_k = Ret ((), s) \<and> bread ROOTDEV 100 s = Ret (b, s1) \<and> bdata (bufs s1 ! b) = replicate 1024 0 \<and>
     brelse b s1 = Ret ((), s2)"
proof -
  have "zero_bufs demo_k" by (simp add: zero_bufs_def demo_k_def demo_buf_def)
  from binit_abs [OF this] obtain s where s: "binit demo_k = Ret ((), s)" "cache_abs s (cst (disk demo_k) (disk demo_k) (\<lambda>_. 0) {})" by blast
  have "disk demo_k 100 = replicate 1024 0" by (simp add: demo_k_def)
  then show ?thesis using s(1) bread_transparent [OF s(2), of 100] by auto
qed

end
