(* ===== verification/Log_Props.thy ===== *)
theory Log_Props
  imports Bio_Props
begin

text \<open>
  The log makes a transaction atomic: whatever disk write the machine stops after, recovery leaves
  either the contents before the transaction or all of its changes.
\<close>

section \<open>One block between its home and the log\<close>

context block_cache
begin

lemma copy_to_log:
  assumes "abs s (cst V D P {})" and "card {m. 0 < P m} < NBUF" and "P L = 0" and "0 < P H" and "Suc (P H) < 2 ^ 32"
  shows "\<exists>s'. (\<forall>K. kbind (rd L) (\<lambda>t. kbind (rd H) (\<lambda>f. kbind (kget (data f)) (\<lambda>bs.
       kseq (upd t (\<lambda>_. bs)) (kseq (wr t) (kseq (rls f) (kseq (rls t) K)))))) s = K s') \<and>
     abs s' (cst (V(L := V H)) (D(L := V H)) P {}) \<and> frame s s'"
proof -
  have ne: "L \<noteq> H" using assms(3,4) by auto
  let ?P = "P(L := 1, H := Suc (P H))" and ?V = "V(L := V H)" and ?D = "D(L := V H)"
  obtain t s1 where 1: "rd L s = Ret (t, s1)" "abs s1 (cst V D (P(L := 1)) {L})" "at s1 L t" "frame s s1"
    using rd [OF assms(1), of L] assms by auto
  obtain f s2 where 2: "rd H s1 = Ret (f, s2)" "abs s2 (cst V D ?P {H, L})" "at s2 H f" "at s2 L t" "frame s1 s2"
    using rd [OF 1(2), of H] assms ne 1(3) by auto
  have d: "data f s2 = V H" using data [OF 2(2,3)] by simp
  obtain s3 where 3: "upd t (\<lambda>_. V H) s2 = Ret ((), s3)" "abs s3 (cst ?V D ?P {H, L})" "at s3 L t" "at s3 H f" "frame s2 s3"
    using upd [OF 2(2,4), of "\<lambda>_. V H"] 2(3,4) by auto
  obtain s4 where 4: "wr t s3 = Ret ((), s4)" "abs s4 (cst ?V ?D ?P {H, L})" "at s4 L t" "at s4 H f" "frame s3 s4"
    using wr [OF 3(2,3)] 3(3,4) by auto
  have p5: "?P(H := ?P H - 1) = P(L := 1)" "{H, L} - {H} = {L}" and p6: "(P(L := 1))(L := 0) = P"
    using ne assms(3) by auto
  obtain s5 where 5: "rls f s4 = Ret ((), s5)" "abs s5 (cst ?V ?D (P(L := 1)) {L})" "at s5 L t" "frame s4 s5"
    using rls [OF 4(2,4), unfolded p5] 4(3) assms(4) by auto
  obtain s6 where 6: "rls t s5 = Ret ((), s6)" "abs s6 (cst ?V ?D P {})" "frame s5 s6"
    using rls [OF 5(2,3)] ne p6 by auto
  have "frame s s6" using 1(4) 2(5) 3(5) 4(5) 5(4) 6(3) frame_trans by blast
  moreover have "kbind (rd L) (\<lambda>t. kbind (rd H) (\<lambda>f. kbind (kget (data f)) (\<lambda>bs.
       kseq (upd t (\<lambda>_. bs)) (kseq (wr t) (kseq (rls f) (kseq (rls t) K)))))) s = K s6" for K
    using 1(1) 2(1) 3(1) 4(1) 5(1) 6(1) d by simp
  ultimately show ?thesis using 6(2) by blast
qed

lemma copy_home:
  assumes "abs s (cst V D P {})" and "card {m. 0 < P m} + (if P H = 0 then 2 else 1) \<le> NBUF" and "P L = 0"
    and "Suc (P H) < 2 ^ 32" and "P H = 0 \<longleftrightarrow> r" and "L \<noteq> H"
  shows "\<exists>s'. (\<forall>K. kbind (rd L) (\<lambda>l. kbind (rd H) (\<lambda>d. kbind (kget (data l)) (\<lambda>bs.
       kseq (upd d (\<lambda>_. bs)) (kseq (wr d) (kseq (if \<not> r then unpin d else kret ()) (kseq (rls l) (kseq (rls d) K))))))) s = K s') \<and>
     abs s' (cst (V(H := V L)) (D(H := V L)) (P(H := P H - 1)) {}) \<and> frame s s'"
proof -
  let ?P = "P(L := 1, H := Suc (P H))" and ?Q = "P(L := 1, H := (if r then 1 else P H))" and ?V = "V(H := V L)" and ?D = "D(H := V L)"
  obtain l s1 where 1: "rd L s = Ret (l, s1)" "abs s1 (cst V D (P(L := 1)) {L})" "at s1 L l" "frame s s1"
    using rd [OF assms(1), of L] assms(2,3) by (auto split: if_splits)
  have "{m. 0 < (P(L := 1)) m} = insert L {m. 0 < P m}" by auto
  then have "card {m. 0 < (P(L := 1)) m} = Suc (card {m. 0 < P m})" using assms(3) by simp
  then have "0 < (P(L := 1)) H \<or> card {m. 0 < (P(L := 1)) m} < NBUF" using assms(2,6) by (auto split: if_splits)
  then obtain d s2 where 2: "rd H s1 = Ret (d, s2)" "abs s2 (cst V D ?P {H, L})" "at s2 H d" "at s2 L l" "frame s1 s2"
    using rd [OF 1(2), of H] assms(4,6) 1(3) by auto
  have dt: "data l s2 = V L" using data [OF 2(2,4)] by simp
  obtain s3 where 3: "upd d (\<lambda>_. V L) s2 = Ret ((), s3)" "abs s3 (cst ?V D ?P {H, L})" "at s3 L l" "at s3 H d" "frame s2 s3"
    using upd [OF 2(2,3), of "\<lambda>_. V L"] 2(3,4) by auto
  obtain s4 where 4: "wr d s3 = Ret ((), s4)" "abs s4 (cst ?V ?D ?P {H, L})" "at s4 L l" "at s4 H d" "frame s3 s4"
    using wr [OF 3(2,4)] 3(3,4) by auto
  obtain s5 where 5: "(if \<not> r then unpin d else kret ()) s4 = Ret ((), s5)" "abs s5 (cst ?V ?D ?Q {H, L})" "frame s4 s5"
      "at s5 L l" "at s5 H d"
    using unpin [OF 4(2,4)] 4(2-4) assms(5) frame_refl by (cases r) auto
  have p6: "?Q(L := ?Q L - 1) = P(H := (if r then 1 else P H))" "{H, L} - {L} = {H}" using assms(3,6) by auto
  obtain s6 where 6: "rls l s5 = Ret ((), s6)" "abs s6 (cst ?V ?D (P(H := (if r then 1 else P H))) {H})" "at s6 H d" "frame s5 s6"
    using rls [OF 5(2,4), unfolded p6] clean [OF assms(1,3)] assms(6) 5(5) by auto
  obtain s7 where 7: "rls d s6 = Ret ((), s7)" "abs s7 (cst ?V ?D (P(H := P H - 1)) {})" "frame s6 s7"
    using rls [OF 6(2,3)] assms(5) by (cases r) auto
  have "frame s s7" using 1(4) 2(5) 3(5) 4(5) 5(3) 6(4) 7(3) frame_trans by blast
  moreover have "kbind (rd L) (\<lambda>l. kbind (rd H) (\<lambda>d. kbind (kget (data l)) (\<lambda>bs.
       kseq (upd d (\<lambda>_. bs)) (kseq (wr d) (kseq (if \<not> r then unpin d else kret ()) (kseq (rls l) (kseq (rls d) K))))))) s = K s7" for K
    using 1(1) 2(1) 3(1) 4(1) 5(1) 6(1) 7(1) dt by simp
  ultimately show ?thesis using 7(2) by blast
qed

end

section \<open>Header codec\<close>

lemma length_put_bytes [simp]: "off + length v \<le> length bs \<Longrightarrow> length (put_bytes off v bs) = length bs"
  by (simp add: put_bytes_def)

lemma length_put32 [simp]: "off + 4 \<le> length bs \<Longrightarrow> length (put32 off v bs) = length bs"
  by (simp add: put32_def)

lemma get32_put32: "off + 4 \<le> length bs \<Longrightarrow> get32 (put32 off v bs) off = v"
  by (simp add: get32_def put32_def put_bytes_def)

lemma get32_put32_other:
  assumes "off + 4 \<le> length bs" and "i + 4 \<le> off \<or> off + 4 \<le> i"
  shows "get32 (put32 off v bs) i = get32 bs i"
  using assms(2)
proof
  assume "i + 4 \<le> off"
  then have "take 4 (drop i (put32 off v bs)) = take 4 (drop i (take off bs))"
    using assms(1) by (simp add: put32_def put_bytes_def)
  also have "\<dots> = take 4 (drop i bs)" using \<open>i + 4 \<le> off\<close> by (simp add: drop_take min_def)
  finally show ?thesis by (simp add: get32_def)
next
  assume "off + 4 \<le> i"
  then have "drop i (put32 off v bs) = drop i bs"
    using assms(1) by (simp add: put32_def put_bytes_def)
  then show ?thesis by (simp add: get32_def)
qed

lemma put_blocks_len: "4 + 4 * (i + k) \<le> length bs \<Longrightarrow> length (put_blocks k i bl bs) = length bs"
  by (induction k arbitrary: i bs) simp_all

lemma get32_put_blocks:
  assumes "4 + 4 * (i + k) \<le> length bs"
  shows "get32 (put_blocks k i bl bs) 0 = get32 bs 0"
    and "j < i + k \<Longrightarrow> get32 (put_blocks k i bl bs) (4 + 4 * j) = (if i \<le> j then bl ! j else get32 bs (4 + 4 * j))"
proof -
  show "get32 (put_blocks k i bl bs) 0 = get32 bs 0"
    using assms by (induction k arbitrary: i bs) (simp_all add: get32_put32_other)
  show "get32 (put_blocks k i bl bs) (4 + 4 * j) = (if i \<le> j then bl ! j else get32 bs (4 + 4 * j))" if "j < i + k"
    using assms that
  proof (induction k arbitrary: i bs)
    case (Suc k)
    let ?bs = "put32 (4 + 4 * i) (bl ! i) bs"
    show ?case
    proof (cases "j = i")
      case True
      have "get32 (put_blocks k (Suc i) bl ?bs) (4 + 4 * j) = get32 ?bs (4 + 4 * j)"
      proof (cases "j < Suc i + k")
        case t: True
        then show ?thesis using Suc.IH [of "Suc i" ?bs] Suc.prems(1) True by simp
      qed (use True Suc.prems in simp)
      then show ?thesis using True Suc.prems(1) by (simp add: get32_put32)
    next
      case False
      then show ?thesis
        using Suc.IH [of "Suc i" ?bs] Suc.prems get32_put32_other [of "4 + 4 * i" bs "4 + 4 * j" "bl ! i"] by auto
    qed
  qed simp
qed

lemma length_head_blocks [simp]: "length (head_blocks k i bs bl) = length bl"
  by (induction k arbitrary: i bl) simp_all

lemma head_blocks_nth:
  assumes "i + k \<le> length bl" and "j < length bl"
  shows "head_blocks k i bs bl ! j = (if i \<le> j \<and> j < i + k then get32 bs (4 + 4 * j) else bl ! j)"
  using assms
proof (induction k arbitrary: i bl)
  case (Suc k)
  then show ?case by (cases "j = i") (auto simp: nth_list_update)
qed auto

text \<open>The header block that \<open>write_head\<close> writes over \<open>bs\<close>.\<close>

definition head_block :: "logst \<Rightarrow> u8 list \<Rightarrow> u8 list" where
  "head_block l bs = put_blocks (nat (lh_n l)) 0 (lh_block l) (put32 0 (word_of_int (lh_n l)) bs)"

lemma head_block_codec:
  assumes "length bs = BSIZE" and "0 \<le> lh_n l" and "lh_n l \<le> int LOGSIZE"
  shows "length (head_block l bs) = BSIZE" and "sint (get32 (head_block l bs) 0) = lh_n l"
    and "j < nat (lh_n l) \<Longrightarrow> get32 (head_block l bs) (4 + 4 * j) = lh_block l ! j"
proof -
  have "sint (word_of_int (lh_n l) :: u32) = lh_n l"
    using assms(2,3) by (simp add: signed_of_int signed_take_bit_int_eq_self)
  then show "sint (get32 (head_block l bs) 0) = lh_n l"
    using assms by (simp add: head_block_def get32_put_blocks get32_put32)
  show "length (head_block l bs) = BSIZE" using assms by (simp add: head_block_def put_blocks_len)
  show "get32 (head_block l bs) (4 + 4 * j) = lh_block l ! j" if "j < nat (lh_n l)"
    using that assms get32_put_blocks(2) [of 0 "nat (lh_n l)" "put32 0 (word_of_int (lh_n l)) bs" j "lh_block l"]
    by (simp add: head_block_def)
qed

section \<open>The phases of a commit\<close>

definition log_slot :: "logst \<Rightarrow> nat \<Rightarrow> u32" where
  "log_slot l t = start l + of_nat t + 1"

definition logged :: "logst \<Rightarrow> u32 list" where
  "logged l = take (nat (lh_n l)) (lh_block l)"

text \<open>The header block and the data blocks of the log.\<close>

definition in_log :: "logst \<Rightarrow> u32 \<Rightarrow> bool" where
  "in_log l m \<longleftrightarrow> m - start l \<le> of_nat LOGSIZE"

definition to_log :: "logst \<Rightarrow> nat list \<Rightarrow> (u32 \<Rightarrow> u8 list) \<Rightarrow> (u32 \<Rightarrow> u8 list) \<Rightarrow> u32 \<Rightarrow> u8 list" where
  "to_log l ts V D = fold (\<lambda>t D. D(log_slot l t := V (lh_block l ! t))) ts D"

definition to_home :: "logst \<Rightarrow> nat list \<Rightarrow> (u32 \<Rightarrow> u8 list) \<Rightarrow> (u32 \<Rightarrow> u8 list) \<Rightarrow> u32 \<Rightarrow> u8 list" where
  "to_home l ts V D = fold (\<lambda>t D. D(lh_block l ! t := V (log_slot l t))) ts D"

lemma log_slot_in: "t < LOGSIZE \<Longrightarrow> in_log l (log_slot l t)"
proof -
  assume t: "t < LOGSIZE"
  have "of_nat (Suc t) \<le> (of_nat LOGSIZE :: u32)"
    using t by (simp only: word_le_nat_alt unat_of_nat take_bit_nat_eq_self) simp
  then show ?thesis by (simp add: in_log_def log_slot_def add.commute)
qed

lemma log_slot_inj:
  assumes "log_slot l t = log_slot l t'" and "t < LOGSIZE" and "t' < LOGSIZE"
  shows "t = t'"
proof -
  have "(of_nat t :: u32) = of_nat t'" using assms(1) by (simp add: log_slot_def)
  then have "unat (of_nat t :: u32) = unat (of_nat t' :: u32)" by simp
  then show ?thesis using assms(2,3) by (simp add: unat_of_nat take_bit_nat_eq_self)
qed

lemma log_slot_start: "t < LOGSIZE \<Longrightarrow> log_slot l t \<noteq> start l"
proof
  assume t: "t < LOGSIZE" and "log_slot l t = start l"
  then have "(of_nat (Suc t) :: u32) = 0" by (simp add: log_slot_def algebra_simps)
  then have "unat (of_nat (Suc t) :: u32) = 0" by (simp only: unat_0)
  moreover have "unat (of_nat (Suc t) :: u32) = Suc t" using t by (simp only: unat_of_nat take_bit_nat_eq_self) simp
  ultimately show False by simp
qed

lemma bio_frame_log [simp]: "bio_frame s s' \<Longrightarrow> log s' = log s"
  by (auto simp: bio_frame_def)

lemma cache_abs_log [simp]: "cache_abs (s\<lparr>log := l\<rparr>) c = cache_abs s c"
  by (simp add: cache_abs_def cached_def me_def)

lemma to_log_cong: "(\<And>t. t \<in> set ts \<Longrightarrow> V (lh_block l ! t) = W (lh_block l ! t)) \<Longrightarrow> to_log l ts V D = to_log l ts W D"
  unfolding to_log_def by (rule fold_cong) auto

lemma to_home_cong: "(\<And>t. t \<in> set ts \<Longrightarrow> V (log_slot l t) = W (log_slot l t)) \<Longrightarrow> to_home l ts V D = to_home l ts W D"
  unfolding to_home_def by (rule fold_cong) auto

lemma to_log_Cons: "to_log l (t # ts) V D = to_log l ts V (D(log_slot l t := V (lh_block l ! t)))"
  by (simp add: to_log_def)

lemma to_home_Cons: "to_home l (t # ts) V D = to_home l ts V (D(lh_block l ! t := V (log_slot l t)))"
  by (simp add: to_home_def)

lemma write_log_loop_abs:
  assumes "cache_abs s (cst V D P {})" and "card {m. 0 < P m} < NBUF" and "ldev (log s) = ROOTDEV"
    and "\<And>t. t \<in> {tail..<tail + k} \<Longrightarrow> P (log_slot (log s) t) = 0 \<and> P (lh_block (log s) ! t) = 1"
  shows "\<exists>s'. write_log_loop k tail s = Ret ((), s') \<and> bio_frame s s' \<and>
     cache_abs s' (cst (to_log (log s) [tail..<tail + k] V V) (to_log (log s) [tail..<tail + k] V D) P {})"
  using assms
proof (induction k arbitrary: tail s V D)
  case 0
  then show ?case using bio_frame_refl by (auto simp: to_log_def)
next
  case (Suc k)
  let ?l = "log s"
  let ?L = "log_slot ?l tail" and ?H = "lh_block ?l ! tail"
  have p: "P ?L = 0" "P ?H = 1" using Suc.prems(4) [of tail] by simp_all
  obtain s1 where 1: "cache_abs s1 (cst (V(?L := V ?H)) (D(?L := V ?H)) P {})" "bio_frame s s1"
    and run: "write_log_loop (Suc k) tail s = write_log_loop k (Suc tail) s1"
    using bc.copy_to_log [OF Suc.prems(1,2) p(1), of ?H] p(2) Suc.prems(3) by (auto simp: log_slot_def bfld_def)
  have l: "log s1 = ?l" using 1(2) by simp
  have ts: "t \<in> {Suc tail..<Suc tail + k} \<Longrightarrow> P (log_slot ?l t) = 0 \<and> P (lh_block ?l ! t) = 1" for t
    using Suc.prems(4) [of t] by simp
  obtain s' where 2: "write_log_loop k (Suc tail) s1 = Ret ((), s')" "bio_frame s1 s'"
    "cache_abs s' (cst (to_log ?l [Suc tail..<Suc tail + k] (V(?L := V ?H)) (V(?L := V ?H)))
       (to_log ?l [Suc tail..<Suc tail + k] (V(?L := V ?H)) (D(?L := V ?H))) P {})"
    using Suc.IH [OF 1(1) Suc.prems(2), of "Suc tail"] ts Suc.prems(3) unfolding l by blast
  have same: "to_log ?l [Suc tail..<Suc tail + k] (V(?L := V ?H)) E = to_log ?l [Suc tail..<Suc tail + k] V E" for E
  proof (rule to_log_cong)
    fix t assume "t \<in> set [Suc tail..<Suc tail + k]"
    then have "lh_block ?l ! t \<noteq> ?L" using ts [of t] p(1) by auto
    then show "(V(?L := V ?H)) (lh_block ?l ! t) = V (lh_block ?l ! t)" by simp
  qed
  have "[tail..<tail + Suc k] = tail # [Suc tail..<Suc tail + k]" by (simp add: upt_rec)
  then show ?case unfolding same using 2 run bio_frame_trans [OF 1(2)] unfolding same by (simp only: to_log_Cons) blast
qed

lemma install_loop_abs:
  assumes "cache_abs s (cst V D P {})" and "ldev (log s) = ROOTDEV"
    and "\<And>t. t \<in> {tail..<tail + k} \<Longrightarrow> P (log_slot (log s) t) = 0 \<and>
       (\<forall>t' \<in> {tail..<tail + k}. log_slot (log s) t' \<noteq> lh_block (log s) ! t)"
    and "\<And>t. t \<in> {tail..<tail + k} \<Longrightarrow> P (lh_block (log s) ! t) = (if r then 0 else 1)"
    and "card {m. 0 < P m} + (if r then 2 else 1) \<le> NBUF" and "\<not> r \<Longrightarrow> distinct (map ((!) (lh_block (log s))) [tail..<tail + k])"
  shows "\<exists>s'. install_loop k tail r s = Ret ((), s') \<and> bio_frame s s' \<and>
     cache_abs s' (cst (to_home (log s) [tail..<tail + k] V V) (to_home (log s) [tail..<tail + k] V D)
       (\<lambda>m. if m \<in> (!) (lh_block (log s)) ` {tail..<tail + k} then 0 else P m) {})"
  using assms
proof (induction k arbitrary: tail s V D P)
  case 0
  then show ?case using bio_frame_refl by (auto simp: to_home_def)
next
  case (Suc k)
  let ?l = "log s" and ?ts = "[Suc tail..<Suc tail + k]"
  let ?L = "log_slot ?l tail" and ?H = "lh_block ?l ! tail" and ?P = "P(lh_block (log s) ! tail := 0)"
  let ?V = "V(?H := V ?L)" and ?D = "D(?H := V ?L)"
  have p: "P ?L = 0" "?L \<noteq> ?H" "P ?H = (if r then 0 else 1)" using Suc.prems(3,4) [of tail] by auto
  have card: "card {m. 0 < P m} + (if P ?H = 0 then 2 else 1) \<le> NBUF" using Suc.prems(5) p(3) by (auto split: if_splits)
  have "Suc (P ?H) < 2 ^ 32" "P ?H = 0 \<longleftrightarrow> r" "P(?H := P ?H - 1) = ?P" using p(3) by (cases r; simp)+
  then obtain s1 where 1: "cache_abs s1 (cst ?V ?D ?P {})" "bio_frame s s1"
    and run: "install_loop (Suc k) tail r s = install_loop k (Suc tail) r s1"
    using bc.copy_home [OF Suc.prems(1) card p(1) _ _ p(2), of r] Suc.prems(2) by (auto simp: log_slot_def bfld_def)
  have l: "log s1 = ?l" using 1(2) by simp
  have "{m. 0 < ?P m} \<subseteq> {m. 0 < P m}" by auto
  then have "card {m. 0 < ?P m} \<le> card {m. 0 < P m}" by (intro card_mono) simp_all
  then have card1: "card {m. 0 < ?P m} + (if r then 2 else 1) \<le> NBUF" using Suc.prems(5) by simp
  have upt: "[tail..<tail + Suc k] = tail # ?ts" by (simp add: upt_rec)
  have ts: "?P (log_slot ?l t) = 0 \<and> (\<forall>t' \<in> {Suc tail..<Suc tail + k}. log_slot ?l t' \<noteq> lh_block ?l ! t)"
    "?P (lh_block ?l ! t) = (if r then 0 else 1)" if "t \<in> {Suc tail..<Suc tail + k}" for t
  proof -
    have "\<not> r \<Longrightarrow> lh_block ?l ! t \<noteq> ?H"
      using Suc.prems(6) that unfolding upt list.map distinct.simps set_map set_upt by (metis atLeastLessThan_iff image_eqI)
    then show "?P (log_slot ?l t) = 0 \<and> (\<forall>t' \<in> {Suc tail..<Suc tail + k}. log_slot ?l t' \<noteq> lh_block ?l ! t)"
      "?P (lh_block ?l ! t) = (if r then 0 else 1)"
      using Suc.prems(3,4) [of t] that by (auto split: if_splits)
  qed
  have dist: "\<not> r \<Longrightarrow> distinct (map ((!) (lh_block ?l)) ?ts)" using Suc.prems(6) unfolding upt by simp
  obtain s' where 2: "install_loop k (Suc tail) r s1 = Ret ((), s')" "bio_frame s1 s'"
    "cache_abs s' (cst (to_home ?l ?ts ?V ?V) (to_home ?l ?ts ?V ?D)
       (\<lambda>m. if m \<in> (!) (lh_block ?l) ` {Suc tail..<Suc tail + k} then 0 else ?P m) {})"
    using Suc.IH [OF 1(1), of "Suc tail"] ts card1 dist Suc.prems(2) unfolding l by blast
  have same: "to_home ?l ?ts ?V E = to_home ?l ?ts V E" for E
    using Suc.prems(3) [of tail] by (intro to_home_cong) auto
  have "{tail..<tail + Suc k} = insert tail {Suc tail..<Suc tail + k}" by auto
  then have P: "(\<lambda>m. if m \<in> (!) (lh_block ?l) ` {tail..<tail + Suc k} then 0 else P m) =
      (\<lambda>m. if m \<in> (!) (lh_block ?l) ` {Suc tail..<Suc tail + k} then 0 else ?P m)" by (auto simp: fun_eq_iff)
  show ?case unfolding P upt to_home_Cons using 2 run bio_frame_trans [OF 1(2)] unfolding same by (simp only:) blast
qed

lemma write_head_abs:
  assumes "cache_abs s (cst V D P {})" and "card {m. 0 < P m} < NBUF" and "ldev (log s) = ROOTDEV" and "P (start (log s)) = 0"
  defines "h \<equiv> head_block (log s) (V (start (log s)))"
  shows "\<exists>s'. write_head s = Ret ((), s') \<and> bio_frame s s' \<and>
     cache_abs s' (cst (V(start (log s) := h)) (D(start (log s) := h)) P {})"
proof -
  have "write_head s = kbind (bread ROOTDEV (start (log s))) (\<lambda>b. kseq (bupd b (head_block (log s))) (kseq (bwrite b) (brelse b))) s"
    using assms(3) by (simp add: write_head_def head_block_def [abs_def])
  then show ?thesis unfolding h_def using bc.rewrite_block [OF assms(1,2,4), of "head_block (log s)"] by (simp only:) blast
qed

lemma read_head_abs:
  assumes "cache_abs s (cst V D P {})" and "card {m. 0 < P m} < NBUF" and "ldev (log s) = ROOTDEV" and "P (start (log s)) = 0"
  defines "h \<equiv> V (start (log s))"
  shows "\<exists>s'. read_head s = Ret ((), s') \<and> cache_abs s' (cst V D P {}) \<and>
     log s' = (log s)\<lparr>lh_n := sint (get32 h 0), lh_block := head_blocks (nat (sint (get32 h 0))) 0 h (lh_block (log s))\<rparr>"
proof -
  let ?n = "start (log s)"
  let ?l = "(log s)\<lparr>lh_n := sint (get32 h 0), lh_block := head_blocks (nat (sint (get32 h 0))) 0 h (lh_block (log s))\<rparr>"
  obtain b s1 where 1: "bread ROOTDEV ?n s = Ret (b, s1)" "cache_abs s1 (cst V D (P(?n := 1)) {?n})" "cached s1 ?n b" "bio_frame s s1"
    using bc.rd [OF assms(1), of ?n] assms(2,4) by auto
  let ?s2 = "s1\<lparr>log := ?l\<rparr>"
  have d: "bdata (bufs s1 ! b) = h" using bc.data [OF 1(2,3)] by (simp add: h_def)
  have "cache_abs ?s2 (cst V D (P(?n := 1)) {?n})" "cached ?s2 ?n b" using 1(2,3) by (simp_all add: cached_def)
  from bc.rls [OF this] obtain s3 where 3: "brelse b ?s2 = Ret ((), s3)" "cache_abs s3 (cst V D P {})" "bio_frame ?s2 s3"
    using bc.clean [OF assms(1,4)] assms(4) by (auto simp: fun_upd_idem)
  have "read_head s = Ret ((), s3)" using 1(1,4) d 3(1) assms(3) by (simp add: read_head_def bfld_def lmod_def)
  moreover have "log s3 = ?l" using 3(3) by simp
  ultimately show ?thesis using 3(2) by blast
qed

lemma to_home_other: "m \<notin> (!) (lh_block l) ` set ts \<Longrightarrow> to_home l ts V D m = D m"
  by (induction ts arbitrary: D) (auto simp: to_home_def)

lemma to_home_at:
  assumes "distinct (map ((!) (lh_block l)) ts)" and "t \<in> set ts"
  shows "to_home l ts V D (lh_block l ! t) = V (log_slot l t)"
  using assms
proof (induction ts arbitrary: D)
  case (Cons a ts)
  then show ?case
    using to_home_other [of "lh_block l ! a" l ts V "D(lh_block l ! a := V (log_slot l a))"]
    by (cases "t = a") (auto simp: to_home_Cons)
qed simp

lemma to_log_other: "m \<notin> log_slot l ` set ts \<Longrightarrow> to_log l ts V D m = D m"
  by (induction ts arbitrary: D) (auto simp: to_log_def)

lemma to_log_at:
  assumes "distinct (map (log_slot l) ts)" and "t \<in> set ts"
  shows "to_log l ts V D (log_slot l t) = V (lh_block l ! t)"
  using assms
proof (induction ts arbitrary: D)
  case (Cons a ts)
  then show ?case
    using to_log_other [of "log_slot l a" l ts V "D(log_slot l a := V (lh_block l ! a))"]
    by (cases "t = a") (auto simp: to_log_Cons)
qed simp

section \<open>Recovery\<close>

text \<open>A machine that has just started.\<close>

definition zeroed :: "'s klog_scheme \<Rightarrow> bool" where
  "zeroed s \<longleftrightarrow> zero_bufs s \<and> length (lh_block (log s)) = LOGSIZE"

lemma to_home_same:
  "start l = start l' \<Longrightarrow> (\<And>t. t \<in> set ts \<Longrightarrow> lh_block l ! t = lh_block l' ! t) \<Longrightarrow> to_home l ts V D = to_home l' ts V D"
  unfolding to_home_def by (rule fold_cong) (auto simp: log_slot_def)

text \<open>
  What recovery makes of a disk: the blocks of the transaction in the log, if there is one, go home.
\<close>

lemma recovery:
  assumes "zeroed s" and "start l = st" and "nat (sint (get32 (disk s st) 0)) = n" and "n \<le> LOGSIZE" and "0 \<le> sint (get32 (disk s st) 0)"
    and "\<And>t. t < n \<Longrightarrow> get32 (disk s st) (4 + 4 * t) = lh_block l ! t \<and> \<not> in_log l (lh_block l ! t)"
  shows "\<exists>s'. kseq binit (initlog ROOTDEV st nl) s = Ret ((), s') \<and> lh_n (log s') = 0 \<and>
     (\<forall>m. \<not> in_log l m \<longrightarrow> disk s' m = to_home l [0..<n] (disk s) (disk s) m)"
proof -
  let ?D = "disk s" and ?Z = "(\<lambda>_. 0) :: u32 \<Rightarrow> nat"
  obtain s0 where 0: "binit s = Ret ((), s0)" "bio_frame s s0" "cache_abs s0 (cst ?D ?D ?Z {})"
    using binit_abs [of s] assms(1) by (auto simp: zeroed_def)
  define s1 where "s1 = s0\<lparr>log := (log s0)\<lparr>start := st, lsize := nl, ldev := ROOTDEV\<rparr>\<rparr>"
  have 1: "cache_abs s1 (cst ?D ?D ?Z {})" "ldev (log s1) = ROOTDEV" "start (log s1) = st" "length (lh_block (log s1)) = LOGSIZE"
    using 0(2,3) assms(1) by (simp_all add: s1_def zeroed_def)
  obtain s2 where 2: "read_head s1 = Ret ((), s2)" "cache_abs s2 (cst ?D ?D ?Z {})"
    "log s2 = (log s1)\<lparr>lh_n := sint (get32 (?D st) 0), lh_block := head_blocks n 0 (?D st) (lh_block (log s1))\<rparr>"
    using read_head_abs [OF 1(1) _ 1(2)] assms(3) 1(3) by auto
  have bl: "lh_block (log s2) ! t = lh_block l ! t" if "t < n" for t
    using 2(3) assms(4,6) that 1(4) by (simp add: head_blocks_nth)
  have sl: "log_slot (log s2) t = log_slot l t" for t using 2(3) 1(3) assms(2) by (simp add: log_slot_def)
  have ne: "log_slot l t' \<noteq> lh_block l ! t" if "t < n" "t' < n" for t t'
    using log_slot_in [of t' l] assms(4,6) that by force
  have ld: "ldev (log s2) = ROOTDEV" using 2(3) 1(2) by simp
  obtain s3 where 3: "install_loop n 0 True s2 = Ret ((), s3)" "bio_frame s2 s3"
    "cache_abs s3 (cst (to_home (log s2) [0..<n] ?D ?D) (to_home (log s2) [0..<n] ?D ?D) ?Z {})"
    using install_loop_abs [OF 2(2) ld, of 0 n True] ne by (auto simp: bl sl)
  have h: "to_home (log s2) [0..<n] ?D ?D = to_home l [0..<n] ?D ?D"
    using bl 2(3) 1(3) assms(2) by (intro to_home_same) simp_all
  define s4 where "s4 = s3\<lparr>log := (log s3)\<lparr>lh_n := 0\<rparr>\<rparr>"
  let ?E = "to_home l [0..<n] ?D ?D"
  have 4: "cache_abs s4 (cst ?E ?E ?Z {})" "ldev (log s4) = ROOTDEV" "start (log s4) = st" "lh_n (log s4) = 0"
    using 3(2,3) 2(3) 1(2,3) unfolding h by (simp_all add: s4_def)
  obtain s5 where 5: "write_head s4 = Ret ((), s5)" "bio_frame s4 s5"
    "cache_abs s5 (cst (?E(st := head_block (log s4) (?E st))) (?E(st := head_block (log s4) (?E st))) ?Z {})"
    using write_head_abs [OF 4(1) _ 4(2)] 4(3) by auto
  have "install_trans True s2 = Ret ((), s3)" using 3(1) 2(3) assms(3) by (simp add: install_trans_def)
  then have "recover_from_log s1 = Ret ((), s5)"
    using 2(1) 5(1) by (simp add: recover_from_log_def lmod_def s4_def)
  then have "kseq binit (initlog ROOTDEV st nl) s = Ret ((), s5)"
    using 0(1) by (simp add: initlog_def lmod_def s1_def)
  moreover have "disk s5 = ?E(st := head_block (log s4) (?E st))" using cache_absD(2) [OF 5(3)] by simp
  moreover have "lh_n (log s5) = 0" using 5(2) 4(4) by simp
  moreover have "in_log l st" using assms(2) by (simp add: in_log_def)
  ultimately show ?thesis by auto
qed

section \<open>Stopping at any point of a commit\<close>

text \<open>
  Before the \<open>k\<close>th block is copied to the log, before the \<open>k\<close>th block is installed after the header
  has been written, or when the commit is over. Each of the iterations counted by \<open>k\<close> writes one
  block to the disk, so these are all the disks the machine can stop with.
\<close>

datatype crash_point = In_log nat | In_install nat | Over

primrec commit_until :: "crash_point \<Rightarrow> ('s klog_scheme, unit) kop" where
  "commit_until (In_log k) = write_log_loop k 0"
| "commit_until (In_install k) = kseq write_log (kseq write_head (install_loop k 0 False))"
| "commit_until Over = commit"

primrec point_ok :: "nat \<Rightarrow> crash_point \<Rightarrow> bool" where
  "point_ok n (In_log k) \<longleftrightarrow> k \<le> n"
| "point_ok n (In_install k) \<longleftrightarrow> k \<le> n"
| "point_ok n Over \<longleftrightarrow> True"

text \<open>A transaction ready to commit: its blocks, and no others, are pinned, and the log on disk is empty.\<close>

definition commit_ready :: "'s klog_scheme \<Rightarrow> (u32 \<Rightarrow> u8 list) \<Rightarrow> bool" where
  "commit_ready s V \<longleftrightarrow>
     (let l = log s in
      cache_abs s (cst V (disk s) (\<lambda>n. if n \<in> set (logged l) then 1 else 0) {}) \<and>
      ldev l = ROOTDEV \<and> 0 < lh_n l \<and> lh_n l < int NBUF \<and> length (lh_block l) = LOGSIZE \<and>
      distinct (logged l) \<and> (\<forall>n \<in> set (logged l). \<not> in_log l n) \<and>
      length (disk s (start l)) = BSIZE \<and> get32 (disk s (start l)) 0 = 0)"

lemma commit_readyD:
  assumes "commit_ready s V"
  defines "n \<equiv> nat (lh_n (log s))"
  shows "cache_abs s (cst V (disk s) (\<lambda>m. if m \<in> set (logged (log s)) then 1 else 0) {})"
    and "ldev (log s) = ROOTDEV" and "0 < n" and "n < NBUF" and "lh_n (log s) = int n"
    and "distinct (map ((!) (lh_block (log s))) [0..<n])" and "set (logged (log s)) = (!) (lh_block (log s)) ` {0..<n}"
    and "card (set (logged (log s))) = n"
    and "t < n \<Longrightarrow> \<not> in_log (log s) (lh_block (log s) ! t)"
    and "length (disk s (start (log s))) = BSIZE" and "get32 (disk s (start (log s))) 0 = 0"
proof -
  have l: "length (lh_block (log s)) = LOGSIZE" "distinct (logged (log s))" "0 < lh_n (log s)" "lh_n (log s) < int NBUF"
    using assms by (simp_all add: commit_ready_def Let_def)
  have nn: "n \<le> length (lh_block (log s))" using l by (simp add: n_def)
  have t: "logged (log s) = map ((!) (lh_block (log s))) [0..<n]"
    using nn by (auto simp: logged_def n_def intro: nth_equalityI)
  show "distinct (map ((!) (lh_block (log s))) [0..<n])" using l(2) unfolding t .
  show "set (logged (log s)) = (!) (lh_block (log s)) ` {0..<n}" unfolding t by simp
  show "card (set (logged (log s))) = n" using distinct_card [OF l(2)] t by simp
  show "\<not> in_log (log s) (lh_block (log s) ! t)" if "t < n"
    using assms that by (simp add: commit_ready_def Let_def t)
qed (use assms in \<open>auto simp: commit_ready_def Let_def logged_def\<close>)

lemma slot_not_logged:
  assumes "commit_ready s V" and "t < NBUF"
  shows "log_slot (log s) t \<notin> set (logged (log s))"
proof
  assume "log_slot (log s) t \<in> set (logged (log s))"
  then obtain i where "i < nat (lh_n (log s))" "log_slot (log s) t = lh_block (log s) ! i"
    unfolding commit_readyD(7) [OF assms(1)] by auto
  then show False using log_slot_in [of t "log s"] commit_readyD(9) [OF assms(1), of i] assms(2) by simp
qed

lemma start_not_logged:
  assumes "commit_ready s V"
  shows "start (log s) \<notin> set (logged (log s))"
proof
  assume "start (log s) \<in> set (logged (log s))"
  then obtain i where "i < nat (lh_n (log s))" "start (log s) = lh_block (log s) ! i"
    unfolding commit_readyD(7) [OF assms(1)] by auto
  then show False using commit_readyD(9) [OF assms(1), of i] by (metis in_log_def cancel_comm_monoid_add_class.diff_cancel word_zero_le)
qed

lemma commit_log:
  assumes "commit_ready s V" and "k \<le> nat (lh_n (log s))"
  defines "l \<equiv> log s" and "P \<equiv> \<lambda>m. if m \<in> set (logged (log s)) then 1 else 0"
  shows "\<exists>s'. write_log_loop k 0 s = Ret ((), s') \<and> bio_frame s s' \<and>
     cache_abs s' (cst (to_log l [0..<k] V V) (to_log l [0..<k] V (disk s)) P {})"
proof -
  note r = commit_readyD [OF assms(1)]
  have "{m. 0 < P m} = set (logged (log s))" by (auto simp: P_def)
  then have card: "card {m. 0 < P m} < NBUF" using r(4,8) by simp
  have "P (log_slot l t) = 0 \<and> P (lh_block l ! t) = 1" if "t < k" for t
    using slot_not_logged [OF assms(1), of t] that assms(2) r(4,7) by (simp add: P_def l_def)
  then show ?thesis
    using write_log_loop_abs [OF r(1) card [unfolded P_def] r(2), of 0 k] unfolding P_def l_def by simp
qed

text \<open>Contents and disk when the header has been written.\<close>

definition with_log :: "logst \<Rightarrow> (u32 \<Rightarrow> u8 list) \<Rightarrow> (u32 \<Rightarrow> u8 list) \<Rightarrow> (u32 \<Rightarrow> u8 list) \<Rightarrow> u32 \<Rightarrow> u8 list" where
  "with_log l V D E = (to_log l [0..<nat (lh_n l)] V E)(start l := head_block l (D (start l)))"

lemma commit_head:
  assumes "commit_ready s V"
  defines "l \<equiv> log s" and "P \<equiv> \<lambda>m. if m \<in> set (logged (log s)) then 1 else 0"
  shows "\<exists>s'. kseq write_log (kseq write_head K) s = K s' \<and> bio_frame s s' \<and>
     cache_abs s' (cst (with_log l V (disk s) V) (with_log l V (disk s) (disk s)) P {})"
proof -
  note r = commit_readyD [OF assms(1)]
  let ?n = "nat (lh_n l)"
  obtain s1 where 1: "write_log_loop ?n 0 s = Ret ((), s1)" "bio_frame s s1"
    "cache_abs s1 (cst (to_log l [0..<?n] V V) (to_log l [0..<?n] V (disk s)) P {})"
    using commit_log [OF assms(1) order.refl] unfolding P_def l_def by blast
  have "{m. 0 < P m} = set (logged (log s))" by (auto simp: P_def)
  then have card: "card {m. 0 < P m} < NBUF" using r(4,8) by simp
  have "P (start l) = 0" using start_not_logged [OF assms(1)] by (simp add: P_def l_def)
  moreover have "log s1 = l" using 1(2) by (simp add: l_def)
  moreover have "to_log l [0..<?n] V V (start l) = disk s (start l)"
  proof -
    have "log_slot l t \<noteq> start l" if "t < ?n" for t using log_slot_start [of t l] r(4) that by (simp add: l_def)
    then have "start l \<notin> log_slot l ` set [0..<?n]" unfolding set_upt image_iff by (metis atLeastLessThan_iff)
    then have "to_log l [0..<?n] V V (start l) = V (start l)" by (rule to_log_other)
    then show ?thesis using bc.clean [OF r(1), of "start l"] \<open>P (start l) = 0\<close> by (simp add: P_def)
  qed
  ultimately obtain s2 where 2: "write_head s1 = Ret ((), s2)" "bio_frame s1 s2"
    "cache_abs s2 (cst (with_log l V (disk s) V) (with_log l V (disk s) (disk s)) P {})"
    using write_head_abs [OF 1(3) card] r(2) unfolding with_log_def l_def by auto
  have "kseq write_log (kseq write_head K) s = K s2" using 1(1) 2(1) by (simp add: write_log_def l_def)
  then show ?thesis using 2(2,3) bio_frame_trans [OF 1(2)] by blast
qed

lemma commit_install:
  assumes "commit_ready s V" and "k \<le> nat (lh_n (log s))"
  defines "l \<equiv> log s"
  defines "V' \<equiv> with_log l V (disk s) V" and "D' \<equiv> with_log l V (disk s) (disk s)"
  shows "\<exists>s'. commit_until (In_install k) s = Ret ((), s') \<and> bio_frame s s' \<and>
     cache_abs s' (cst (to_home l [0..<k] V' V') (to_home l [0..<k] V' D')
       (\<lambda>m. if m \<in> (!) (lh_block l) ` {0..<k} then 0 else if m \<in> set (logged l) then 1 else 0) {})"
proof -
  note r = commit_readyD [OF assms(1)]
  let ?P = "\<lambda>m. if m \<in> set (logged (log s)) then 1 else (0::nat)"
  obtain s1 where 1: "kseq write_log (kseq write_head (install_loop k 0 False)) s = install_loop k 0 False s1" "bio_frame s s1"
    "cache_abs s1 (cst V' D' ?P {})"
    using commit_head [OF assms(1)] unfolding V'_def D'_def l_def by blast
  have l1: "log s1 = log s" using 1(2) by simp
  have "{m. 0 < ?P m} = set (logged (log s))" by auto
  then have card: "card {m. 0 < ?P m} + 1 \<le> NBUF" using r(4,8) by simp
  have ne: "log_slot l t \<noteq> lh_block l ! t'" if "t < nat (lh_n (log s))" "t' < nat (lh_n (log s))" for t t'
    using log_slot_in [of t l] r(4) r(9) [OF that(2)] that(1) unfolding l_def by fastforce
  have "distinct (map ((!) (lh_block l)) [0..<k])"
    using r(6) assms(2) unfolding l_def distinct_map by (auto simp: inj_on_def)
  moreover have "?P (lh_block l ! t) = 1" "?P (log_slot l t) = 0" if "t < k" for t
    using slot_not_logged [OF assms(1), of t] that assms(2) r(4,7) by (simp_all add: l_def)
  ultimately show ?thesis
    using install_loop_abs [OF 1(3), of 0 k False] r(2) ne assms(2) card bio_frame_trans [OF 1(2)] 1(1)
    unfolding l1 l_def by auto
qed

lemma slots_distinct: "n < NBUF \<Longrightarrow> distinct (map (log_slot l) [0..<n])"
  by (auto simp: distinct_map inj_on_def dest: log_slot_inj)

lemma with_log_at:
  assumes "commit_ready s V"
  defines "l \<equiv> log s"
  shows "t < nat (lh_n l) \<Longrightarrow> with_log l V (disk s) E (log_slot l t) = V (lh_block l ! t)"
    and "with_log l V (disk s) E (start l) = head_block l (disk s (start l))"
    and "\<not> in_log l m \<Longrightarrow> with_log l V (disk s) E m = E m"
proof -
  note r = commit_readyD [OF assms(1), folded l_def]
  show "with_log l V (disk s) E (log_slot l t) = V (lh_block l ! t)" if "t < nat (lh_n l)"
    using that r(4) log_slot_start [of t l] to_log_at [OF slots_distinct [OF r(4)], where t = t and V = V and D = E]
    by (simp add: with_log_def)
  show "with_log l V (disk s) E m = E m" if "\<not> in_log l m"
  proof -
    have "m \<notin> log_slot l ` set [0..<nat (lh_n l)]" using that log_slot_in [of _ l] r(4) by auto
    moreover have "m \<noteq> start l" using that by (auto simp: in_log_def)
    ultimately show ?thesis by (simp add: with_log_def to_log_other)
  qed
qed (simp add: with_log_def)

text \<open>The disk while the transaction is being installed.\<close>

lemma installing:
  assumes "commit_ready s V" and "k \<le> nat (lh_n (log s))"
  defines "l \<equiv> log s"
  defines "E \<equiv> to_home l [0..<k] (with_log l V (disk s) V) (with_log l V (disk s) (disk s))"
  shows "t < nat (lh_n l) \<Longrightarrow> E (log_slot l t) = V (lh_block l ! t)"
    and "E (start l) = head_block l (disk s (start l))"
    and "\<not> in_log l m \<Longrightarrow> E m = (if m \<in> (!) (lh_block l) ` {0..<k} then V m else disk s m)"
proof -
  note r = commit_readyD [OF assms(1), folded l_def] and w = with_log_at [OF assms(1), folded l_def]
  have sub: "(!) (lh_block l) ` {0..<k} \<subseteq> set (logged l)" using assms(2) r(7) by (auto simp: l_def)
  have "E (log_slot l t) = with_log l V (disk s) (disk s) (log_slot l t)" if "t < nat (lh_n l)" for t
    unfolding E_def using slot_not_logged [OF assms(1), of t] sub that r(4) by (intro to_home_other) (auto simp: l_def)
  then show "E (log_slot l t) = V (lh_block l ! t)" if "t < nat (lh_n l)" using w(1) that by simp
  have "E (start l) = with_log l V (disk s) (disk s) (start l)"
    unfolding E_def using start_not_logged [OF assms(1)] sub by (intro to_home_other) (auto simp: l_def)
  then show "E (start l) = head_block l (disk s (start l))" using w(2) by simp
  show "E m = (if m \<in> (!) (lh_block l) ` {0..<k} then V m else disk s m)" if m: "\<not> in_log l m"
  proof (cases "m \<in> (!) (lh_block l) ` {0..<k}")
    case True
    then obtain t where t: "t < k" "m = lh_block l ! t" by auto
    have "distinct (map ((!) (lh_block l)) [0..<k])"
      using r(6) assms(2) unfolding l_def distinct_map by (auto simp: inj_on_def)
    then have "E m = with_log l V (disk s) V (log_slot l t)" unfolding E_def t(2) using t(1) by (intro to_home_at) simp_all
    then show ?thesis using w(1) [of t] t True assms(2) by (simp add: l_def)
  next
    case False
    then show ?thesis unfolding E_def using to_home_other [of m l "[0..<k]"] w(3) [OF m] by simp
  qed
qed

lemma unlogged_clean:
  assumes "commit_ready s V" and "m \<notin> set (logged (log s))"
  shows "V m = disk s m"
  using bc.clean [OF commit_readyD(1) [OF assms(1)], of m] assms(2) by simp

lemma commit_over:
  assumes "commit_ready s V"
  defines "l \<equiv> log s"
  defines "E \<equiv> \<lambda>D. to_home l [0..<nat (lh_n l)] (with_log l V (disk s) V) (with_log l V (disk s) D)"
  shows "\<exists>s' h. commit s = Ret ((), s') \<and> log s' = l\<lparr>lh_n := 0\<rparr> \<and> get32 h 0 = 0 \<and>
     cache_abs s' (cst ((E V)(start l := h)) ((E (disk s))(start l := h)) (\<lambda>_. 0) {})"
proof -
  note r = commit_readyD [OF assms(1), folded l_def]
  let ?n = "nat (lh_n l)"
  have z: "(\<lambda>m. if m \<in> (!) (lh_block l) ` {0..<?n} then 0 else if m \<in> set (logged l) then 1 else 0) = ((\<lambda>_. 0) :: u32 \<Rightarrow> nat)"
    using r(7) by auto
  obtain s1 where 1: "commit_until (In_install ?n) s = Ret ((), s1)" "bio_frame s s1"
    "cache_abs s1 (cst (E V) (E (disk s)) (\<lambda>_. 0) {})"
    using commit_install [OF assms(1) order.refl] unfolding E_def l_def [symmetric] z by blast
  define s2 where "s2 = s1\<lparr>log := l\<lparr>lh_n := 0\<rparr>\<rparr>"
  have 2: "cache_abs s2 (cst (E V) (E (disk s)) (\<lambda>_. 0) {})" "log s2 = l\<lparr>lh_n := 0\<rparr>" using 1(3) by (simp_all add: s2_def)
  let ?h = "head_block (log s2) (E V (start l))"
  obtain s3 where 3: "write_head s2 = Ret ((), s3)" "bio_frame s2 s3"
    "cache_abs s3 (cst ((E V)(start l := ?h)) ((E (disk s))(start l := ?h)) (\<lambda>_. 0) {})"
  proof -
    have "card {m::u32. 0 < (0::nat)} < NBUF" "ldev (log s2) = ROOTDEV" "start (log s2) = start l" using 2(2) r(2) by simp_all
    from write_head_abs [OF 2(1) this(1,2) refl, unfolded this(3)] that show ?thesis by blast
  qed
  obtain s0 where 0: "write_log s = Ret ((), s0)" "kseq write_head (install_loop ?n 0 False) s0 = Ret ((), s1)"
    using 1(1) by (auto simp: kseq_Ret_iff)
  then obtain s01 where 01: "write_head s0 = Ret ((), s01)" "install_loop ?n 0 False s01 = Ret ((), s1)"
    by (auto simp: kseq_Ret_iff)
  obtain s0' where "kseq write_log (kseq write_head (kmod (\<lambda>s. s))) s = Ret ((), s0')" "bio_frame s s0'"
    using commit_head [OF assms(1), of "kmod (\<lambda>s. s)"] by auto
  then have "log s01 = l" using 0(1) 01(1) by (simp add: l_def)
  then have "install_trans False s01 = Ret ((), s1)" using 01(2) by (simp add: install_trans_def)
  then have "commit s = Ret ((), s3)"
    using 0(1) 01(1) 3(1) r(3) 1(2) by (simp add: commit_def lmod_def s2_def l_def)
  moreover have "log s3 = l\<lparr>lh_n := 0\<rparr>" using 3(2) 2(2) by simp
  moreover have "E V (start l) = with_log l V (disk s) V (start l)"
    unfolding E_def using start_not_logged [OF assms(1)] r(7) by (intro to_home_other) (simp add: l_def)
  then have "length (E V (start l)) = BSIZE"
    using with_log_at(2) [OF assms(1), folded l_def] head_block_codec(1) [OF r(10), of l] r(3-5) by simp
  then have "get32 ?h 0 = 0" unfolding 2(2) by (simp add: head_block_def get32_put32)
  ultimately show ?thesis using 3(3) by blast
qed

text \<open>Recovery from the three kinds of crash.\<close>

lemma recover_in_log:
  assumes "commit_ready s V" and "k \<le> nat (lh_n (log s))" and "zeroed s0" and "disk s0 = to_log (log s) [0..<k] V (disk s)"
  shows "\<exists>s2. kseq binit (initlog ROOTDEV (start (log s)) nl) s0 = Ret ((), s2) \<and> lh_n (log s2) = 0 \<and>
    (\<forall>m. \<not> in_log (log s) m \<longrightarrow> disk s2 m = disk s m)"
proof -
  note r = commit_readyD [OF assms(1)]
  have other: "disk s0 m = disk s m" if "\<not> in_log (log s) m \<or> m = start (log s)" for m
  proof -
    have "m \<noteq> log_slot (log s) t" if "t < k" for t
      using \<open>_ \<or> _\<close> that assms(2) r(4) log_slot_in [of t "log s"] log_slot_start [of t "log s"] by auto
    then have "m \<notin> log_slot (log s) ` set [0..<k]" unfolding set_upt image_iff by (metis atLeastLessThan_iff)
    then show ?thesis unfolding assms(4) by (rule to_log_other)
  qed
  have "disk s0 (start (log s)) = disk s (start (log s))" using other by simp
  then have "nat (sint (get32 (disk s0 (start (log s))) 0)) = 0" "0 \<le> sint (get32 (disk s0 (start (log s))) 0)"
    using r(11) by simp_all
  from recovery [OF assms(3) refl this(1) _ this(2), of nl] show ?thesis using other by (auto simp: to_home_def)
qed

lemma recover_in_install:
  assumes "commit_ready s V" and "k \<le> nat (lh_n (log s))" and "zeroed s0"
    and "disk s0 = to_home (log s) [0..<k] (with_log (log s) V (disk s) V) (with_log (log s) V (disk s) (disk s))"
  shows "\<exists>s2. kseq binit (initlog ROOTDEV (start (log s)) nl) s0 = Ret ((), s2) \<and> lh_n (log s2) = 0 \<and>
    (\<forall>m. \<not> in_log (log s) m \<longrightarrow> disk s2 m = V m)"
proof -
  note r = commit_readyD [OF assms(1)] and e = installing [OF assms(1,2), folded assms(4)]
  let ?n = "nat (lh_n (log s))" and ?D = "disk s0"
  note h = head_block_codec [OF r(10), of "log s", folded e(2)]
  have "nat (sint (get32 (?D (start (log s))) 0)) = ?n" "?n \<le> LOGSIZE" "0 \<le> sint (get32 (?D (start (log s))) 0)"
    using h(2) r(3-5) by simp_all
  from recovery [OF assms(3) refl this, of nl] h(3) r(3-5,9) obtain s2 where
    2: "kseq binit (initlog ROOTDEV (start (log s)) nl) s0 = Ret ((), s2)" "lh_n (log s2) = 0"
      "\<And>m. \<not> in_log (log s) m \<Longrightarrow> disk s2 m = to_home (log s) [0..<?n] ?D ?D m" by auto
  have "to_home (log s) [0..<?n] ?D ?D m = V m" if m: "\<not> in_log (log s) m" for m
  proof (cases "m \<in> set (logged (log s))")
    case True
    then obtain t where "t < ?n" "m = lh_block (log s) ! t" unfolding r(7) by auto
    then show ?thesis using to_home_at [OF r(6), of t] e(1) by simp
  next
    case False
    then have "to_home (log s) [0..<?n] ?D ?D m = ?D m" unfolding r(7) by (intro to_home_other) simp
    then show ?thesis using e(3) [OF m] unlogged_clean [OF assms(1) False] by simp
  qed
  then show ?thesis using 2 by auto
qed

lemma recover_over:
  assumes "commit_ready s V" and "zeroed s0" and "get32 h 0 = 0"
    and "disk s0 = (to_home (log s) [0..<nat (lh_n (log s))] (with_log (log s) V (disk s) V) (with_log (log s) V (disk s) (disk s)))(start (log s) := h)"
  shows "\<exists>s2. kseq binit (initlog ROOTDEV (start (log s)) nl) s0 = Ret ((), s2) \<and> lh_n (log s2) = 0 \<and>
    (\<forall>m. \<not> in_log (log s) m \<longrightarrow> disk s2 m = V m)"
proof -
  note r = commit_readyD [OF assms(1)] and e = installing [OF assms(1) order.refl]
  have "nat (sint (get32 (disk s0 (start (log s))) 0)) = 0" "0 \<le> sint (get32 (disk s0 (start (log s))) 0)"
    using assms(3,4) by simp_all
  from recovery [OF assms(2) refl this(1) _ this(2), of nl] obtain s2 where
    2: "kseq binit (initlog ROOTDEV (start (log s)) nl) s0 = Ret ((), s2)" "lh_n (log s2) = 0"
      "\<And>m. \<not> in_log (log s) m \<Longrightarrow> disk s2 m = disk s0 m" by (auto simp: to_home_def)
  have "disk s0 m = V m" if "\<not> in_log (log s) m" for m
  proof -
    have "m \<noteq> start (log s)" using that by (auto simp: in_log_def)
    then show ?thesis using e(3) [OF that] unlogged_clean [OF assms(1), of m] unfolding assms(4) r(7) by auto
  qed
  then show ?thesis using 2 by auto
qed

section \<open>Recording a block\<close>

lemma log_write_eq:
  assumes "length (lh_block (log s)) = LOGSIZE" and "0 \<le> lh_n (log s)" and "b < length (bufs s)"
  defines "n \<equiv> blockno (bufs s ! b)" and "l \<equiv> log s"
  shows "log_write b s =
     (if lh_n l \<ge> int LOGSIZE \<or> lh_n l \<ge> sint (lsize l) - 1 then Panic ''too big a transaction''
      else if outstanding l < 1 then Panic ''log_write outside of trans''
      else if n \<in> set (logged l) then Ret ((), s)
      else kseq (bpin b) (lmod (\<lambda>l. l\<lparr>lh_n := lh_n l + 1, lh_block := (lh_block l)[nat (lh_n l) := n]\<rparr>)) s)"
proof (cases "find_idx (\<lambda>x. x = n) (logged l)")
  case None
  then have "n \<notin> set (logged l)" by (auto simp: find_idx_None)
  then show ?thesis using None assms(2,3)
    by (simp add: log_write_def bfld_def n_def l_def logged_def Let_def lmod_def bpin_def bmod_def)
next
  case (Some i)
  note f = find_idx_SomeD [OF Some]
  have i: "i < nat (lh_n l)" "lh_block l ! i = n" using f(1,2) by (simp_all add: logged_def)
  then have upd: "(lh_block l)[i := n] = lh_block l" by (metis list_update_id)
  have "n \<in> set (logged l)" using f(1,2) by (metis nth_mem)
  moreover have "int i \<noteq> lh_n l" using i(1) by simp
  moreover have "find_idx (\<lambda>x. x = n) (take (nat (lh_n l)) (lh_block l)) = Some i" using Some by (simp add: logged_def)
  moreover have "s\<lparr>log := l\<lparr>lh_block := (lh_block l)[i := n]\<rparr>\<rparr> = s" using upd by (simp add: l_def)
  ultimately show ?thesis
    unfolding log_write_def l_def [symmetric] bfld_def lmod_def by (simp add: n_def [symmetric] l_def [symmetric])
qed

lemma logged_snoc:
  assumes "length (lh_block l) = LOGSIZE" and "0 \<le> lh_n l" and "lh_n l < int LOGSIZE"
  shows "logged (l\<lparr>lh_n := lh_n l + 1, lh_block := (lh_block l)[nat (lh_n l) := n]\<rparr>) = logged l @ [n]"
proof -
  have "nat (lh_n l + 1) = Suc (nat (lh_n l))" "nat (lh_n l) < length (lh_block l)" using assms by simp_all
  then show ?thesis by (simp add: logged_def take_Suc_conv_app_nth take_update_cancel)
qed

lemma log_write_abs:
  assumes "cache_abs s (cst V D P K)" and "cached s n b" and "n \<in> K" and "Suc (P n) < 2 ^ 32"
    and "length (lh_block (log s)) = LOGSIZE" and "0 \<le> lh_n (log s)" and "lh_n (log s) < int LOGSIZE"
    and "lh_n (log s) < sint (lsize (log s)) - 1" and "1 \<le> outstanding (log s)" and "n \<notin> set (logged (log s))"
  shows "\<exists>s'. log_write b s = Ret ((), s') \<and> cache_abs s' (cst V D (P(n := Suc (P n))) K) \<and> cached s' n b \<and>
     log s' = (log s)\<lparr>lh_n := lh_n (log s) + 1, lh_block := (lh_block (log s))[nat (lh_n (log s)) := n]\<rparr>"
proof -
  note k = locked_buf [OF assms(1,2)]
  have b: "b < length (bufs s)" "blockno (bufs s ! b) = n"
    using assms(2) cache_absD(1) [OF assms(1)] by (auto simp: cached_def lru_def)
  obtain s1 where 1: "bpin b s = Ret ((), s1)" "cache_abs s1 (cst V D (P(n := Suc (P n))) K)" "bio_frame s s1" "cached s1 n b"
    using bpin_abs [OF assms(1,2)] assms(2-4) by auto
  have "cached (s1\<lparr>log := l\<rparr>) n b" for l using 1(4) by (simp add: cached_def)
  then show ?thesis using log_write_eq [OF assms(5,6) b(1)] 1 b(2) assms(7-10) by (simp add: lmod_def)
qed

text \<open>A transaction that writes one block of the demonstration state.\<close>

definition demo_txn :: "(ktrap, unit) kop" where
  "demo_txn = kseq binit (kseq begin_op (kbind (bread ROOTDEV 100) (\<lambda>b.
     kseq (bupd b (\<lambda>_. replicate 1024 7)) (kseq (log_write b) (brelse b)))))"

lemma demo_zeroed: "zeroed (demo_k\<lparr>disk := d\<rparr>)"
  by (simp add: zeroed_def zero_bufs_def demo_k_def demo_buf_def)

lemma demo_txn_ready:
  "\<exists>s V. demo_txn demo_k = Ret ((), s) \<and> commit_ready s V \<and> V 100 = replicate 1024 7 \<and> start (log s) = 2 \<and> lh_n (log s) = 1"
proof -
  let ?D = "\<lambda>_. replicate 1024 0 :: u8 list" and ?Z = "(\<lambda>_. 0) :: u32 \<Rightarrow> nat"
  let ?V = "?D(100 := replicate 1024 7)"
  have "zero_bufs demo_k" using demo_zeroed [of "disk demo_k"] by (simp add: zeroed_def)
  from binit_abs [OF this] obtain s0 where 0: "binit demo_k = Ret ((), s0)" "bio_frame demo_k s0" "cache_abs s0 (cst ?D ?D ?Z {})"
    by (auto simp: demo_k_def)
  have l0: "log s0 = log demo_k" using 0(2) by simp
  define s1 where "s1 = s0\<lparr>log := (log s0)\<lparr>outstanding := 1\<rparr>\<rparr>"
  have b: "begin_op s0 = Ret ((), s1)" unfolding s1_def l0 by (simp add: begin_op_def l0 demo_k_def lmod_def)
  have 1: "cache_abs s1 (cst ?D ?D ?Z {})" using 0(3) by (simp add: s1_def)
  from bc.rd [OF this, of 100] obtain bb s2 where 2: "bread ROOTDEV 100 s1 = Ret (bb, s2)" "cache_abs s2 (cst ?D ?D (?Z(100 := 1)) {100})"
    "cached s2 100 bb" "bio_frame s1 s2" by auto
  from bc.upd [OF 2(2,3), of "\<lambda>_. replicate 1024 7"] 2(3) obtain s3 where 3: "bupd bb (\<lambda>_. replicate 1024 7) s2 = Ret ((), s3)"
    "cache_abs s3 (cst ?V ?D (?Z(100 := 1)) {100})" "cached s3 100 bb" "bio_frame s2 s3" by auto
  have l3: "log s3 = (log demo_k)\<lparr>outstanding := 1\<rparr>" using 2(4) 3(4) l0 by (simp add: s1_def)
  have pre: "length (lh_block (log s3)) = LOGSIZE" "0 \<le> lh_n (log s3)" "lh_n (log s3) < int LOGSIZE" "lh_n (log s3) < sint (lsize (log s3)) - 1"
    "1 \<le> outstanding (log s3)" "100 \<notin> set (logged (log s3))" "Suc ((?Z(100 := 1)) 100) < 2 ^ 32" "100 \<in> {100 :: u32}"
    unfolding l3 by (simp_all add: demo_k_def logged_def)
  have z2: "(?Z(100 := 1))(100 := Suc ((?Z(100 := 1)) 100)) = ?Z(100 := 2)" by (simp add: fun_eq_iff)
  from log_write_abs [OF 3(2,3) pre(8,7,1-6), unfolded z2] obtain s4 where 4: "log_write bb s3 = Ret ((), s4)" "cache_abs s4 (cst ?V ?D (?Z(100 := 2)) {100})"
    "cached s4 100 bb" "log s4 = (log s3)\<lparr>lh_n := lh_n (log s3) + 1, lh_block := (lh_block (log s3))[nat (lh_n (log s3)) := 100]\<rparr>"
    by blast
  from bc.rls [OF 4(2,3)] obtain s5 where 5: "brelse bb s4 = Ret ((), s5)" "cache_abs s5 (cst ?V ?D (?Z(100 := 1)) {})" "bio_frame s4 s5" by auto
  have l5: "log s5 = \<lparr>start = 2, lsize = 30, outstanding = 1, committing = False, ldev = 1, lh_n = 1, lh_block = (replicate 30 0)[0 := 100]\<rparr>"
    using 5(3) 4(4) unfolding l3 by (simp add: demo_k_def)
  have lg: "logged (log s5) = [100]" unfolding l5 by (simp add: logged_def take_Suc hd_conv_nth)
  have P: "?Z(100 := 1) = (\<lambda>n. if n \<in> set (logged (log s5)) then 1 else 0)" unfolding lg by auto
  have d5: "disk s5 = ?D" using cache_absD(2) [OF 5(2)] by simp
  have "get32 (replicate 1024 0) 0 = 0" by (simp add: get32_def)
  then have "commit_ready s5 ?V"
    unfolding commit_ready_def Let_def using 5(2) unfolding P d5 lg by (simp add: l5 in_log_def)
  moreover have "demo_txn demo_k = Ret ((), s5)" using 0(1) b 2(1) 3(1) 4(1) 5(1) by (simp add: demo_txn_def)
  ultimately show ?thesis using l5 by (intro exI [of _ s5] exI [of _ ?V]) simp
qed

section \<open>Properties\<close>



text \<open>
  Property C30. \<open>log_write\<close> records a block once: it panics exactly when the transaction is too big or
  there is none, absorbs a block that is already in the transaction without changing anything, and
  otherwise appends the block and takes one reference to its buffer.
\<close>

theorem log_write_absorbs:
  assumes "length (lh_block (log s)) = LOGSIZE" and "0 \<le> lh_n (log s)" and "b < length (bufs s)"
  shows "if lh_n (log s) \<ge> int LOGSIZE \<or> lh_n (log s) \<ge> sint (lsize (log s)) - 1 then log_write b s = Panic ''too big a transaction''
     else if outstanding (log s) < 1 then log_write b s = Panic ''log_write outside of trans''
     else if blockno (bufs s ! b) \<in> set (logged (log s)) then log_write b s = Ret ((), s)
     else \<exists>s'. log_write b s = Ret ((), s') \<and> logged (log s') = logged (log s) @ [blockno (bufs s ! b)] \<and>
       bufs s' = (bufs s)[b := (bufs s ! b)\<lparr>refcnt := refcnt (bufs s ! b) + 1\<rparr>] \<and> disk s' = disk s"
  unfolding log_write_eq [OF assms]
  using logged_snoc [OF assms(1,2), of "blockno (bufs s ! b)"] by (simp add: bpin_def bmod_def lmod_def)

theorem log_write_absorbs_witness:
  "\<exists>s'. log_write 3 (demo_k\<lparr>log := (log demo_k)\<lparr>outstanding := 1\<rparr>\<rparr>) = Ret ((), s') \<and> logged (log s') = [0] \<and>
     refcnt (bufs s' ! 3) = 1"
  using log_write_absorbs [of "demo_k\<lparr>log := (log demo_k)\<lparr>outstanding := 1\<rparr>\<rparr>" 3]
  by (auto simp: demo_k_def demo_buf_def logged_def)

text \<open>
  Property C31. The reservation of \<open>begin_op\<close> is one block too large for the log \<open>mkfs\<close> makes (30 blocks,
  one of them the header): three operations are admitted to an empty log, which reserves 30 blocks
  for them, and the fourth has to wait; but when they have recorded 29 blocks between them,
  recording any further block panics although none of them has exceeded \<open>MAXOPBLOCKS\<close>.
\<close>

theorem log_reservation_short:
  fixes s :: "'s klog_scheme"
  assumes "\<not> committing (log s)" and "outstanding (log s) = 0" and "lh_n (log s) = 0" and "lsize (log s) = of_nat LOGSIZE"
  shows "\<exists>s3. kseq begin_op (kseq begin_op begin_op) s = Ret ((), s3) \<and> outstanding (log s3) * int MAXOPBLOCKS = int LOGSIZE \<and>
    begin_op s3 = Blocked Chan_log \<and>
    (\<forall>(t :: 's klog_scheme) b. lsize (log t) = lsize (log s3) \<longrightarrow> lh_n (log t) = outstanding (log s3) * int MAXOPBLOCKS - 1 \<longrightarrow>
       log_write b t = Panic ''too big a transaction'')"
proof -
  let ?s3 = "s\<lparr>log := (log s)\<lparr>outstanding := 3\<rparr>\<rparr>"
  have "kseq begin_op (kseq begin_op begin_op) s = Ret ((), ?s3)"
    using assms by (simp add: begin_op_def lmod_def)
  moreover have "begin_op ?s3 = Blocked Chan_log" using assms by (simp add: begin_op_def)
  moreover have "log_write b t = Panic ''too big a transaction''" if "lsize (log t) = 30" "lh_n (log t) = 29" for t :: "'s klog_scheme" and b
    using that by (simp add: log_write_def)
  ultimately show ?thesis using assms(4) by (intro exI [of _ ?s3]) simp
qed

theorem log_reservation_short_witness:
  "\<exists>s3. kseq begin_op (kseq begin_op begin_op) demo_k = Ret ((), s3) \<and> begin_op s3 = Blocked Chan_log"
  using log_reservation_short [of demo_k] by (auto simp: demo_k_def)

end
