(* ===== verification/Virtio_Props.thy ===== *)
theory Virtio_Props
  imports Demo Ring
begin

text \<open>
  Disk requests from several processes at once. The steps are the driver's operations, each under
  \<open>vdisk_lock\<close>, and those of the device, which reads the available ring in order and completes what it
  has read in any order. A process between the two halves of \<open>virtio_disk_rw\<close> is a request: its
  buffer, its array \<open>idx\<close>, and the contents that the transfer has to move.
\<close>

interpretation vr: ring 8 "TYPE(16)"
  by unfold_locales simp_all

section \<open>Definitions\<close>

record vreq =
  q_buf :: nat
  q_idx :: "nat list"
  q_write :: bool
  q_val :: "u8 list"

text \<open>\<open>dev_idx\<close> and \<open>pool\<close> are the device's own: how far it has read the available ring, and what it is working on.\<close>

record vsys =
  vs :: ktrap
  reqs :: "vreq list"
  dev_idx :: u16
  pool :: "nat list"

definition blk_of :: "buf list \<Rightarrow> vreq \<Rightarrow> u32" where
  "blk_of B r = blockno (B ! q_buf r)"

definition new_req :: "ktrap \<Rightarrow> nat \<Rightarrow> bool \<Rightarrow> nat list \<Rightarrow> vreq" where
  "new_req s b write idx = \<lparr>q_buf = b, q_idx = idx, q_write = write,
     q_val = (if write then bdata (bufs s ! b) else disk s (blockno (bufs s ! b)))\<rparr>"

text \<open>
  A process submits a request for a buffer that is locked for it alone: no other request is about this
  buffer or this block. The block number fits 31 bits, so its sector number fits 32.
\<close>

definition may_submit :: "vsys \<Rightarrow> nat \<Rightarrow> bool" where
  "may_submit S b \<longleftrightarrow> b < length (bufs (vs S)) \<and> unat (blockno (bufs (vs S) ! b)) < 2 ^ 31 \<and>
     (\<forall>r \<in> set (reqs S). q_buf r \<noteq> b \<and> blk_of (bufs (vs S)) r \<noteq> blockno (bufs (vs S) ! b))"

inductive vd_step :: "vsys \<Rightarrow> vsys \<Rightarrow> bool" where
  submit: "may_submit S b \<Longrightarrow> virtio_disk_submit b write (vs S) = Ret (idx, s') \<Longrightarrow>
     vd_step S (S\<lparr>vs := s', reqs := new_req (vs S) b write idx # reqs S\<rparr>)"
| fetch: "dev_idx S \<noteq> avail_idx (vd (vs S)) \<Longrightarrow>
     vd_step S (S\<lparr>dev_idx := dev_idx S + 1, pool := unat (avail_ring (vd (vs S)) ! slot NUM (dev_idx S)) # pool S\<rparr>)"
| complete: "i0 \<in> set (pool S) \<Longrightarrow> vd_step S (S\<lparr>vs := vd_device i0 (vs S), pool := remove1 i0 (pool S)\<rparr>)"
| interrupt: "virtio_disk_intr (vs S) = Ret ((), s') \<Longrightarrow> vd_step S (S\<lparr>vs := s'\<rparr>)"
| finish: "r \<in> set (reqs S) \<Longrightarrow> virtio_disk_finish (q_buf r) (q_idx r ! 0) (vs S) = Ret ((), s') \<Longrightarrow>
     vd_step S (S\<lparr>vs := s', reqs := remove1 r (reqs S)\<rparr>)"

inductive_cases vd_stepE: "vd_step S S'"

section \<open>Invariant\<close>

definition vd_shape :: "vdisk \<Rightarrow> bool" where
  "vd_shape v \<longleftrightarrow> length (desc v) = 8 \<and> length (avail_ring v) = 8 \<and> length (used_ring v) = 8 \<and> length (vfree v) = 8 \<and>
     length (info_b v) = 8 \<and> length (info_status v) = 8 \<and> length (vops v) = 8"

abbreviation head :: "vreq \<Rightarrow> nat" where
  "head r \<equiv> q_idx r ! 0"

text \<open>The chain of three descriptors of a request, as \<open>format_request\<close> makes it.\<close>

definition chain_ok :: "vdisk \<Rightarrow> buf list \<Rightarrow> vreq \<Rightarrow> bool" where
  "chain_ok v B r \<longleftrightarrow>
     (let d0 = desc v ! (q_idx r ! 0); d1 = desc v ! (q_idx r ! 1); d2 = desc v ! (q_idx r ! 2) in
      daddr d0 = DmaOp (head r) \<and> dflags d0 AND 1 \<noteq> 0 \<and> unat (dnext d0) = q_idx r ! 1 \<and>
      daddr d1 = DmaData (q_buf r) \<and> dflags d1 AND 1 \<noteq> 0 \<and> unat (dnext d1) = q_idx r ! 2 \<and>
      daddr d2 = DmaStatus (head r) \<and> dflags d2 AND 1 = 0 \<and>
      rtype (vops v ! head r) = (if q_write r then 1 else 0) \<and>
      ucast (rsector (vops v ! head r) div 2) = blk_of B r \<and> info_b v ! head r = Some (q_buf r))"

text \<open>Every descriptor that is in use belongs to one request.\<close>

definition own_ok :: "vdisk \<Rightarrow> vreq list \<Rightarrow> bool" where
  "own_ok v rs \<longleftrightarrow> (\<forall>r \<in> set rs. length (q_idx r) = 3) \<and> distinct (concat (map q_idx rs)) \<and>
     set (concat (map q_idx rs)) = {i. i < 8 \<and> \<not> vfree v ! i}"

definition bufs_ok :: "buf list \<Rightarrow> vreq list \<Rightarrow> bool" where
  "bufs_ok B rs \<longleftrightarrow> distinct (map q_buf rs) \<and> distinct (map (blk_of B) rs) \<and> (\<forall>r \<in> set rs. q_buf r < length B)"

definition busy :: "buf list \<Rightarrow> vreq \<Rightarrow> bool" where
  "busy B r \<longleftrightarrow> diskf (B ! q_buf r)"

text \<open>Heads waiting in the available ring, and those the device has reported and no interrupt has seen.\<close>

definition availq :: "vdisk \<Rightarrow> u16 \<Rightarrow> nat list" where
  "availq v i = map unat (ring_queue 8 (avail_ring v) i (avail_idx v))"

definition usedq :: "vdisk \<Rightarrow> nat list" where
  "usedq v = map unat (ring_queue 8 (used_ring v) (used_idx v) (used_dev_idx v))"

definition phases_ok :: "vdisk \<Rightarrow> buf list \<Rightarrow> u16 \<Rightarrow> nat list \<Rightarrow> vreq list \<Rightarrow> bool" where
  "phases_ok v B di P rs \<longleftrightarrow> mset (map head (filter (busy B) rs)) = mset (availq v di) + mset P + mset (usedq v)"

text \<open>Before the device has served a request the source holds the contents to move, afterwards both sides do.\<close>

definition value_ok :: "nat set \<Rightarrow> buf list \<Rightarrow> (u32 \<Rightarrow> u8 list) \<Rightarrow> vreq \<Rightarrow> bool" where
  "value_ok W B D r \<longleftrightarrow>
     (if head r \<in> W then (if q_write r then bdata (B ! q_buf r) else D (blk_of B r)) = q_val r
      else bdata (B ! q_buf r) = q_val r \<and> D (blk_of B r) = q_val r)"

definition vinv :: "vdisk \<Rightarrow> buf list \<Rightarrow> (u32 \<Rightarrow> u8 list) \<Rightarrow> u16 \<Rightarrow> nat list \<Rightarrow> vreq list \<Rightarrow> bool" where
  "vinv v B D di P rs \<longleftrightarrow> vd_shape v \<and> own_ok v rs \<and> bufs_ok B rs \<and> (\<forall>r \<in> set rs. chain_ok v B r) \<and>
     phases_ok v B di P rs \<and> (\<forall>r \<in> set rs. value_ok (set (availq v di) \<union> set P) B D r) \<and>
     (\<forall>h \<in> set (usedq v). info_status v ! h = 0)"

definition vs_inv :: "vsys \<Rightarrow> bool" where
  "vs_inv S \<longleftrightarrow> vinv (vd (vs S)) (bufs (vs S)) (disk (vs S)) (dev_idx S) (pool S) (reqs S)"

text \<open>After \<open>virtio_disk_init\<close>: no request, all descriptors free.\<close>

definition vs_init :: "vsys \<Rightarrow> bool" where
  "vs_init S \<longleftrightarrow> vd_shape (vd (vs S)) \<and> vfree (vd (vs S)) = replicate 8 True \<and> reqs S = [] \<and> pool S = [] \<and>
     dev_idx S = avail_idx (vd (vs S)) \<and> used_dev_idx (vd (vs S)) = used_idx (vd (vs S))"

lemma vs_init_inv: "vs_init S \<Longrightarrow> vs_inv S"
  by (auto simp: vs_init_def vs_inv_def vinv_def own_ok_def bufs_ok_def phases_ok_def availq_def usedq_def)

subsection \<open>Consequences\<close>

lemma own_count: "own_ok v rs \<Longrightarrow> 3 * length rs \<le> 8"
proof -
  assume o: "own_ok v rs"
  then have "length (concat (map q_idx rs)) = card {i. i < 8 \<and> \<not> vfree v ! i}"
    by (metis distinct_card own_ok_def)
  also have "\<dots> \<le> card {i. i < (8::nat)}" by (intro card_mono) auto
  finally have "length (concat (map q_idx rs)) \<le> 8" by simp
  moreover have "length (concat (map q_idx rs)) = 3 * length rs"
  proof -
    have "\<forall>r \<in> set rs. length (q_idx r) = 3" using o by (simp add: own_ok_def)
    then show ?thesis by (induction rs) auto
  qed
  ultimately show ?thesis by simp
qed

lemma idx_mem: "own_ok v rs \<Longrightarrow> r \<in> set rs \<Longrightarrow> k < 3 \<Longrightarrow> q_idx r ! k \<in> set (concat (map q_idx rs))"
proof -
  assume "own_ok v rs" "r \<in> set rs" "k < 3"
  then have "q_idx r ! k \<in> set (q_idx r)" by (intro nth_mem) (simp add: own_ok_def)
  then show ?thesis using \<open>r \<in> set rs\<close> by auto
qed

lemma idx_less: "own_ok v rs \<Longrightarrow> r \<in> set rs \<Longrightarrow> k < 3 \<Longrightarrow> q_idx r ! k < 8 \<and> \<not> vfree v ! (q_idx r ! k)"
  using idx_mem unfolding own_ok_def by blast

lemma idx_distinct:
  assumes o: "own_ok v rs" and r: "r \<in> set rs" "r' \<in> set rs" and k: "k < 3" "k' < 3" and e: "q_idx r ! k = q_idx r' ! k'"
  shows "r = r' \<and> k = k'"
proof -
  have l: "length (q_idx r) = 3" "length (q_idx r') = 3" and d: "distinct (concat (map q_idx rs))"
    using o r by (auto simp: own_ok_def)
  have m: "q_idx r ! k \<in> set (q_idx r)" using l k by simp
  have m': "q_idx r ! k \<in> set (q_idx r')" using l k e by simp
  have dr: "distinct (q_idx r)" using d r(1) by (auto simp: distinct_concat_iff)
  have "removeAll [] (map q_idx rs) = map q_idx rs"
    using o unfolding own_ok_def by (intro removeAll_id) auto
  then have di: "distinct (map q_idx rs)" using d by (metis distinct_concat_iff)
  have "q_idx r = q_idx r'" proof (rule ccontr)
    assume n: "q_idx r \<noteq> q_idx r'"
    have "q_idx r \<in> set (map q_idx rs)" "q_idx r' \<in> set (map q_idx rs)" using r by auto
    then have "set (q_idx r) \<inter> set (q_idx r') = {}" using d n unfolding distinct_concat_iff by blast
    then show False using m m' by blast
  qed
  moreover have "r = r'" if "q_idx r = q_idx r'" using di r that by (auto simp: distinct_map inj_on_def)
  ultimately show ?thesis using e k l dr by (metis nth_eq_iff_index_eq)
qed

lemma head_inj: "own_ok v rs \<Longrightarrow> r \<in> set rs \<Longrightarrow> r' \<in> set rs \<Longrightarrow> head r = head r' \<Longrightarrow> r = r'"
  using idx_distinct [of v rs r r' 0 0] by simp

lemma own_distinct: "own_ok v rs \<Longrightarrow> distinct rs"
proof -
  assume o: "own_ok v rs"
  have "removeAll [] (map q_idx rs) = map q_idx rs" using o unfolding own_ok_def by (intro removeAll_id) auto
  then have "distinct (map q_idx rs)" using o unfolding own_ok_def by (metis distinct_concat_iff)
  then show ?thesis by (simp add: distinct_map)
qed

text \<open>The heads on their way are distinct heads of busy requests.\<close>

lemma phases_distinct:
  assumes o: "own_ok v rs" and p: "phases_ok v B di P rs"
  shows "distinct (availq v di @ P @ usedq v)" and "set (availq v di @ P @ usedq v) = head ` {r \<in> set rs. busy B r}"
proof -
  have m: "mset (availq v di @ P @ usedq v) = mset (map head (filter (busy B) rs))"
    using p by (simp add: phases_ok_def add.assoc)
  have "distinct (map head (filter (busy B) rs))"
    using own_distinct [OF o] head_inj [OF o] by (auto simp: distinct_map inj_on_def)
  then show "distinct (availq v di @ P @ usedq v)" using m by (metis mset_eq_imp_distinct_iff)
  show "set (availq v di @ P @ usedq v) = head ` {r \<in> set rs. busy B r}"
    using mset_eq_setD [OF m] by auto
qed

lemma windows_short:
  assumes o: "own_ok v rs" and p: "phases_ok v B di P rs"
  shows "length (availq v di) < 8" and "length (usedq v) < 8"
proof -
  have "length (filter (busy B) rs) = length (availq v di) + length P + length (usedq v)"
    using p unfolding phases_ok_def by (metis length_map size_mset size_union)
  moreover have "length (filter (busy B) rs) \<le> length rs" by simp
  ultimately show "length (availq v di) < 8" "length (usedq v) < 8" using own_count [OF o] by simp_all
qed

section \<open>Submitting\<close>

lemma alloc_desc_eval:
  "alloc_desc s = (case find_idx (\<lambda>f. f) (vfree (vd s)) of
     None \<Rightarrow> Ret (None, s)
   | Some i \<Rightarrow> Ret (Some i, s\<lparr>vd := (vd s)\<lparr>vfree := (vfree (vd s))[i := False]\<rparr>\<rparr>))"
  by (simp add: alloc_desc_def vdmod_def split: option.splits)

lemma alloc_descs_eval:
  "alloc_descs (Suc k) idx s = (case find_idx (\<lambda>f. f) (vfree (vd s)) of
     None \<Rightarrow> kseq (free_descs idx) (kret None) s
   | Some i \<Rightarrow> alloc_descs k (idx @ [i]) (s\<lparr>vd := (vd s)\<lparr>vfree := (vfree (vd s))[i := False]\<rparr>\<rparr>))"
  by (cases "find_idx (\<lambda>f. f) (vfree (vd s))") (simp_all add: alloc_desc_eval)

lemma kret_None_Some: "kseq m (kret None) s \<noteq> Ret (Some x, s')"
  by (cases "m s") (auto simp: kseq_def kbind_def)

lemma alloc3_desc_Some:
  assumes "alloc3_desc s = Ret (Some idx, s')"
  obtains i0 i1 i2 where "idx = [i0, i1, i2]" and "distinct [i0, i1, i2]"
    and "\<forall>i \<in> {i0, i1, i2}. i < length (vfree (vd s)) \<and> vfree (vd s) ! i"
    and "s' = s\<lparr>vd := (vd s)\<lparr>vfree := (vfree (vd s))[i0 := False, i1 := False, i2 := False]\<rparr>\<rparr>"
proof -
  let ?f = "vfree (vd s)"
  note e = alloc3_desc_def numeral_3_eq_3 alloc_descs_eval kret_None_Some
  obtain i0 where i0: "find_idx (\<lambda>f. f) ?f = Some i0" using assms by (auto simp: e simp del: alloc_descs.simps(2) split: option.splits)
  obtain i1 where i1: "find_idx (\<lambda>f. f) (?f[i0 := False]) = Some i1" using assms i0 by (auto simp: e simp del: alloc_descs.simps(2) split: option.splits)
  obtain i2 where i2: "find_idx (\<lambda>f. f) (?f[i0 := False, i1 := False]) = Some i2"
    using assms i0 i1 by (auto simp: e simp del: alloc_descs.simps(2) split: option.splits)
  have "idx = [i0, i1, i2]" "s' = s\<lparr>vd := (vd s)\<lparr>vfree := ?f[i0 := False, i1 := False, i2 := False]\<rparr>\<rparr>"
    using assms i0 i1 i2 by (simp_all add: e del: alloc_descs.simps(2))
  moreover note find_idx_SomeD(1,2) [OF i0] find_idx_SomeD(1,2) [OF i1] find_idx_SomeD(1,2) [OF i2]
  ultimately show ?thesis using that [of i0 i1 i2] by (auto simp: nth_list_update split: if_splits)
qed

lemma submit_eval:
  assumes "virtio_disk_submit b write s = Ret (idx, s')"
  obtains i0 i1 i2 where "idx = [i0, i1, i2]" and "distinct [i0, i1, i2]"
    and "\<forall>i \<in> {i0, i1, i2}. i < length (vfree (vd s)) \<and> vfree (vd s) ! i"
    and "vd s' = format_request b write (ucast (blockno (bufs s ! b) * 2)) [i0, i1, i2]
        ((vd s)\<lparr>vfree := (vfree (vd s))[i0 := False, i1 := False, i2 := False]\<rparr>)"
    and "bufs s' = (bufs s)[b := (bufs s ! b)\<lparr>diskf := True\<rparr>]" and "disk s' = disk s"
proof -
  obtain r s1 where a: "alloc3_desc s = Ret (r, s1)"
    using assms by (cases "alloc3_desc s") (auto simp: virtio_disk_submit_def bfld_def Let_def kbind_def)
  then obtain x where r: "r = Some x" using assms by (cases r) (auto simp: virtio_disk_submit_def bfld_def Let_def)
  from a r obtain i0 i1 i2 where i: "x = [i0, i1, i2]" "distinct [i0, i1, i2]"
    "\<forall>i \<in> {i0, i1, i2}. i < length (vfree (vd s)) \<and> vfree (vd s) ! i"
    "s1 = s\<lparr>vd := (vd s)\<lparr>vfree := (vfree (vd s))[i0 := False, i1 := False, i2 := False]\<rparr>\<rparr>"
    using alloc3_desc_Some by metis
  have "idx = x" "s' = s1\<lparr>vd := format_request b write (ucast (blockno (bufs s ! b) * 2)) x (vd s1),
      bufs := (bufs s1)[b := (bufs s1 ! b)\<lparr>diskf := True\<rparr>]\<rparr>"
    using assms a r by (auto simp: virtio_disk_submit_def bfld_def bmod_def vdmod_def Let_def)
  then show ?thesis using i by (intro that [of i0 i1 i2]) simp_all
qed


lemma unat_ucast_up: "unat (ucast (w :: u32) :: u64) = unat w"
  using unsigned_less [of w, where 'a=nat] by (simp add: unsigned_ucast_eq take_bit_nat_eq_self)

lemma sector_blk: "unat n < 2 ^ 31 \<Longrightarrow> ucast ((ucast (n * 2 :: u32) :: u64) div 2) = n"
proof -
  assume n: "unat n < 2 ^ 31"
  then have "unat (n * 2) = unat n * 2" by (simp add: unat_word_ariths)
  then have "unat ((ucast (n * 2) :: u64) div 2) = unat n" by (simp add: unat_div unat_ucast_up)
  then have "(ucast (n * 2) :: u64) div 2 = ucast n" by (simp add: word_unat_eq_iff unat_ucast_up)
  moreover have "ucast (ucast n :: u64) = n" by (rule bit_word_eqI) (simp add: bit_simps)
  ultimately show ?thesis by simp
qed

lemma blk_of_upd [simp]: "blk_of (B[b := (B ! b)\<lparr>diskf := x\<rparr>]) = blk_of B"
proof
  fix r
  show "blk_of (B[b := (B ! b)\<lparr>diskf := x\<rparr>]) r = blk_of B r"
    by (cases "q_buf r = b"; cases "b < length B") (simp_all add: blk_of_def list_update_beyond not_less)
qed

lemma bdata_upd [simp]: "bdata (B[b := (B ! b)\<lparr>diskf := x\<rparr>] ! i) = bdata (B ! i)"
  by (cases "i = b"; cases "b < length B") (simp_all add: list_update_beyond not_less)

lemma chain_cong:
  assumes "\<forall>k < 3. desc v' ! (q_idx r ! k) = desc v ! (q_idx r ! k)" and "vops v' ! head r = vops v ! head r"
    and "info_b v' ! head r = info_b v ! head r" and "blk_of B' r = blk_of B r"
  shows "chain_ok v' B' r = chain_ok v B r"
  using assms by (simp add: chain_ok_def Let_def)

lemma value_cong:
  assumes "head r \<in> W' \<longleftrightarrow> head r \<in> W" and "bdata (B' ! q_buf r) = bdata (B ! q_buf r)" and "D' (blk_of B' r) = D (blk_of B r)"
  shows "value_ok W' B' D' r = value_ok W B D r"
  using assms by (simp add: value_ok_def)

lemma unat_of_nat_u16: "i < 8 \<Longrightarrow> unat (of_nat i :: u16) = i"
  by (simp add: unat_of_nat take_bit_nat_eq_self)

lemma submit_inv:
  assumes inv: "vinv v B D di P rs"
    and idx: "distinct [i0, i1, i2]" "\<forall>i \<in> {i0, i1, i2}. i < length (vfree v) \<and> vfree v ! i"
    and b: "b < length B" "unat (blockno (B ! b)) < 2 ^ 31" "\<forall>r \<in> set rs. q_buf r \<noteq> b \<and> blk_of B r \<noteq> blockno (B ! b)"
    and v': "v' = format_request b wr (ucast (blockno (B ! b) * 2)) [i0, i1, i2] (v\<lparr>vfree := (vfree v)[i0 := False, i1 := False, i2 := False]\<rparr>)"
    and r: "r = \<lparr>q_buf = b, q_idx = [i0, i1, i2], q_write = wr, q_val = (if wr then bdata (B ! b) else D (blockno (B ! b)))\<rparr>"
  shows "vinv v' (B[b := (B ! b)\<lparr>diskf := True\<rparr>]) D di P (r # rs)"
proof -
  let ?B = "B[b := (B ! b)\<lparr>diskf := True\<rparr>]"
  have sh: "vd_shape v" and o: "own_ok v rs" and bo: "bufs_ok B rs" and ch: "\<forall>r \<in> set rs. chain_ok v B r"
    and ph: "phases_ok v B di P rs" and va: "\<forall>r \<in> set rs. value_ok (set (availq v di) \<union> set P) B D r"
    and st: "\<forall>h \<in> set (usedq v). info_status v ! h = 0" using inv by (simp_all add: vinv_def)
  have i8: "i0 < 8" "i1 < 8" "i2 < 8" "vfree v ! i0" "vfree v ! i1" "vfree v ! i2" using idx(2) sh by (simp_all add: vd_shape_def)
  have dis: "q_idx x ! k \<notin> {i0, i1, i2}" if "x \<in> set rs" "k < 3" for x k using idx_less [OF o that] i8 by auto
  have sh': "vd_shape v'" using sh by (simp add: vd_shape_def v' format_request_def)
  have o': "own_ok v' (r # rs)"
  proof -
    have "set (concat (map q_idx rs)) = {i. i < 8 \<and> \<not> vfree v ! i}" using o by (simp add: own_ok_def)
    then show ?thesis using o i8 idx(1) sh by (auto simp: own_ok_def r v' format_request_def vd_shape_def nth_list_update)
  qed
  have bo': "bufs_ok ?B (r # rs)" using bo b by (auto simp: bufs_ok_def r image_iff) (auto simp: blk_of_def)
  have q: "availq v' di = availq v di @ [i0]"
    using vr.ring_push [of "avail_idx v" di "avail_ring v" "of_nat i0"] windows_short(1) [OF o ph] sh i8
    by (simp add: availq_def v' format_request_def slot_def vd_shape_def unat_of_nat_u16)
  have u: "usedq v' = usedq v" by (simp add: usedq_def v' format_request_def)
  have new: "i0 \<notin> set (availq v di) \<union> set P \<union> set (usedq v)"
  proof -
    have "i0 \<notin> head ` {x \<in> set rs. busy B x}" using dis [of _ 0] by auto
    then show ?thesis unfolding phases_distinct(2) [OF o ph, symmetric] by simp
  qed
  have bz: "filter (busy ?B) rs = filter (busy B) rs" using b(3) by (intro filter_cong) (auto simp: busy_def)
  have ph': "phases_ok v' ?B di P (r # rs)"
    using ph b(1) bz by (simp add: phases_ok_def q u busy_def r)
  have ch': "chain_ok v' ?B x" if "x \<in> set (r # rs)" for x
  proof (cases "x = r")
    case True
    then show ?thesis using i8 sh idx(1) sector_blk [OF b(2)] b(1)
      by (simp add: chain_ok_def Let_def r v' format_request_def vd_shape_def unat_of_nat_u16 blk_of_def nth_list_update)
  next
    case False
    then have x: "x \<in> set rs" using that by simp
    have ne: "i0 \<noteq> q_idx x ! k" "i1 \<noteq> q_idx x ! k" "i2 \<noteq> q_idx x ! k" if "k < 3" for k using dis [OF x that] by auto
    have "chain_ok v' ?B x = chain_ok v B x"
      by (intro chain_cong) (simp_all add: v' format_request_def ne)
    then show ?thesis using ch x by simp
  qed
  have va': "value_ok (set (availq v' di) \<union> set P) ?B D x" if "x \<in> set (r # rs)" for x
  proof (cases "x = r")
    case True
    then show ?thesis using b(1) by (simp add: value_ok_def q r blk_of_def)
  next
    case False
    then have x: "x \<in> set rs" using that by simp
    have "value_ok (set (availq v' di) \<union> set P) ?B D x = value_ok (set (availq v di) \<union> set P) B D x"
      using dis [OF x, of 0] by (intro value_cong) (auto simp: q)
    then show ?thesis using va x by simp
  qed
  have st': "\<forall>h \<in> set (usedq v'). info_status v' ! h = 0"
  proof
    fix h assume h: "h \<in> set (usedq v')"
    have "info_status v' = (info_status v)[i0 := 0xff]" by (simp add: v' format_request_def)
    moreover have "i0 \<noteq> h" using h new by (auto simp: u)
    ultimately show "info_status v' ! h = 0" using st h by (simp add: u)
  qed
  show ?thesis using sh' o' bo' ph' ch' va' st' by (simp add: vinv_def)
qed


section \<open>The device\<close>

lemma fetch_inv:
  assumes inv: "vinv v B D di P rs" and ne: "di \<noteq> avail_idx v"
  shows "vinv v B D (di + 1) (unat (avail_ring v ! slot 8 di) # P) rs"
proof -
  have "availq v di = unat (avail_ring v ! slot 8 di) # availq v (di + 1)"
    unfolding availq_def by (subst vr.ring_pop [OF ne]) simp
  then show ?thesis using inv by (auto simp: vinv_def phases_ok_def)
qed

lemma in_flight:
  assumes inv: "vinv v B D di P rs" and h: "h \<in> set (availq v di) \<union> set P \<union> set (usedq v)"
  obtains r where "r \<in> set rs" and "head r = h" and "busy B r"
proof -
  have "h \<in> set (availq v di @ P @ usedq v)" using h by simp
  then have "h \<in> head ` {r \<in> set rs. busy B r}" using phases_distinct(2) inv unfolding vinv_def by blast
  then show ?thesis using that by auto
qed

definition transferred :: "vreq \<Rightarrow> buf list \<Rightarrow> (u32 \<Rightarrow> u8 list) \<Rightarrow> buf list \<times> (u32 \<Rightarrow> u8 list)" where
  "transferred r B D = (if q_write r then (B, D(blk_of B r := bdata (B ! q_buf r)))
     else (B[q_buf r := (B ! q_buf r)\<lparr>bdata := D (blk_of B r)\<rparr>], D))"

lemma device_eval:
  assumes "chain_ok (vd s) (bufs s) r"
  shows "vd (vd_device (head r) s) = (vd s)\<lparr>info_status := (info_status (vd s))[head r := 0],
       used_ring := (used_ring (vd s))[slot 8 (used_dev_idx (vd s)) := of_nat (head r)], used_dev_idx := used_dev_idx (vd s) + 1\<rparr>"
    and "(bufs (vd_device (head r) s), disk (vd_device (head r) s)) = transferred r (bufs s) (disk s)"
  using assms by (simp_all add: vd_device_def chain_ok_def Let_def transferred_def slot_def)

lemma transferred_value:
  assumes "transferred r B D = (B', D')" and "q_buf r < length B"
  shows "blk_of B' = blk_of B" and "busy B' = busy B" and "length B' = length B"
    and "bdata (B' ! q_buf r) = (if q_write r then bdata (B ! q_buf r) else D (blk_of B r))"
    and "D' (blk_of B r) = (if q_write r then bdata (B ! q_buf r) else D (blk_of B r))"
    and "q_buf x \<noteq> q_buf r \<Longrightarrow> bdata (B' ! q_buf x) = bdata (B ! q_buf x)"
    and "blk_of B x \<noteq> blk_of B r \<Longrightarrow> D' (blk_of B x) = D (blk_of B x)"
proof -
  have "blk_of (B[q_buf r := (B ! q_buf r)\<lparr>bdata := y\<rparr>]) = blk_of B" "busy (B[q_buf r := (B ! q_buf r)\<lparr>bdata := y\<rparr>]) = busy B" for y
    using assms(2) by (auto simp: blk_of_def busy_def fun_eq_iff nth_list_update)
  then show "blk_of B' = blk_of B" "busy B' = busy B" using assms(1) by (auto simp: transferred_def split: if_splits)
qed (use assms in \<open>auto simp: transferred_def split: if_splits\<close>)

lemma complete_inv:
  assumes inv: "vinv v B D di P rs" and r: "r \<in> set rs" "head r \<in> set P" and t: "transferred r B D = (B', D')"
    and v': "v' = v\<lparr>info_status := (info_status v)[head r := 0], used_ring := (used_ring v)[slot 8 (used_dev_idx v) := of_nat (head r)],
        used_dev_idx := used_dev_idx v + 1\<rparr>"
  shows "vinv v' B' D' di (remove1 (head r) P) rs"
proof -
  have sh: "vd_shape v" and o: "own_ok v rs" and bo: "bufs_ok B rs" and ch: "\<forall>r \<in> set rs. chain_ok v B r"
    and ph: "phases_ok v B di P rs" and va: "\<forall>r \<in> set rs. value_ok (set (availq v di) \<union> set P) B D r"
    and st: "\<forall>h \<in> set (usedq v). info_status v ! h = 0" using inv by (simp_all add: vinv_def)
  have rb: "q_buf r < length B" using bo r by (simp add: bufs_ok_def)
  note tv = transferred_value [OF t rb]
  have h8: "head r < 8" using idx_less [OF o r(1), of 0] by simp
  have q: "availq v' di = availq v di" by (simp add: availq_def v')
  have u: "usedq v' = usedq v @ [head r]"
    using vr.ring_push [of "used_dev_idx v" "used_idx v" "used_ring v" "of_nat (head r)"] windows_short(2) [OF o ph] sh h8
    by (simp add: usedq_def v' vd_shape_def unat_of_nat take_bit_nat_eq_self)
  have d: "distinct (availq v di @ P @ usedq v)" by (rule phases_distinct(1) [OF o ph])
  have sh': "vd_shape v'" using sh by (simp add: vd_shape_def v')
  have o': "own_ok v' rs" using o by (simp add: own_ok_def v')
  have bo': "bufs_ok B' rs" using bo tv by (simp add: bufs_ok_def)
  have ch': "\<forall>x \<in> set rs. chain_ok v' B' x" using ch tv(1) by (simp add: chain_ok_def v')
  have ph': "phases_ok v' B' di (remove1 (head r) P) rs"
    using ph r(2) tv(2) by (simp add: phases_ok_def q u add_mset_commute)
  have va': "value_ok (set (availq v' di) \<union> set (remove1 (head r) P)) B' D' x" if x: "x \<in> set rs" for x
  proof (cases "x = r")
    case True
    have "head r \<notin> set (availq v' di) \<union> set (remove1 (head r) P)" using d r(2) q by auto
    then show ?thesis using True bspec [OF va r(1)] r(2) tv(1,4,5) by (simp add: value_ok_def split: if_splits)
  next
    case False
    have ne: "head x \<noteq> head r" using head_inj [OF o x r(1)] False by blast
    have "q_buf x \<noteq> q_buf r" "blk_of B x \<noteq> blk_of B r" using bo x r(1) False by (auto simp: bufs_ok_def distinct_map inj_on_def)
    then have "value_ok (set (availq v' di) \<union> set (remove1 (head r) P)) B' D' x = value_ok (set (availq v di) \<union> set P) B D x"
      using tv ne q by (intro value_cong) (auto simp: in_set_remove1)
    then show ?thesis using va x by simp
  qed
  have st': "\<forall>h \<in> set (usedq v'). info_status v' ! h = 0"
  proof
    fix h assume h: "h \<in> set (usedq v')"
    have "info_status v' = (info_status v)[head r := 0]" by (simp add: v')
    then show "info_status v' ! h = 0" using st sh h h8 by (cases "h = head r") (auto simp: u vd_shape_def)
  qed
  show ?thesis using sh' o' bo' ch' ph' va' st' by (simp add: vinv_def)
qed


section \<open>The interrupt handler\<close>

lemma ack_inv:
  assumes inv: "vinv v B D di P rs" and r: "r \<in> set rs" "busy B r" and u: "usedq v = head r # usedq v'"
    and v': "v' = v\<lparr>used_idx := used_idx v + 1\<rparr>"
  shows "vinv v' (B[q_buf r := (B ! q_buf r)\<lparr>diskf := False\<rparr>]) D di P rs"
proof -
  let ?B = "B[q_buf r := (B ! q_buf r)\<lparr>diskf := False\<rparr>]"
  have o: "own_ok v rs" and bo: "bufs_ok B rs" and ph: "phases_ok v B di P rs" using inv by (simp_all add: vinv_def)
  have q: "availq v' di = availq v di" by (simp add: availq_def v')
  have "busy ?B x \<longleftrightarrow> busy B x \<and> x \<noteq> r" if "x \<in> set rs" for x
    using bo r(1) that by (cases "q_buf x = q_buf r") (auto simp: bufs_ok_def busy_def distinct_map inj_on_def)
  then have "filter (busy ?B) rs = filter (\<lambda>x. busy B x \<and> r \<noteq> x) rs" by (intro filter_cong) auto
  also have "\<dots> = remove1 r (filter (busy B) rs)"
    using own_distinct [OF o] by (simp add: distinct_remove1_removeAll removeAll_filter_not_eq conj_commute)
  finally have f: "filter (busy ?B) rs = remove1 r (filter (busy B) rs)" .
  have "mset (filter (busy B) rs) = add_mset r (mset (filter (busy ?B) rs))" unfolding f using r by simp
  then have "mset (map head (filter (busy B) rs)) = add_mset (head r) (mset (map head (filter (busy ?B) rs)))"
    unfolding mset_map by (simp only: image_mset_add_mset)
  then have "phases_ok v' ?B di P rs" using ph by (simp add: phases_ok_def q u)
  moreover have "own_ok v' rs" "vd_shape v'" "bufs_ok ?B rs" "\<forall>x \<in> set rs. chain_ok v' ?B x"
    using inv by (simp_all add: vinv_def own_ok_def vd_shape_def bufs_ok_def chain_ok_def v')
  moreover have "\<forall>x \<in> set rs. value_ok (set (availq v' di) \<union> set P) ?B D x"
  proof -
    have "value_ok W ?B D x = value_ok W B D x" for W x by (rule value_cong) simp_all
    then show ?thesis using inv by (simp add: vinv_def q)
  qed
  moreover have "\<forall>h \<in> set (usedq v'). info_status v' ! h = 0"
    using inv by (simp add: vinv_def u) (simp add: v')
  ultimately show ?thesis by (simp add: vinv_def)
qed

lemma intr_loop_ok:
  "vinv (vd s) (bufs s) (disk s) di P rs \<Longrightarrow> unat (used_dev_idx (vd s) - used_idx (vd s)) = k \<Longrightarrow>
     \<exists>s'. vd_intr_loop k s = Ret ((), s') \<and> vinv (vd s') (bufs s') (disk s') di P rs"
proof (induction k arbitrary: s)
  case (Suc k)
  let ?v = "vd s" and ?B = "bufs s"
  let ?v' = "?v\<lparr>used_idx := used_idx ?v + 1\<rparr>"
  have ne: "used_idx ?v \<noteq> used_dev_idx ?v" using Suc.prems(2) by auto
  have u: "usedq ?v = unat (used_ring ?v ! slot 8 (used_idx ?v)) # usedq ?v'"
    unfolding usedq_def by (subst vr.ring_pop [OF ne]) simp
  then obtain r where r: "r \<in> set rs" "head r = unat (used_ring ?v ! slot 8 (used_idx ?v))" "busy ?B r"
    using in_flight [OF Suc.prems(1), of "hd (usedq ?v)"] by auto
  let ?s = "s\<lparr>bufs := ?B[q_buf r := (?B ! q_buf r)\<lparr>diskf := False\<rparr>], procs := wake (cur s) (Chan_buf (q_buf r)) (procs s), vd := ?v'\<rparr>"
  have "info_status ?v ! head r = 0" "info_b ?v ! head r = Some (q_buf r)"
    using Suc.prems(1) u r by (auto simp: vinv_def chain_ok_def Let_def)
  then have "vd_intr_loop (Suc k) s = vd_intr_loop k ?s"
    using r(2) by (simp add: bmod_def vdmod_def wakeup_def slot_def Let_def)
  moreover have "vinv (vd ?s) (bufs ?s) (disk ?s) di P rs"
    using ack_inv [OF Suc.prems(1) r(1,3)] u r(2) by simp
  moreover have "unat (used_dev_idx (vd ?s) - used_idx (vd ?s)) = k"
  proof -
    have "length (usedq ?v) = Suc (length (usedq ?v'))" using u by simp
    then show ?thesis using Suc.prems(2) by (simp add: usedq_def)
  qed
  ultimately show ?case using Suc.IH [of ?s] by simp
qed auto

lemma intr_ok:
  assumes "vinv (vd s) (bufs s) (disk s) di P rs"
  shows "\<exists>s'. virtio_disk_intr s = Ret ((), s') \<and> vinv (vd s') (bufs s') (disk s') di P rs"
  using intr_loop_ok [OF assms refl] by (simp add: virtio_disk_intr_def)

section \<open>Finishing\<close>

lemma free_desc_eval:
  "i < 8 \<Longrightarrow> \<not> vfree (vd s) ! i \<Longrightarrow> \<exists>pr. free_desc i s = Ret ((), s\<lparr>vd := (vd s)\<lparr>
     desc := (desc (vd s))[i := \<lparr>daddr = DmaNull, dlen = 0, dflags = 0, dnext = 0\<rparr>], vfree := (vfree (vd s))[i := True]\<rparr>, procs := pr\<rparr>)"
  by (simp add: free_desc_def vdmod_def wakeup_def) blast

definition freed3 :: "nat \<Rightarrow> nat \<Rightarrow> nat \<Rightarrow> vdisk \<Rightarrow> vdisk" where
  "freed3 i0 i1 i2 v = (let z = \<lparr>daddr = DmaNull, dlen = 0, dflags = 0, dnext = 0\<rparr> in
     v\<lparr>info_b := (info_b v)[i0 := None], desc := (desc v)[i0 := z, i1 := z, i2 := z], vfree := (vfree v)[i0 := True, i1 := True, i2 := True]\<rparr>)"

lemma free_chain_step:
  "i < 8 \<Longrightarrow> \<not> vfree (vd s) ! i \<Longrightarrow> \<exists>pr. free_chain_loop (Suc k) i s =
     (let s' = s\<lparr>vd := (vd s)\<lparr>desc := (desc (vd s))[i := \<lparr>daddr = DmaNull, dlen = 0, dflags = 0, dnext = 0\<rparr>],
           vfree := (vfree (vd s))[i := True]\<rparr>, procs := pr\<rparr>
      in if dflags (desc (vd s) ! i) AND 1 \<noteq> 0 then free_chain_loop k (unat (dnext (desc (vd s) ! i))) s' else Ret ((), s'))"
proof -
  assume "i < 8" "\<not> vfree (vd s) ! i"
  then obtain pr where "free_desc i s = Ret ((), s\<lparr>vd := (vd s)\<lparr>
     desc := (desc (vd s))[i := \<lparr>daddr = DmaNull, dlen = 0, dflags = 0, dnext = 0\<rparr>], vfree := (vfree (vd s))[i := True]\<rparr>, procs := pr\<rparr>)"
    using free_desc_eval by blast
  then show ?thesis by (intro exI [of _ pr]) (simp add: Let_def)
qed


lemma finish_eval:
  assumes c: "chain_ok (vd s) (bufs s) r" and i: "\<forall>k < 3. q_idx r ! k < 8 \<and> \<not> vfree (vd s) ! (q_idx r ! k)"
    and d: "distinct [q_idx r ! 0, q_idx r ! 1, q_idx r ! 2]" and nb: "\<not> busy (bufs s) r"
  shows "\<exists>s'. virtio_disk_finish (q_buf r) (head r) s = Ret ((), s') \<and>
     vd s' = freed3 (q_idx r ! 0) (q_idx r ! 1) (q_idx r ! 2) (vd s) \<and> bufs s' = bufs s \<and> disk s' = disk s"
proof -
  let ?i = "\<lambda>k. q_idx r ! k" and ?z = "\<lparr>daddr = DmaNull, dlen = 0, dflags = 0, dnext = 0\<rparr>"
  let ?up = "\<lambda>i s pr. s\<lparr>vd := (vd s)\<lparr>desc := (desc (vd s))[i := ?z], vfree := (vfree (vd s))[i := True]\<rparr>, procs := pr\<rparr>"
  define s1 where "s1 = s\<lparr>vd := (vd s)\<lparr>info_b := (info_b (vd s))[head r := None]\<rparr>\<rparr>"
  have e1: "virtio_disk_finish (q_buf r) (head r) s = free_chain_loop (Suc (Suc (Suc 6))) (?i 0) s1"
    using nb by (simp add: virtio_disk_finish_def busy_def bfld_def vdmod_def free_chain_def s1_def numeral_eq_Suc)
  have i': "?i 0 < 8" "?i 1 < 8" "?i 2 < 8" "\<not> vfree (vd s) ! ?i 0" "\<not> vfree (vd s) ! ?i 1" "\<not> vfree (vd s) ! ?i 2" using i by simp_all
  note cd = c [unfolded chain_ok_def Let_def]
  from free_chain_step [of "?i 0" s1 "Suc (Suc 6)"] obtain p1 where
    e2: "free_chain_loop (Suc (Suc (Suc 6))) (?i 0) s1 = free_chain_loop (Suc (Suc 6)) (?i 1) (?up (?i 0) s1 p1)"
    using i' cd by (auto simp: s1_def Let_def)
  define s2 where "s2 = ?up (?i 0) s1 p1"
  have v2: "desc (vd s2) ! ?i 1 = desc (vd s) ! ?i 1" "vfree (vd s2) ! ?i 1 = vfree (vd s) ! ?i 1" using d by (simp_all add: s2_def s1_def)
  from free_chain_step [of "?i 1" s2 "Suc 6"] obtain p2 where
    e3: "free_chain_loop (Suc (Suc 6)) (?i 1) s2 = free_chain_loop (Suc 6) (?i 2) (?up (?i 1) s2 p2)"
    using i' cd unfolding v2 by (auto simp: Let_def)
  define s3 where "s3 = ?up (?i 1) s2 p2"
  have v3: "desc (vd s3) ! ?i 2 = desc (vd s) ! ?i 2" "vfree (vd s3) ! ?i 2 = vfree (vd s) ! ?i 2"
    using d by (simp_all add: s3_def s2_def s1_def)
  from free_chain_step [of "?i 2" s3 6] obtain p3 where e4: "free_chain_loop (Suc 6) (?i 2) s3 = Ret ((), ?up (?i 2) s3 p3)"
    using i' cd unfolding v3 by (auto simp: Let_def)
  show ?thesis unfolding e1 e2 s2_def [symmetric] e3 s3_def [symmetric] e4
    by (simp add: freed3_def Let_def s3_def s2_def s1_def)
qed


lemma finish_inv:
  assumes inv: "vinv v B D di P rs" and r: "r \<in> set rs" and nb: "\<not> busy B r"
    and v': "v' = freed3 (q_idx r ! 0) (q_idx r ! 1) (q_idx r ! 2) v"
  shows "vinv v' B D di P (remove1 r rs)"
proof -
  let ?rs = "remove1 r rs" and ?i = "\<lambda>k. q_idx r ! k"
  have sh: "vd_shape v" and o: "own_ok v rs" and bo: "bufs_ok B rs" and ch: "\<forall>r \<in> set rs. chain_ok v B r"
    and ph: "phases_ok v B di P rs" and va: "\<forall>r \<in> set rs. value_ok (set (availq v di) \<union> set P) B D r"
    and st: "\<forall>h \<in> set (usedq v). info_status v ! h = 0" using inv by (simp_all add: vinv_def)
  note od = own_distinct [OF o]
  have rs: "set ?rs = set rs - {r}" using od by simp
  have l3: "length (q_idx r) = 3" using o r by (simp add: own_ok_def)
  have q3: "q_idx r = [?i 0, ?i 1, ?i 2]" using l3 by (auto simp: list_eq_iff_nth_eq less_Suc_eq numeral_3_eq_3 numeral_2_eq_2)
  have dis: "q_idx x ! k \<noteq> ?i k'" if "x \<in> set ?rs" "k < 3" "k' < 3" for x k k'
    using idx_distinct [OF o _ r that(2,3)] that(1) rs by auto
  have w: "availq v' di = availq v di" "usedq v' = usedq v" "info_status v' = info_status v"
    by (simp_all add: availq_def usedq_def v' freed3_def Let_def)
  have sh': "vd_shape v'" using sh by (simp add: vd_shape_def v' freed3_def Let_def)
  have E: "mset (concat (map q_idx rs)) = mset (q_idx r @ concat (map q_idx ?rs))"
    using r by (induction rs) auto
  have m: "distinct (q_idx r @ concat (map q_idx ?rs))"
    using o mset_eq_imp_distinct_iff [OF E] by (simp add: own_ok_def)
  have m2: "set (concat (map q_idx rs)) = set (q_idx r) \<union> set (concat (map q_idx ?rs))"
    using mset_eq_setD [OF E] by simp
  have o': "own_ok v' ?rs"
  proof -
    have "set (concat (map q_idx ?rs)) = {i. i < 8 \<and> \<not> vfree v ! i} - set (q_idx r)"
      using m m2 o unfolding own_ok_def distinct_append by blast
    also have "\<dots> = {i. i < 8 \<and> \<not> vfree v' ! i}"
      using sh idx_less [OF o r, of 0] idx_less [OF o r, of 1] idx_less [OF o r, of 2]
      by (subst q3) (auto simp: v' freed3_def Let_def vd_shape_def nth_list_update split: if_splits)
    finally show ?thesis using m o rs by (simp add: own_ok_def)
  qed
  have bo': "bufs_ok B ?rs" using bo rs by (auto simp: bufs_ok_def distinct_remove1_removeAll od removeAll_filter_not_eq distinct_map_filter)
  have ch': "chain_ok v' B x" if x: "x \<in> set ?rs" for x
  proof -
    have ne: "?i k' \<noteq> q_idx x ! k" if "k < 3" "k' < 3" for k k' by (rule dis [OF x that, THEN not_sym])
    have "chain_ok v' B x = chain_ok v B x"
      by (intro chain_cong) (simp_all add: v' freed3_def Let_def ne ne [of _ 0] ne [of _ 1] ne [of _ 2] del: One_nat_def)
    then show ?thesis using ch x rs by simp
  qed
  have "filter (busy B) ?rs = filter (busy B) rs" using nb by (simp add: filter_remove1)
  then have ph': "phases_ok v' B di P ?rs" using ph by (simp add: phases_ok_def w)
  have va': "\<forall>x \<in> set ?rs. value_ok (set (availq v' di) \<union> set P) B D x" using va rs by (simp add: w)
  show ?thesis using sh' o' bo' ch' ph' va' st by (simp add: vinv_def w)
qed


lemma finish_ok:
  assumes inv: "vinv (vd s) (bufs s) (disk s) di P rs" and r: "r \<in> set rs" and nb: "\<not> busy (bufs s) r"
  shows "\<exists>s'. virtio_disk_finish (q_buf r) (head r) s = Ret ((), s') \<and>
     vd s' = freed3 (q_idx r ! 0) (q_idx r ! 1) (q_idx r ! 2) (vd s) \<and> bufs s' = bufs s \<and> disk s' = disk s"
proof (rule finish_eval [OF _ _ _ nb])
  have o: "own_ok (vd s) rs" using inv by (simp add: vinv_def)
  show "chain_ok (vd s) (bufs s) r" using inv r by (simp add: vinv_def)
  show "\<forall>k < 3. q_idx r ! k < 8 \<and> \<not> vfree (vd s) ! (q_idx r ! k)" using idx_less [OF o r] by blast
  show "distinct [q_idx r ! 0, q_idx r ! 1, q_idx r ! 2]"
    using idx_distinct [OF o r r, of 0 1] idx_distinct [OF o r r, of 0 2] idx_distinct [OF o r r, of 1 2] by auto
qed

lemma freed_all:
  assumes inv: "vinv v B D di P rs" and r: "r \<in> set rs" and v': "v' = freed3 (q_idx r ! 0) (q_idx r ! 1) (q_idx r ! 2) v"
  shows "\<forall>i \<in> set (q_idx r). vfree v' ! i"
proof -
  have o: "own_ok v rs" and sh: "length (vfree v) = 8" using inv by (simp_all add: vinv_def vd_shape_def)
  have l3: "length (q_idx r) = 3" using o r by (simp add: own_ok_def)
  have "vfree v' ! (q_idx r ! k)" if "k < 3" for k
    using idx_less [OF o r, of 0] idx_less [OF o r, of 1] idx_less [OF o r, of 2] that sh
    by (auto simp: v' freed3_def Let_def nth_list_update less_Suc_eq numeral_3_eq_3 numeral_2_eq_2)
  then show ?thesis using l3 by (auto simp: in_set_conv_nth)
qed

section \<open>All steps\<close>

lemma vd_step_inv: "vs_inv S \<Longrightarrow> vd_step S S' \<Longrightarrow> vs_inv S'"
proof -
  assume i: "vs_inv S" and st: "vd_step S S'"
  note inv = i [unfolded vs_inv_def]
  show "vs_inv S'" using st
  proof (rule vd_stepE)
    fix b wr idx s'
    assume S': "S' = S\<lparr>vs := s', reqs := new_req (vs S) b wr idx # reqs S\<rparr>" and b: "may_submit S b"
      and sub: "virtio_disk_submit b wr (vs S) = Ret (idx, s')"
    from sub obtain i0 i1 i2 where x: "idx = [i0, i1, i2]" "distinct [i0, i1, i2]"
      "\<forall>i \<in> {i0, i1, i2}. i < length (vfree (vd (vs S))) \<and> vfree (vd (vs S)) ! i"
      "vd s' = format_request b wr (ucast (blockno (bufs (vs S) ! b) * 2)) [i0, i1, i2]
        ((vd (vs S))\<lparr>vfree := (vfree (vd (vs S)))[i0 := False, i1 := False, i2 := False]\<rparr>)"
      "bufs s' = (bufs (vs S))[b := (bufs (vs S) ! b)\<lparr>diskf := True\<rparr>]" "disk s' = disk (vs S)"
      using submit_eval by metis
    from submit_inv [OF inv x(2,3) _ _ _ x(4) refl] b show ?thesis
      by (simp add: vs_inv_def S' x new_req_def may_submit_def)
  next
    assume "S' = S\<lparr>dev_idx := dev_idx S + 1, pool := unat (avail_ring (vd (vs S)) ! slot 8 (dev_idx S)) # pool S\<rparr>"
      "dev_idx S \<noteq> avail_idx (vd (vs S))"
    then show ?thesis using fetch_inv [OF inv] by (simp add: vs_inv_def)
  next
    fix i0
    assume S': "S' = S\<lparr>vs := vd_device i0 (vs S), pool := remove1 i0 (pool S)\<rparr>" and p: "i0 \<in> set (pool S)"
    obtain r where r: "r \<in> set (reqs S)" "head r = i0" using in_flight [OF inv, of i0] p by auto
    have c: "chain_ok (vd (vs S)) (bufs (vs S)) r" using inv r by (simp add: vinv_def)
    from complete_inv [OF inv r(1) _ device_eval(2) [OF c, symmetric] device_eval(1) [OF c]] show ?thesis
      using p r(2) by (simp add: vs_inv_def S')
  next
    fix s' assume "S' = S\<lparr>vs := s'\<rparr>" "virtio_disk_intr (vs S) = Ret ((), s')"
    then show ?thesis using intr_ok [OF inv] by (auto simp: vs_inv_def)
  next
    fix r s' assume S': "S' = S\<lparr>vs := s', reqs := remove1 r (reqs S)\<rparr>" and r: "r \<in> set (reqs S)"
      and f: "virtio_disk_finish (q_buf r) (head r) (vs S) = Ret ((), s')"
    have nb: "\<not> busy (bufs (vs S)) r" using f by (auto simp: virtio_disk_finish_def bfld_def busy_def)
    show ?thesis using finish_ok [OF inv r nb] finish_inv [OF inv r nb refl] f by (auto simp: vs_inv_def S')
  qed
qed

interpretation vd: step_invariant vs_init vd_step vs_inv
  by unfold_locales (auto intro: vs_init_inv vd_step_inv)


section \<open>Property\<close>



definition demo_vs :: vsys where
  "demo_vs = \<lparr>vs = demo_k, reqs = [], dev_idx = 0, pool = []\<rparr>"


end
