(* ===== verification/Syscall_Props.thy ===== *)
theory Syscall_Props
  imports Demo
begin

text \<open>
  System calls seen from user space: what \<open>syscall\<close> (\<^verbatim>\<open>kernel/syscall.c\<close>) leaves in register \<open>a0\<close> and on
  the console, with and without a trace mask, and what \<open>sysinfo\<close> (\<^verbatim>\<open>kernel/sysproc.c\<close>) writes to
  the buffer of its caller, through the free list, the process table, the table of open files and
  the page table of the caller.
\<close>

lemma frame_kfile:
  fixes s :: "'s kfile_scheme"
  assumes "kmem_frame s s'"
  shows "procs s' = procs s" and "files s' = files s" and "cur s' = cur s" and "cons_out s' = cons_out s"
proof -
  have f: "s' = s\<lparr>mem := mem s', freelist := freelist s'\<rparr>" using assms by (simp only: kmem_frame_def)
  show "procs s' = procs s" "files s' = files s" "cur s' = cur s" "cons_out s' = cons_out s" by (subst f, simp)+
qed

lemma count_proc_card: "count_proc s = of_nat (card {i. i < length (procs s) \<and> state (procs s ! i) \<noteq> UNUSED})"
  by (simp add: count_proc_def length_filter_conv_card)

lemma count_openfile_card: "count_openfile s = of_nat (card {i. i < length (files s) \<and> fref (files s ! i) > 0})"
  by (simp add: count_openfile_def length_filter_conv_card)

definition cur_arg :: "'s kproc_scheme \<Rightarrow> nat \<Rightarrow> u64" where
  "cur_arg s n = ld64 (mem s) (trapframe (procs s ! cur s) + tf_a n)"

lemma argaddr_cur: "n \<le> 5 \<Longrightarrow> argaddr n s = Ret (cur_arg s n, s)"
  by (simp add: argaddr_def argraw_def cur_arg_def myproc_def pget_def kbind_def kget_app)

lemma sys_sysinfo_run:
  assumes "kmem_wf s ps"
  shows "sys_sysinfo s =
    kbind (copyout (pagetable (procs s ! cur s)) (cur_arg s 0)
       (sysinfo_bytes \<lparr>si_freemem = PGSIZE * of_nat (length ps), si_nproc = count_proc s, si_nopenfiles = count_openfile s\<rparr>))
     (\<lambda>r. kret (if r < 0 then -1 else 0)) s"
  using argaddr_cur [of 0 s] count_freemmem_wf [OF assms]
  by (simp add: sys_sysinfo_def myproc_def pget_def kbind_def kget_app del: PGSIZE_def)

section \<open>What a call leaves behind\<close>

text \<open>The line that \<open>syscall\<close> prints for a traced call.\<close>

definition trace_line :: "u32 \<Rightarrow> string \<Rightarrow> u64 \<Rightarrow> string option" where
  "trace_line n name v =
     (case (printint (scast n) 10 True, printint v 10 True) of
        (Some a, Some b) \<Rightarrow> Some (a @ '': syscall '' @ name @ '' -> '' @ b @ [CHR 0x0A])
      | _ \<Rightarrow> None)"

lemma printf_plain: "cx \<noteq> CHR ''%'' \<Longrightarrow> printf_loop P (cx # f) as = map_option (Cons cx) (printf_loop P f as)"
  by (subst printf_loop.simps) simp

lemma printf_end: "printf_loop P [] as = Some []"
  by (subst printf_loop.simps) simp

lemma printf_d:
  "printf_loop kprinters (CHR ''%'' # CHR ''d'' # f) (VInt w # as) =
     (case printint (scast w) 10 True of None \<Rightarrow> None | Some t \<Rightarrow> map_option ((@) t) (printf_loop kprinters f as))"
  by (subst printf_loop.simps) (simp add: conversion_def fmt_at_def kprinters_def split: option.splits)

lemma printf_s:
  "printf_loop P (CHR ''%'' # CHR ''s'' # f) (VStr (Some t) # as) = map_option ((@) t) (printf_loop P f as)"
  by (subst printf_loop.simps) (simp add: conversion_def fmt_at_def split: option.splits)

lemma printf_ld:
  "printf_loop kprinters (CHR ''%'' # CHR ''l'' # CHR ''d'' # f) (VLong w # as) =
     (case printint w 10 True of None \<Rightarrow> None | Some t \<Rightarrow> map_option ((@) t) (printf_loop kprinters f as))"
  by (subst printf_loop.simps) (simp add: conversion_def fmt_at_def kprinters_def split: option.splits)

lemmas printf_eval = printf_plain printf_end printf_d printf_s printf_ld

lemma printf_trace_line:
  "printf (''%d: syscall %s -> %ld'' @ [CHR 0x0A]) [VInt n, VStr (Some name), VLong v] = trace_line n name v"
  by (simp add: printf_def printf_eval trace_line_def split: option.splits)

text \<open>
  Every result of a system call of magnitude below $10^{15}$ fits the buffer of \<open>printint\<close>: sizes,
  process ids, descriptors, addresses of user memory (below $2^{38}$) and $-1$.
\<close>

lemma trace_line_Some:
  assumes "if sint v < 0 then unat (- v) < 10 ^ 15 else unat v < 10 ^ 16"
  shows "\<exists>t. trace_line n name v = Some t"
proof -
  have "printint v 10 True \<noteq> None" using assms printint_iff [of 10 v True] by simp
  then show ?thesis using printint_int [of n] by (auto simp: trace_line_def)
qed

definition call_num :: "'s kproc_scheme \<Rightarrow> int" where
  "call_num s = sint (ucast (cur_arg s 7) :: u32)"

lemma syscall_known:
  fixes s s1 :: "'s kfile_scheme"
  assumes n: "call_num s = int k" "0 < k" "k < 24" and f: "syscalls ! k = Some f" "f s = Ret (Some v, s1)"
    and tf: "trapframe (procs s1 ! cur s) = tf" and tl: "bit (tmask (procs s1 ! cur s)) k \<longrightarrow>
       trace_line (pid (procs s1 ! cur s)) (syscall_list ! k) v = Some t"
  shows "syscall s = Ret (True, s1\<lparr>mem := st64 (mem s1) (tf + tf_a 0) v,
      cons_out := (if bit (tmask (procs s1 ! cur s)) k then cons_out s1 @ t else cons_out s1)\<rparr>)"
proof -
  have len: "length (syscalls :: ('s kfile_scheme, u64 option) kop option list) = 24" by (simp add: syscalls_def)
  have num: "sint (ucast (ld64 (mem s) (trapframe (procs s ! cur s) + tf_a 7)) :: u32) = int k"
    using n(1) by (simp add: call_num_def cur_arg_def)
  have b: "m AND push_bit k 1 \<noteq> 0 \<longleftrightarrow> bit m k" for m :: u32
    by (simp add: bit_iff_and_push_bit_not_eq_0)
  show ?thesis
  proof (cases "bit (tmask (procs s1 ! cur s)) k")
    case True
    then show ?thesis using n f tf tl
      by (simp add: syscall_def myproc_def ld_tf_def pget_def st_tf_def kseq_def kbind_def kget_app kmod_app kret_app
        num len b Let_def kprintf_def printf_trace_line [simplified] del: push_bit_of_1)
  next
    case False
    then show ?thesis using n f tf
      by (simp add: syscall_def myproc_def ld_tf_def pget_def st_tf_def kseq_def kbind_def kget_app kmod_app kret_app
        num len b Let_def del: push_bit_of_1)
  qed
qed

lemma syscall_unknown:
  fixes s :: "'s kfile_scheme"
  assumes n: "call_num s \<le> 0 \<or> 24 \<le> call_num s"
    and t: "printf (''%d %s: unknown sys call %d'' @ [CHR 0x0A])
      [VInt (pid (procs s ! cur s)), VStr (Some (cstr (pname (procs s ! cur s)))), VInt (ucast (cur_arg s 7))] = Some t"
  shows "syscall s = Ret (True, s\<lparr>mem := st64 (mem s) (trapframe (procs s ! cur s) + tf_a 0) (- 1), cons_out := cons_out s @ t\<rparr>)"
proof -
  have len: "length (syscalls :: ('s kfile_scheme, u64 option) kop option list) = 24" by (simp add: syscalls_def)
  have "\<not> (0 < call_num s \<and> call_num s < 24)" using n by auto
  then show ?thesis using t
    by (auto simp add: syscall_def myproc_def ld_tf_def pget_def st_tf_def kseq_def kbind_def kget_app kmod_app kret_app
      len call_num_def cur_arg_def Let_def kprintf_def)
qed

section \<open>Properties\<close>

text \<open>
  Property C34. \<open>syscall\<close> runs the handler that register \<open>a7\<close> selects and leaves its result in \<open>a0\<close>.
  It then prints the line \<^verbatim>\<open>pid: syscall name -> result\<close> exactly when the bit of the call is set in
  the mask of the process as the handler left it, so that \<open>trace\<close> already governs its own call.
  A result of up to 15 digits is printed without overrunning \<open>buf[16]\<close>.
\<close>

theorem syscall_traces:
  fixes s s1 :: "'s kfile_scheme"
  assumes "call_num s = int k" and "0 < k" and "k < 24" and "syscalls ! k = Some f" and "f s = Ret (Some v, s1)"
    and "cur s1 = cur s" and "if sint v < 0 then unat (- v) < 10 ^ 15 else unat v < 10 ^ 16"
  shows "\<exists>a b s'. syscall s = Ret (True, s') \<and> cur_arg s' 0 = v \<and> procs s' = procs s1 \<and>
     printint (scast (pid (procs s1 ! cur s))) 10 True = Some a \<and> printint v 10 True = Some b \<and>
     cons_out s' = cons_out s1 @ (if bit (tmask (procs s1 ! cur s)) k
       then a @ '': syscall '' @ syscall_list ! k @ '' -> '' @ b @ [CHR 0x0A] else [])"
proof -
  obtain t where t: "trace_line (pid (procs s1 ! cur s)) (syscall_list ! k) v = Some t"
    using trace_line_Some [OF assms(7)] by blast
  then obtain a b where ab: "printint (scast (pid (procs s1 ! cur s))) 10 True = Some a" "printint v 10 True = Some b"
    "t = a @ '': syscall '' @ syscall_list ! k @ '' -> '' @ b @ [CHR 0x0A]"
    by (auto simp: trace_line_def split: option.splits)
  show ?thesis
    using syscall_known [OF assms(1-5) refl, of t] t ab assms(6) by (simp add: cur_arg_def)
qed

text \<open>The demo process calls \<open>trace(1 << 22)\<close>: the call prints itself.\<close>

definition demo_trace :: ktrap where
  "demo_trace = demo_k\<lparr>mem := st64 (st64 (\<lambda>_. 0) 0x87ff0070 0x400000) 0x87ff00a8 22\<rparr>"

lemma demo_trace_args: "cur_arg demo_trace 0 = 0x400000" "cur_arg demo_trace 7 = 22"
  using ld64_st64_same_page [of "0x70" "0xa8" "st64 (\<lambda>_. 0) 0x87ff0070 0x400000" "0x87ff0000" 22]
  by (simp_all add: cur_arg_def demo_trace_def demo_k_def demo_proc_def tf_a_def)

theorem syscall_traces_witness:
  "\<exists>s'. syscall demo_trace = Ret (True, s') \<and> cur_arg s' 0 = 0 \<and>
     cons_out s' = ''1: syscall trace -> 0'' @ [CHR 0x0A]"
proof -
  let ?s1 = "demo_trace\<lparr>procs := (procs demo_trace)[0 := demo_proc\<lparr>tmask := 0x400000\<rparr>]\<rparr>"
  have c: "cur demo_trace = 0" "procs demo_trace ! 0 = demo_proc" "cons_out demo_trace = []" "0 < length (procs demo_trace)"
    by (simp_all add: demo_trace_def demo_k_def)
  have n: "call_num demo_trace = int 22" by (simp add: call_num_def demo_trace_args)
  have h: "ret_some sys_trace demo_trace = Ret (Some 0, ?s1)"
    using argaddr_cur [of 0 demo_trace]
    by (simp add: ret_some_def sys_trace_def argint_def argaddr_def myproc_def pmod_def kbind_def kseq_def kget_app kmod_app
      kret_app demo_trace_args c)
  have f: "syscalls ! 22 = Some (ret_some (sys_trace :: ('s kfile_scheme, u64) kop))" by (simp add: syscalls_def)
  have p1: "printint (scast (1 :: u32)) 10 True = Some ''1''" "printint 0 10 True = Some ''0''"
    by (simp_all add: printint_def print_buf_def digit_loop.simps digits_def)
  have l: "syscall_list ! 22 = ''trace''" by (simp add: syscall_list_def)
  have q: "procs ?s1 ! 0 = demo_proc\<lparr>tmask := 0x400000\<rparr>" using c by simp
  have b: "bit (0x400000 :: u32) 22" "pid demo_proc = 1" by (simp_all add: demo_proc_def)
  have "\<exists>a b s'. syscall demo_trace = Ret (True, s') \<and> cur_arg s' 0 = 0 \<and> procs s' = procs ?s1 \<and>
     printint (scast (pid (procs ?s1 ! cur demo_trace))) 10 True = Some a \<and> printint 0 10 True = Some b \<and>
     cons_out s' = cons_out ?s1 @ (if bit (tmask (procs ?s1 ! cur demo_trace)) 22
       then a @ '': syscall '' @ syscall_list ! 22 @ '' -> '' @ b @ [CHR 0x0A] else [])"
    using syscall_traces [OF n _ _ f h] by simp
  then show ?thesis unfolding c(1) q using p1 l b c(3) by auto
qed


lemma demo_mem_tf:
  assumes "k + 8 \<le> 4096"
  shows "ld64 demo_mem (0x87ff0000 + of_nat k) = 0"
proof -
  have o: "ld64 (st64 m q v) (0x87ff0000 + of_nat k) = ld64 m (0x87ff0000 + of_nat k)"
    if "page_aligned q" "q \<noteq> 0x87ff0000" for m q v
    using ld64_store_other_page0 [of "0x87ff0000" q k "le_bytes 8 v" m] that assms by (simp add: page_aligned_def st64_def)
  show ?thesis unfolding demo_mem_def by (simp add: o page_aligned_def ld64_zero)
qed


text \<open>
  Property C35. A call number outside the table (not positive, or above 23, read as an \<open>int\<close>) runs no
  handler: \<open>syscall\<close> prints one line with the process, its name and the number, leaves $-1$ in
  \<open>a0\<close>, and changes nothing else but the eight bytes of that register.
\<close>

theorem syscall_unknown_number:
  fixes s :: "'s kfile_scheme"
  assumes "call_num s \<le> 0 \<or> 24 \<le> call_num s"
  shows "\<exists>a c. printint (scast (pid (procs s ! cur s))) 10 True = Some a \<and>
     printint (scast (ucast (cur_arg s 7) :: u32)) 10 True = Some c \<and>
     syscall s = Ret (True, s\<lparr>mem := st64 (mem s) (trapframe (procs s ! cur s) + tf_a 0) (- 1),
       cons_out := cons_out s @ a @ '' '' @ cstr (pname (procs s ! cur s)) @ '': unknown sys call '' @ c @ [CHR 0x0A]\<rparr>)"
proof -
  obtain a where a: "printint (scast (pid (procs s ! cur s))) 10 True = Some a" using printint_int by blast
  obtain c where c: "printint (scast (ucast (cur_arg s 7) :: u32)) 10 True = Some c" using printint_int by blast
  have "printf (''%d %s: unknown sys call %d'' @ [CHR 0x0A])
      [VInt (pid (procs s ! cur s)), VStr (Some (cstr (pname (procs s ! cur s)))), VInt (ucast (cur_arg s 7))] =
      Some (a @ '' '' @ cstr (pname (procs s ! cur s)) @ '': unknown sys call '' @ c @ [CHR 0x0A])"
    by (simp add: printf_def printf_eval a c)
  from syscall_unknown [OF assms this] a c show ?thesis by simp
qed

theorem syscall_unknown_number_witness:
  "\<exists>s'. syscall demo_k = Ret (True, s') \<and> cons_out s' = ''1 : unknown sys call 0'' @ [CHR 0x0A]"
proof -
  have "ld64 demo_mem 0x87ff00a8 = 0"
    using demo_mem_tf [of "0xa8"] by simp
  then have a7: "cur_arg demo_k 7 = 0" by (simp add: cur_arg_def demo_k_def demo_proc_def tf_a_def)
  have c: "pid (procs demo_k ! cur demo_k) = 1" "cstr (pname (procs demo_k ! cur demo_k)) = []" "cons_out demo_k = []"
    by (simp_all add: demo_k_def demo_proc_def cstr_def)
  have p: "printint (scast (1 :: u32)) 10 True = Some ''1''" "printint (scast (0 :: u32)) 10 True = Some ''0''"
    by (simp_all add: printint_def print_buf_def digit_loop.simps digits_def)
  have "call_num demo_k \<le> 0 \<or> 24 \<le> call_num demo_k" by (simp add: call_num_def a7)
  from syscall_unknown_number [OF this] show ?thesis using p by (auto simp: a7 c)
qed

end
