(* ===== verification/Asm.thy ===== *)
theory Asm
  imports Memlayout
begin

text \<open>
  The assembly of the kernel, instruction by instruction: \<^verbatim>\<open>kernel/trampoline.S\<close> (entry from and return to
  user space), \<^verbatim>\<open>kernel/swtch.S\<close> (context switch) and \<^verbatim>\<open>kernel/kernelvec.S\<close> (traps in the kernel). The code
  is straight-line, so a program is a list of instructions; memory is seen through the page table
  that \<open>satp\<close> selects.
\<close>

section \<open>Instructions\<close>

text \<open>Registers by their ABI names: \<open>T 0\<close> is \<^verbatim>\<open>t0\<close>, \<open>S 11\<close> is \<^verbatim>\<open>s11\<close>, \<open>A 7\<close> is \<^verbatim>\<open>a7\<close>.\<close>

datatype reg = Ra | Sp | Gp | Tp | T nat | S nat | A nat

datatype csr = Satp | Sscratch

datatype instr =
    Sd reg nat reg
  | Ld reg nat reg
  | Li reg u64
  | Addi reg reg int
  | Csrw csr reg
  | Csrr reg csr
  | Sfence
  | Jr reg
  | Ret_instr
  | Sret

record machine =
  xr :: "reg \<Rightarrow> u64"
  x_satp :: u64
  x_sscratch :: u64
  x_sepc :: u64
  x_pc :: u64
  vmem :: "u64 \<Rightarrow> memory"

fun exec1 :: "instr \<Rightarrow> machine \<Rightarrow> machine" where
  "exec1 (Sd r off b) s = s\<lparr>vmem := (vmem s)(x_satp s := st64 (vmem s (x_satp s)) (xr s b + of_nat off) (xr s r))\<rparr>"
| "exec1 (Ld r off b) s = s\<lparr>xr := (xr s)(r := ld64 (vmem s (x_satp s)) (xr s b + of_nat off))\<rparr>"
| "exec1 (Li r v) s = s\<lparr>xr := (xr s)(r := v)\<rparr>"
| "exec1 (Addi r r' i) s = s\<lparr>xr := (xr s)(r := xr s r' + of_int i)\<rparr>"
| "exec1 (Csrw Satp r) s = s\<lparr>x_satp := xr s r\<rparr>"
| "exec1 (Csrw Sscratch r) s = s\<lparr>x_sscratch := xr s r\<rparr>"
| "exec1 (Csrr r Satp) s = s\<lparr>xr := (xr s)(r := x_satp s)\<rparr>"
| "exec1 (Csrr r Sscratch) s = s\<lparr>xr := (xr s)(r := x_sscratch s)\<rparr>"
| "exec1 Sfence s = s"
| "exec1 (Jr r) s = s\<lparr>x_pc := xr s r\<rparr>"
| "exec1 Ret_instr s = s\<lparr>x_pc := xr s Ra\<rparr>"
| "exec1 Sret s = s\<lparr>x_pc := x_sepc s\<rparr>"

definition run_code :: "instr list \<Rightarrow> machine \<Rightarrow> machine" where
  "run_code is s = fold exec1 is s"

text \<open>A block of stores or loads at offsets from one register.\<close>

definition saves :: "reg \<Rightarrow> (reg \<times> nat) list \<Rightarrow> instr list" where
  "saves b rs = map (\<lambda>(r, k). Sd r k b) rs"

definition loads :: "reg \<Rightarrow> (reg \<times> nat) list \<Rightarrow> instr list" where
  "loads b rs = map (\<lambda>(r, k). Ld r k b) rs"

section \<open>The code\<close>

definition uservec_slots :: "(reg \<times> nat) list" where
  "uservec_slots =
     [(Ra, 40), (Sp, 48), (Gp, 56), (Tp, 64), (T 0, 72), (T 1, 80), (T 2, 88), (S 0, 96), (S 1, 104),
      (A 1, 120), (A 2, 128), (A 3, 136), (A 4, 144), (A 5, 152), (A 6, 160), (A 7, 168),
      (S 2, 176), (S 3, 184), (S 4, 192), (S 5, 200), (S 6, 208), (S 7, 216), (S 8, 224), (S 9, 232),
      (S 10, 240), (S 11, 248), (T 3, 256), (T 4, 264), (T 5, 272), (T 6, 280)]"

definition uservec_code :: "instr list" where
  "uservec_code =
     [Csrw Sscratch (A 0), Li (A 0) TRAPFRAME] @ saves (A 0) uservec_slots @
     [Csrr (T 0) Sscratch, Sd (T 0) 112 (A 0),
      Ld Sp 8 (A 0), Ld Tp 32 (A 0), Ld (T 0) 16 (A 0), Ld (T 1) 0 (A 0),
      Sfence, Csrw Satp (T 1), Sfence, Jr (T 0)]"

definition userret_slots :: "(reg \<times> nat) list" where
  "userret_slots =
     [(Ra, 40), (Sp, 48), (Gp, 56), (Tp, 64), (T 0, 72), (T 1, 80), (T 2, 88), (S 0, 96), (S 1, 104),
      (A 1, 120), (A 2, 128), (A 3, 136), (A 4, 144), (A 5, 152), (A 6, 160), (A 7, 168),
      (S 2, 176), (S 3, 184), (S 4, 192), (S 5, 200), (S 6, 208), (S 7, 216), (S 8, 224), (S 9, 232),
      (S 10, 240), (S 11, 248), (T 3, 256), (T 4, 264), (T 5, 272), (T 6, 280)]"

definition userret_code :: "instr list" where
  "userret_code =
     [Sfence, Csrw Satp (A 0), Sfence, Li (A 0) TRAPFRAME] @ loads (A 0) userret_slots @ [Ld (A 0) 112 (A 0), Sret]"

definition swtch_saves :: "(reg \<times> nat) list" where
  "swtch_saves =
     [(Ra, 0), (Sp, 8), (S 0, 16), (S 1, 24), (S 2, 32), (S 3, 40), (S 4, 48), (S 5, 56), (S 6, 64), (S 7, 72),
      (S 8, 80), (S 9, 88), (S 10, 96), (S 11, 104)]"

definition swtch_loads :: "(reg \<times> nat) list" where
  "swtch_loads =
     [(Ra, 0), (Sp, 8), (S 0, 16), (S 1, 24), (S 2, 32), (S 3, 40), (S 4, 48), (S 5, 56), (S 6, 64), (S 7, 72),
      (S 8, 80), (S 9, 88), (S 10, 96), (S 11, 104)]"

definition swtch_code :: "instr list" where
  "swtch_code = saves (A 0) swtch_saves @ loads (A 1) swtch_loads @ [Ret_instr]"

definition kernelvec_saves :: "(reg \<times> nat) list" where
  "kernelvec_saves =
     [(Ra, 0), (Sp, 8), (Gp, 16), (Tp, 24), (T 0, 32), (T 1, 40), (T 2, 48), (A 0, 72), (A 1, 80), (A 2, 88),
      (A 3, 96), (A 4, 104), (A 5, 112), (A 6, 120), (A 7, 128), (T 3, 216), (T 4, 224), (T 5, 232), (T 6, 240)]"

definition kernelvec_loads :: "(reg \<times> nat) list" where
  "kernelvec_loads =
     [(Ra, 0), (Sp, 8), (Gp, 16), (T 0, 32), (T 1, 40), (T 2, 48), (A 0, 72), (A 1, 80), (A 2, 88),
      (A 3, 96), (A 4, 104), (A 5, 112), (A 6, 120), (A 7, 128), (T 3, 216), (T 4, 224), (T 5, 232), (T 6, 240)]"

text \<open>The code before and after the call of \<open>kerneltrap\<close>.\<close>

definition kernelvec_enter :: "instr list" where
  "kernelvec_enter = Addi Sp Sp (-256) # saves Sp kernelvec_saves"

definition kernelvec_leave :: "instr list" where
  "kernelvec_leave = loads Sp kernelvec_loads @ [Addi Sp Sp 256, Sret]"

section \<open>Blocks of stores and loads\<close>

lemma run_code_Nil [simp]: "run_code [] s = s"
  by (simp add: run_code_def)

lemma run_code_Cons [simp]: "run_code (i # is) s = run_code is (exec1 i s)"
  by (simp add: run_code_def)

lemma run_code_append [simp]: "run_code (is @ js) s = run_code js (run_code is s)"
  by (simp add: run_code_def)

text \<open>Slots of eight bytes that do not overlap.\<close>

definition slots_ok :: "(reg \<times> nat) list \<Rightarrow> bool" where
  "slots_ok rs \<longleftrightarrow> distinct (map snd rs) \<and> (\<forall>(r, k) \<in> set rs. 8 dvd k \<and> k < 4096)"

lemma ld64_other:
  assumes "8 dvd j" and "8 dvd k" and "j < 4096" and "k < 4096" and "j \<noteq> k"
  shows "ld64 (st64 m (a + of_nat j) v) (a + of_nat k) = ld64 m (a + of_nat k)"
proof -
  have "8 \<le> unat (a + of_nat k + of_nat i - (a + of_nat j :: u64))" if "i < 8" for i
  proof (rule ccontr)
    let ?d = "a + of_nat k + of_nat i - (a + of_nat j) :: u64"
    assume "\<not> 8 \<le> unat ?d"
    then have d: "unat ?d < 8" by simp
    have "(of_nat (k + i) :: u64) = of_nat (j + unat ?d)" by simp
    then have "unat (of_nat (k + i) :: u64) = unat (of_nat (j + unat ?d) :: u64)" by (simp only:)
    moreover have "k + i < 2 ^ 64" "j + unat ?d < 2 ^ 64" using assms(3,4) d that by simp_all
    ultimately have "k + i = j + unat ?d" by (simp only: unat_of_nat_u64)
    then have "(k + i) div 8 = (j + unat ?d) div 8" by (simp only:)
    then have "k div 8 = j div 8" using d that assms(1,2) by (elim dvdE) simp
    then show False using assms(1,2,5) by (metis dvd_div_mult_self)
  qed
  then show ?thesis unfolding ld64_def st64_def by (subst mem_bytes_store_other) simp_all
qed

text \<open>The memory after a block of stores, and what it has in the slots.\<close>

definition stored :: "(reg \<Rightarrow> u64) \<Rightarrow> u64 \<Rightarrow> (reg \<times> nat) list \<Rightarrow> memory \<Rightarrow> memory" where
  "stored x a rs m = fold (\<lambda>(r, k) m. st64 m (a + of_nat k) (x r)) rs m"

lemma run_saves:
  "run_code (saves b rs) s = s\<lparr>vmem := (vmem s)(x_satp s := stored (xr s) (xr s b) rs (vmem s (x_satp s)))\<rparr>"
  by (induction rs arbitrary: s) (auto simp: saves_def stored_def)

lemma stored_cong: "(\<And>r. r \<in> fst ` set rs \<Longrightarrow> x r = y r) \<Longrightarrow> stored x a rs m = stored y a rs m"
  unfolding stored_def by (intro fold_cong) force+

lemma stored_other:
  assumes "8 dvd k" and "k < 4096" and "\<forall>(r, j) \<in> set rs. 8 dvd j \<and> j < 4096 \<and> j \<noteq> k"
  shows "ld64 (stored x a rs m) (a + of_nat k) = ld64 m (a + of_nat k)"
  using assms(3) by (induction rs arbitrary: m) (auto simp: stored_def ld64_other assms)

lemma stored_at:
  assumes "slots_ok rs" and "(r, k) \<in> set rs"
  shows "ld64 (stored x a rs m) (a + of_nat k) = x r"
  using assms
proof (induction rs arbitrary: m)
  case (Cons p rs)
  obtain r' j where p: "p = (r', j)" by (cases p)
  have ok: "slots_ok rs" using Cons.prems(1) by (simp add: slots_ok_def)
  have st: "stored x a (p # rs) m = stored x a rs (st64 m (a + of_nat j) (x r'))" by (simp add: stored_def p)
  show ?case
  proof (cases "(r, k) \<in> set rs")
    case True
    then show ?thesis unfolding st using Cons.IH [OF ok] by simp
  next
    case False
    then have "r = r'" "k = j" using Cons.prems(2) p by auto
    moreover have "\<forall>(r, i) \<in> set rs. 8 dvd i \<and> i < 4096 \<and> i \<noteq> j" "8 dvd j" "j < 4096"
      using Cons.prems(1) by (force simp: slots_ok_def p)+
    ultimately show ?thesis unfolding st using stored_other [of j rs x a] by simp
  qed
qed simp

text \<open>The registers after a block of loads that does not change the base register's value.\<close>

lemma run_loads:
  assumes "distinct (map fst rs)" and "\<And>k. (b, k) \<in> set rs \<Longrightarrow> ld64 (vmem s (x_satp s)) (xr s b + of_nat k) = xr s b"
  shows "run_code (loads b rs) s =
     s\<lparr>xr := \<lambda>r. case map_of rs r of Some k \<Rightarrow> ld64 (vmem s (x_satp s)) (xr s b + of_nat k) | None \<Rightarrow> xr s r\<rparr>"
  using assms
proof (induction rs arbitrary: s)
  case (Cons p rs)
  obtain r j where p: "p = (r, j)" by (cases p)
  let ?m = "vmem s (x_satp s)"
  let ?s = "s\<lparr>xr := (xr s)(r := ld64 ?m (xr s b + of_nat j))\<rparr>"
  have b: "xr ?s b = xr s b" using Cons.prems(2) [of j] p by auto
  have m: "vmem ?s (x_satp ?s) = ?m" by simp
  have d: "distinct (map fst rs)" using Cons.prems(1) by simp
  have k: "ld64 (vmem ?s (x_satp ?s)) (xr ?s b + of_nat k) = xr ?s b" if "(b, k) \<in> set rs" for k
    unfolding m b using Cons.prems(2) [of k] that by simp
  note Cons.IH [OF d k, unfolded m b]
  moreover have "map_of rs r = None" using Cons.prems(1) p by (auto simp: map_of_eq_None_iff)
  ultimately show ?case by (auto simp: loads_def p fun_eq_iff split: option.split)
qed (simp add: loads_def)

section \<open>Saving and restoring\<close>

definition user_regs :: "reg list" where
  "user_regs = [Ra, Sp, Gp, Tp] @ map T [0..<7] @ map S [0..<12] @ map A [0..<8]"

lemma user_slots:
  shows "slots_ok uservec_slots" and "userret_slots = uservec_slots" and "distinct (map fst uservec_slots)"
    and "A 0 \<notin> fst ` set uservec_slots" and "Tp \<in> fst ` set uservec_slots"
    and "k \<in> {0, 8, 16, 32, 112} \<Longrightarrow> \<forall>(r, j) \<in> set uservec_slots. 8 dvd j \<and> j < 4096 \<and> j \<noteq> k"
  by (auto simp: slots_ok_def uservec_slots_def userret_slots_def)

lemma user_regs_slots: "set user_regs = insert (A 0) (fst ` set uservec_slots)"
  by (auto simp: user_regs_def uservec_slots_def atLeast0_lessThan_Suc numeral_eq_Suc)

text \<open>Where a register is saved.\<close>

definition frame_slot :: "reg \<Rightarrow> nat" where
  "frame_slot r = (case map_of uservec_slots r of Some k \<Rightarrow> k | None \<Rightarrow> 112)"

lemma uservec_run:
  fixes s :: machine
  defines "m \<equiv> vmem s (x_satp s)"
  defines "m' \<equiv> st64 (stored (xr s) TRAPFRAME uservec_slots m) (TRAPFRAME + 112) (xr s (A 0))"
  shows "vmem (run_code uservec_code s) = (vmem s)(x_satp s := m')"
    and "x_satp (run_code uservec_code s) = ld64 m TRAPFRAME" and "xr (run_code uservec_code s) Sp = ld64 m (TRAPFRAME + 8)"
    and "x_pc (run_code uservec_code s) = ld64 m (TRAPFRAME + 16)" and "xr (run_code uservec_code s) Tp = ld64 m (TRAPFRAME + 32)"
proof -
  let ?t = "stored (xr s) TRAPFRAME uservec_slots m"
  have st: "stored ((xr s)(A 0 := v)) a uservec_slots m = stored (xr s) a uservec_slots m" for v a
    using user_slots(4) by (intro stored_cong) (metis fun_upd_apply)
  have k: "ld64 m' (TRAPFRAME + of_nat k) = ld64 m (TRAPFRAME + of_nat k)" if "k \<in> {0, 8, 16, 32}" for k
    using that stored_other [of k uservec_slots "xr s" TRAPFRAME m] user_slots(6) [of k] ld64_other [of 112 k ?t TRAPFRAME "xr s (A 0)"]
    unfolding m'_def by auto
  note ks = k [of 0, simplified] k [of 8, simplified] k [of 16, simplified] k [of 32, simplified]
  show "vmem (run_code uservec_code s) = (vmem s)(x_satp s := m')" "x_satp (run_code uservec_code s) = ld64 m TRAPFRAME"
    "xr (run_code uservec_code s) Sp = ld64 m (TRAPFRAME + 8)" "x_pc (run_code uservec_code s) = ld64 m (TRAPFRAME + 16)"
    "xr (run_code uservec_code s) Tp = ld64 m (TRAPFRAME + 32)"
    using ks by (simp_all add: uservec_code_def run_saves st m_def [symmetric] m'_def)
qed

lemma frame_saved:
  assumes "r \<in> set user_regs"
  shows "ld64 (st64 (stored x TRAPFRAME uservec_slots m) (TRAPFRAME + 112) (x (A 0))) (TRAPFRAME + of_nat (frame_slot r)) = x r"
proof (cases "r = A 0")
  case True
  then have "map_of uservec_slots r = None" using user_slots(4) by (simp add: map_of_eq_None_iff)
  then show ?thesis using True by (simp add: frame_slot_def)
next
  case False
  then obtain k where k: "(r, k) \<in> set uservec_slots" using assms unfolding user_regs_slots by auto
  then have "frame_slot r = k" using user_slots(3) by (simp add: frame_slot_def)
  moreover have "8 dvd k" "k < 4096" "k \<noteq> 112" using k user_slots(6) [of 112] by auto
  ultimately show ?thesis
    using stored_at [OF user_slots(1) k] ld64_other [of 112 k "stored x TRAPFRAME uservec_slots m" TRAPFRAME "x (A 0)"] by simp
qed

lemma userret_run:
  assumes "r \<in> set user_regs"
  shows "xr (run_code userret_code s) r = ld64 (vmem s (xr s (A 0))) (TRAPFRAME + of_nat (frame_slot r))"
    and "x_satp (run_code userret_code s) = xr s (A 0)" and "x_pc (run_code userret_code s) = x_sepc s"
    and "vmem (run_code userret_code s) = vmem s"
proof -
  let ?s = "s\<lparr>x_satp := xr s (A 0), xr := (xr s)(A 0 := TRAPFRAME)\<rparr>"
  have nb: "(A 0, k) \<notin> set userret_slots" for k using user_slots(2,4) by force
  have ld: "run_code (loads (A 0) userret_slots) ?s =
     ?s\<lparr>xr := \<lambda>r. case map_of userret_slots r of Some k \<Rightarrow> ld64 (vmem ?s (x_satp ?s)) (xr ?s (A 0) + of_nat k) | None \<Rightarrow> xr ?s r\<rparr>"
    using nb user_slots(2,3) by (intro run_loads) auto
  have a0: "map_of userret_slots (A 0) = None" using user_slots(2,4) by (simp add: map_of_eq_None_iff)
  have fs: "frame_slot r = (case map_of userret_slots r of Some k \<Rightarrow> k | None \<Rightarrow> 112)"
    by (simp add: frame_slot_def user_slots(2))
  have "r = A 0 \<or> (\<exists>k. map_of userret_slots r = Some k)"
    using assms user_slots(2) map_of_eq_None_iff [of userret_slots r] unfolding user_regs_slots by auto
  then show "xr (run_code userret_code s) r = ld64 (vmem s (xr s (A 0))) (TRAPFRAME + of_nat (frame_slot r))"
    using a0 fs by (auto simp: userret_code_def ld simp del: TRAPFRAME_def)
  show "x_satp (run_code userret_code s) = xr s (A 0)" "x_pc (run_code userret_code s) = x_sepc s"
    "vmem (run_code userret_code s) = vmem s"
    by (simp_all add: userret_code_def ld del: TRAPFRAME_def)
qed

text \<open>Stores into one block do not show in a block at least 112 bytes away.\<close>

lemma add_eq_diff:
  assumes "a + of_nat x = b + (of_nat y :: u64)" and "x \<le> y" and "y < 2 ^ 64"
  shows "unat (a - b) = y - x"
proof -
  have "a = b + of_nat y - of_nat x" using assms(1) by (metis add_diff_cancel_right')
  then have "a - b = of_nat (y - x)" using assms(2) by (simp add: of_nat_diff)
  then show ?thesis using assms(3) by (simp add: unat_of_nat_u64 del: of_nat_diff)
qed

lemma ld64_apart:
  assumes "112 \<le> unat (a - b)" and "112 \<le> unat (b - a)" and "j \<le> 104" and "k \<le> 104"
  shows "ld64 (st64 m (b + of_nat k) v) (a + of_nat j) = ld64 m (a + of_nat j)"
proof -
  have "8 \<le> unat (a + of_nat j + of_nat i - (b + of_nat k))" if "i < 8" for i
  proof (rule ccontr)
    define d where "d = unat (a + of_nat j + of_nat i - (b + of_nat k))"
    assume "\<not> 8 \<le> unat (a + of_nat j + of_nat i - (b + of_nat k))"
    then have d: "d < 8" by (simp add: d_def)
    have e: "a + of_nat (j + i) = b + of_nat (k + d)" by (simp add: d_def)
    show False
    proof (cases "j + i \<le> k + d")
      case True
      then show False using add_eq_diff [OF e True] assms(1,4) d by simp
    next
      case False
      then show False using add_eq_diff [OF e [symmetric]] assms(2,3) that by simp
    qed
  qed
  then show ?thesis unfolding ld64_def st64_def by (subst mem_bytes_store_other) simp_all
qed

lemma stored_apart:
  assumes "112 \<le> unat (a - b)" and "112 \<le> unat (b - a)" and "j \<le> 104" and "\<forall>(r, k) \<in> set rs. k \<le> 104"
  shows "ld64 (stored x b rs m) (a + of_nat j) = ld64 m (a + of_nat j)"
  using assms(4) by (induction rs arbitrary: m) (auto simp: stored_def ld64_apart [OF assms(1-3)])

lemma swtch_slots:
  shows "slots_ok swtch_saves" and "swtch_loads = swtch_saves" and "distinct (map fst swtch_loads)" and "A 1 \<notin> fst ` set swtch_loads"
    and "\<forall>(r, k) \<in> set swtch_saves. k \<le> 104" and "(Ra, 0) \<in> set swtch_saves"
  by (auto simp: slots_ok_def swtch_saves_def swtch_loads_def)

lemma swtch_run:
  fixes s :: machine
  defines "m \<equiv> stored (xr s) (xr s (A 0)) swtch_saves (vmem s (x_satp s))"
  shows "vmem (run_code swtch_code s) = (vmem s)(x_satp s := m)"
    and "(r, k) \<in> set swtch_loads \<Longrightarrow> xr (run_code swtch_code s) r = ld64 m (xr s (A 1) + of_nat k)"
    and "x_pc (run_code swtch_code s) = ld64 m (xr s (A 1))" and "x_satp (run_code swtch_code s) = x_satp s"
proof -
  let ?s = "s\<lparr>vmem := (vmem s)(x_satp s := m)\<rparr>"
  have nb: "(A 1, k) \<notin> set swtch_loads" for k using swtch_slots(4) by force
  have ld: "run_code (loads (A 1) swtch_loads) ?s =
     ?s\<lparr>xr := \<lambda>r. case map_of swtch_loads r of Some k \<Rightarrow> ld64 (vmem ?s (x_satp ?s)) (xr ?s (A 1) + of_nat k) | None \<Rightarrow> xr ?s r\<rparr>"
    using nb swtch_slots(3) by (intro run_loads) auto
  have ra: "map_of swtch_loads Ra = Some 0" by (simp add: swtch_loads_def)
  show "vmem (run_code swtch_code s) = (vmem s)(x_satp s := m)" "x_pc (run_code swtch_code s) = ld64 m (xr s (A 1))"
    "x_satp (run_code swtch_code s) = x_satp s"
    using ra by (simp_all add: swtch_code_def run_saves m_def [symmetric] ld del: One_nat_def)
  show "xr (run_code swtch_code s) r = ld64 m (xr s (A 1) + of_nat k)" if "(r, k) \<in> set swtch_loads"
    using that swtch_slots(3) by (simp add: swtch_code_def run_saves m_def [symmetric] ld del: One_nat_def)
qed

lemma kernelvec_slots:
  shows "slots_ok kernelvec_saves" and "distinct (map fst kernelvec_loads)" and "set kernelvec_loads = set kernelvec_saves - {(Tp, 24)}"
    and "(Sp, 8) \<in> set kernelvec_saves" and "(Sp, k) \<in> set kernelvec_saves \<Longrightarrow> k = 8" and "(Tp, k) \<in> set kernelvec_saves \<Longrightarrow> k = 24"
    and "distinct (map fst kernelvec_saves)"
  by (auto simp: slots_ok_def kernelvec_saves_def kernelvec_loads_def)

lemma user_regs_kernelvec: "set user_regs = fst ` set kernelvec_saves \<union> S ` {0..<12}"
  by (auto simp: user_regs_def kernelvec_saves_def atLeast0_lessThan_Suc numeral_eq_Suc)

section \<open>Properties\<close>

text \<open>
  Property C13. The trampoline saves and restores a user program completely. \<open>uservec\<close> enters the kernel
  with the page table, stack, hart id and handler that the trapframe names. When the kernel, whatever
  it does to the registers and to the rest of memory, later returns through \<open>userret\<close> with this page
  table and the saved slots as they were, all 31 registers have their old values and execution
  continues at \<open>sepc\<close>.
\<close>

theorem trampoline_roundtrip:
  fixes s s2 :: machine
  defines "s1 \<equiv> run_code uservec_code s" and "m \<equiv> vmem s (x_satp s)"
  assumes "xr s2 (A 0) = x_satp s"
    and "\<forall>r \<in> set user_regs. ld64 (vmem s2 (x_satp s)) (TRAPFRAME + of_nat (frame_slot r)) =
           ld64 (vmem s1 (x_satp s)) (TRAPFRAME + of_nat (frame_slot r))"
  shows "x_satp s1 = ld64 m TRAPFRAME \<and> xr s1 Sp = ld64 m (TRAPFRAME + 8) \<and> xr s1 Tp = ld64 m (TRAPFRAME + 32) \<and>
     x_pc s1 = ld64 m (TRAPFRAME + 16) \<and>
     (\<forall>r \<in> set user_regs. xr (run_code userret_code s2) r = xr s r) \<and>
     x_satp (run_code userret_code s2) = x_satp s \<and> x_pc (run_code userret_code s2) = x_sepc s2"
proof -
  have "xr (run_code userret_code s2) r = xr s r" if "r \<in> set user_regs" for r
  proof -
    have "xr (run_code userret_code s2) r = ld64 (vmem s1 (x_satp s)) (TRAPFRAME + of_nat (frame_slot r))"
      using userret_run(1) [OF that, of s2] assms(3,4) that by simp
    then show ?thesis using frame_saved [OF that] uservec_run(1) [of s] by (simp add: s1_def)
  qed
  moreover have "Ra \<in> set user_regs" by (simp add: user_regs_def)
  ultimately show ?thesis
    using uservec_run(2-5) [of s] userret_run(2,3) [of Ra s2] assms(3) by (simp add: s1_def m_def)
qed

definition demo_machine :: machine where
  "demo_machine = \<lparr>xr = (\<lambda>r. case r of A i \<Rightarrow> of_nat i + 7 | _ \<Rightarrow> 3), x_satp = 5, x_sscratch = 0, x_sepc = 16, x_pc = 0,
     vmem = (\<lambda>_ _. 0)\<rparr>"

theorem trampoline_roundtrip_witness:
  "xr (run_code userret_code ((run_code uservec_code demo_machine)\<lparr>xr := \<lambda>_. 5\<rparr>)) (A 2) = 9"
proof -
  have "A 2 \<in> set user_regs" by (simp add: user_regs_def)
  then show ?thesis
    using trampoline_roundtrip [of "(run_code uservec_code demo_machine)\<lparr>xr := \<lambda>_. 5\<rparr>" demo_machine]
    by (simp add: demo_machine_def)
qed

text \<open>
  Property C32. A context switch and the switch back preserve the callee-saved state. When a thread
  calls \<open>swtch(old, new)\<close> and some thread later calls \<open>swtch(other, old)\<close>, with another context to
  save to and the context \<open>old\<close> as the first call left it, then \<open>ra\<close>, \<open>sp\<close> and \<open>s0\<close> to \<open>s11\<close> are as
  they were at the first call, and execution continues where that call returns.
\<close>

theorem swtch_roundtrip:
  fixes s s2 :: machine
  defines "s1 \<equiv> run_code swtch_code s"
  assumes "x_satp s2 = x_satp s" and "xr s2 (A 1) = xr s (A 0)"
    and "112 \<le> unat (xr s (A 0) - xr s2 (A 0))" and "112 \<le> unat (xr s2 (A 0) - xr s (A 0))"
    and "\<forall>(r, k) \<in> set swtch_saves. ld64 (vmem s2 (x_satp s)) (xr s (A 0) + of_nat k) = ld64 (vmem s1 (x_satp s)) (xr s (A 0) + of_nat k)"
  shows "(\<forall>r \<in> {Ra, Sp} \<union> S ` {0..<12}. xr (run_code swtch_code s2) r = xr s r) \<and> x_pc (run_code swtch_code s2) = xr s Ra"
proof -
  have restored: "ld64 (stored (xr s2) (xr s2 (A 0)) swtch_saves (vmem s2 (x_satp s2))) (xr s2 (A 1) + of_nat k) = xr s r"
    if "(r, k) \<in> set swtch_saves" for r k
  proof -
    have "k \<le> 104" using swtch_slots(5) that by auto
    then have "ld64 (stored (xr s2) (xr s2 (A 0)) swtch_saves (vmem s2 (x_satp s2))) (xr s2 (A 1) + of_nat k) =
        ld64 (vmem s2 (x_satp s)) (xr s (A 0) + of_nat k)"
      unfolding assms(2,3) using stored_apart [OF assms(4,5) _ swtch_slots(5)] by blast
    also have "\<dots> = ld64 (vmem s1 (x_satp s)) (xr s (A 0) + of_nat k)" using assms(6) that by auto
    also have "\<dots> = xr s r" using stored_at [OF swtch_slots(1) that] swtch_run(1) [of s] by (simp add: s1_def)
    finally show ?thesis .
  qed
  have "xr (run_code swtch_code s2) r = xr s r" if "(r, k) \<in> set swtch_saves" for r k
    using swtch_run(2) [of r k s2] restored [OF that] that unfolding swtch_slots(2) by simp
  then have "\<forall>r \<in> fst ` set swtch_saves. xr (run_code swtch_code s2) r = xr s r" by auto
  moreover have "{Ra, Sp} \<union> S ` {0..<12} \<subseteq> fst ` set swtch_saves"
    by (auto simp: swtch_saves_def atLeast0_lessThan_Suc numeral_eq_Suc)
  moreover have "x_pc (run_code swtch_code s2) = xr s Ra" using swtch_run(3) [of s2] restored [OF swtch_slots(6)] by simp
  ultimately show ?thesis by blast
qed

theorem swtch_roundtrip_witness:
  "xr (run_code swtch_code ((run_code swtch_code (demo_machine\<lparr>xr := (xr demo_machine)(A 0 := 4096, A 1 := 8192)\<rparr>))\<lparr>xr := (\<lambda>_. 0)(A 0 := 8192, A 1 := 4096)\<rparr>)) (S 3) = 3"
proof -
  let ?s = "demo_machine\<lparr>xr := (xr demo_machine)(A 0 := 4096, A 1 := 8192)\<rparr>"
  let ?s2 = "(run_code swtch_code ?s)\<lparr>xr := (\<lambda>_. 0)(A 0 := 8192, A 1 := 4096)\<rparr>"
  have "x_satp (run_code swtch_code ?s) = x_satp ?s" by (rule swtch_run(4))
  then show ?thesis
    using swtch_roundtrip [of ?s2 ?s] by (simp add: demo_machine_def)
qed

text \<open>
  Property C33. A trap in the kernel is invisible to the code it interrupts. When \<open>kerneltrap\<close> keeps to the
  calling convention (it returns with the stack pointer, the callee-saved registers and the stack
  frame it was given), \<open>kernelvec\<close> restores every register except \<open>tp\<close>, which keeps the number of the
  CPU the handler returned on, and continues at \<open>sepc\<close>.
\<close>

theorem kernelvec_transparent:
  fixes s s2 :: machine
  defines "s1 \<equiv> run_code kernelvec_enter s"
  assumes "x_satp s2 = x_satp s" and "xr s2 Sp = xr s1 Sp" and "\<forall>i < 12. xr s2 (S i) = xr s1 (S i)"
    and "\<forall>(r, k) \<in> set kernelvec_saves. ld64 (vmem s2 (x_satp s)) (xr s1 Sp + of_nat k) = ld64 (vmem s1 (x_satp s)) (xr s1 Sp + of_nat k)"
  shows "(\<forall>r \<in> set user_regs. xr (run_code kernelvec_leave s2) r = (if r = Tp then xr s2 Tp else xr s r)) \<and>
     x_pc (run_code kernelvec_leave s2) = x_sepc s2"
proof -
  let ?sp = "xr s Sp - 256"
  let ?x = "(xr s)(Sp := ?sp)"
  have s1: "xr s1 = ?x" "vmem s1 (x_satp s) = stored ?x ?sp kernelvec_saves (vmem s (x_satp s))"
    by (simp_all add: s1_def kernelvec_enter_def run_saves)
  have slot: "ld64 (vmem s2 (x_satp s2)) (?sp + of_nat k) = ?x r" if "(r, k) \<in> set kernelvec_saves" for r k
    using assms(5) that stored_at [OF kernelvec_slots(1) that] unfolding assms(2) s1 by auto
  have sp2: "xr s2 Sp = ?sp" using assms(3) s1(1) by simp
  have ld: "run_code (loads Sp kernelvec_loads) s2 =
     s2\<lparr>xr := \<lambda>r. case map_of kernelvec_loads r of Some k \<Rightarrow> ld64 (vmem s2 (x_satp s2)) (xr s2 Sp + of_nat k) | None \<Rightarrow> xr s2 r\<rparr>"
  proof (rule run_loads [OF kernelvec_slots(2)])
    fix k assume "(Sp, k) \<in> set kernelvec_loads"
    then show "ld64 (vmem s2 (x_satp s2)) (xr s2 Sp + of_nat k) = xr s2 Sp"
      using slot [of Sp k] kernelvec_slots(3) by (simp add: sp2)
  qed
  have val: "(case map_of kernelvec_loads r of Some k \<Rightarrow> ld64 (vmem s2 (x_satp s2)) (xr s2 Sp + of_nat k) | None \<Rightarrow> xr s2 r) =
      (if r = Tp then xr s2 Tp else ?x r)" if "r \<in> set user_regs" for r
  proof (cases "r \<in> fst ` set kernelvec_loads")
    case True
    then obtain k where k: "(r, k) \<in> set kernelvec_loads" by auto
    then have "r \<noteq> Tp" "(r, k) \<in> set kernelvec_saves" using kernelvec_slots(3,6) by auto
    then show ?thesis using slot [of r k] k kernelvec_slots(2) by (simp add: sp2)
  next
    case False
    then have "map_of kernelvec_loads r = None" by (simp add: map_of_eq_None_iff)
    moreover have "r = Tp \<or> (\<exists>i < 12. r = S i)" using False that unfolding user_regs_kernelvec kernelvec_slots(3) by force
    ultimately show ?thesis using assms(4) s1(1) by auto
  qed
  have "Sp \<in> set user_regs" by (simp add: user_regs_def)
  then show ?thesis using val val [of Sp] by (auto simp: kernelvec_leave_def ld)
qed

theorem kernelvec_transparent_witness:
  "xr (run_code kernelvec_leave ((run_code kernelvec_enter demo_machine)\<lparr>xr := (\<lambda>r. if r = Sp then 3 - 256 else 3)\<rparr>)) (A 4) = 11"
proof -
  let ?s2 = "(run_code kernelvec_enter demo_machine)\<lparr>xr := (\<lambda>r. if r = Sp then 3 - 256 else 3)\<rparr>"
  have "x_satp ?s2 = x_satp demo_machine" "xr (run_code kernelvec_enter demo_machine) Sp = 3 - 256"
    "\<forall>i < 12. xr (run_code kernelvec_enter demo_machine) (S i) = 3"
    by (simp_all add: kernelvec_enter_def run_saves demo_machine_def)
  moreover have "A 4 \<in> set user_regs" by (simp add: user_regs_def)
  ultimately show ?thesis
    using kernelvec_transparent [of ?s2 demo_machine] by (simp add: demo_machine_def)
qed

end
