(* ===== verification/Boot.thy ===== *)
theory Boot
  imports Trap Vm_User
begin

text \<open>
  Starting a CPU: \<^verbatim>\<open>kernel/entry.S\<close>, \<^verbatim>\<open>kernel/start.c\<close> with the register accessors of \<^verbatim>\<open>kernel/riscv.h\<close> it uses, and
  \<^verbatim>\<open>kernel/main.c\<close>. The registers of machine mode are the record \<open>mregs\<close>.
\<close>

section \<open>Machine mode\<close>

datatype priv = PrivU | PrivS | PrivM

record mregs =
  mhartid :: u64
  mstatus :: u64
  mepc :: u64
  m_satp :: u64
  medeleg :: u64
  mideleg :: u64
  m_sie :: u64
  pmpaddr0 :: u64
  pmpcfg0 :: u64
  mie :: u64
  menvcfg :: u64
  mcounteren :: u64
  m_stimecmp :: u64
  m_time :: u64
  m_tp :: u64
  m_sp :: u64
  m_pc :: u64
  m_priv :: priv

definition MSTATUS_MPP_MASK :: u64 where "MSTATUS_MPP_MASK = push_bit 11 3"
definition MSTATUS_MPP_S :: u64 where "MSTATUS_MPP_S = push_bit 11 1"
definition SIE_SEIE :: u64 where "SIE_SEIE = push_bit 9 1"
definition SIE_STIE :: u64 where "SIE_STIE = push_bit 5 1"
definition SIE_SSIE :: u64 where "SIE_SSIE = push_bit 1 1"
definition MIE_STIE :: u64 where "MIE_STIE = push_bit 5 1"

definition r_mhartid :: "mregs \<Rightarrow> u64" where "r_mhartid = mhartid"
definition r_mstatus :: "mregs \<Rightarrow> u64" where "r_mstatus = mstatus"
definition w_mstatus :: "u64 \<Rightarrow> mregs \<Rightarrow> mregs" where "w_mstatus x m = m\<lparr>mstatus := x\<rparr>"
definition w_mepc :: "u64 \<Rightarrow> mregs \<Rightarrow> mregs" where "w_mepc x m = m\<lparr>mepc := x\<rparr>"
definition w_satp :: "u64 \<Rightarrow> mregs \<Rightarrow> mregs" where "w_satp x m = m\<lparr>m_satp := x\<rparr>"
definition w_medeleg :: "u64 \<Rightarrow> mregs \<Rightarrow> mregs" where "w_medeleg x m = m\<lparr>medeleg := x\<rparr>"
definition w_mideleg :: "u64 \<Rightarrow> mregs \<Rightarrow> mregs" where "w_mideleg x m = m\<lparr>mideleg := x\<rparr>"
definition r_sie :: "mregs \<Rightarrow> u64" where "r_sie = m_sie"
definition w_sie :: "u64 \<Rightarrow> mregs \<Rightarrow> mregs" where "w_sie x m = m\<lparr>m_sie := x\<rparr>"
definition w_pmpaddr0 :: "u64 \<Rightarrow> mregs \<Rightarrow> mregs" where "w_pmpaddr0 x m = m\<lparr>pmpaddr0 := x\<rparr>"
definition w_pmpcfg0 :: "u64 \<Rightarrow> mregs \<Rightarrow> mregs" where "w_pmpcfg0 x m = m\<lparr>pmpcfg0 := x\<rparr>"
definition r_mie :: "mregs \<Rightarrow> u64" where "r_mie = mie"
definition w_mie :: "u64 \<Rightarrow> mregs \<Rightarrow> mregs" where "w_mie x m = m\<lparr>mie := x\<rparr>"
definition r_menvcfg :: "mregs \<Rightarrow> u64" where "r_menvcfg = menvcfg"
definition w_menvcfg :: "u64 \<Rightarrow> mregs \<Rightarrow> mregs" where "w_menvcfg x m = m\<lparr>menvcfg := x\<rparr>"
definition r_mcounteren :: "mregs \<Rightarrow> u64" where "r_mcounteren = mcounteren"
definition w_mcounteren :: "u64 \<Rightarrow> mregs \<Rightarrow> mregs" where "w_mcounteren x m = m\<lparr>mcounteren := x\<rparr>"
definition r_time :: "mregs \<Rightarrow> u64" where "r_time = m_time"
definition w_stimecmp :: "u64 \<Rightarrow> mregs \<Rightarrow> mregs" where "w_stimecmp x m = m\<lparr>m_stimecmp := x\<rparr>"
definition w_tp :: "u64 \<Rightarrow> mregs \<Rightarrow> mregs" where "w_tp x m = m\<lparr>m_tp := x\<rparr>"

lemmas mreg_defs = r_mhartid_def r_mstatus_def w_mstatus_def w_mepc_def w_satp_def w_medeleg_def w_mideleg_def r_sie_def w_sie_def
  w_pmpaddr0_def w_pmpcfg0_def r_mie_def w_mie_def r_menvcfg_def w_menvcfg_def r_mcounteren_def w_mcounteren_def r_time_def
  w_stimecmp_def w_tp_def MSTATUS_MPP_MASK_def MSTATUS_MPP_S_def SIE_SEIE_def SIE_STIE_def SIE_SSIE_def MIE_STIE_def

text \<open>\<open>_entry\<close>: the stack of this CPU, given the address of \<open>stack0\<close>; then the call of \<open>start\<close>.\<close>

definition entry :: "u64 \<Rightarrow> mregs \<Rightarrow> mregs" where
  "entry stack0 m =
     (let sp = stack0; a0 = 1024 * 4; a1 = mhartid m; a1 = a1 + 1; a0 = a0 * a1; sp = sp + a0
      in m\<lparr>m_sp := sp\<rparr>)"

definition timerinit :: "mregs \<Rightarrow> mregs" where
  "timerinit m =
     (let m = w_mie (r_mie m OR MIE_STIE) m;
          m = w_menvcfg (r_menvcfg m OR push_bit 63 1) m;
          m = w_mcounteren (r_mcounteren m OR 2) m
      in w_stimecmp (r_time m + 1000000) m)"

text \<open>\<open>mret\<close>: privilege and program counter from \<open>mstatus.MPP\<close> and \<open>mepc\<close>.\<close>

definition mret :: "mregs \<Rightarrow> mregs" where
  "mret m = m\<lparr>m_pc := mepc m,
     m_priv := (let mpp = drop_bit 11 (mstatus m) AND 3 in if mpp = 0 then PrivU else if mpp = 1 then PrivS else PrivM)\<rparr>"

definition start_cpu :: "u64 \<Rightarrow> mregs \<Rightarrow> mregs" where
  "start_cpu main_addr m =
     (let x = r_mstatus m;
          x = x AND NOT MSTATUS_MPP_MASK;
          x = x OR MSTATUS_MPP_S;
          m = w_mstatus x m;
          m = w_mepc main_addr m;
          m = w_satp 0 m;
          m = w_medeleg 0xffff m;
          m = w_mideleg 0xffff m;
          m = w_sie (r_sie m OR SIE_SEIE OR SIE_STIE OR SIE_SSIE) m;
          m = w_pmpaddr0 0x3fffffffffffff m;
          m = w_pmpcfg0 0xf m;
          m = timerinit m;
          id = r_mhartid m;
          m = w_tp (scast (ucast id :: u32)) m
      in mret m)"

section \<open>Supervisor mode\<close>

definition kvminithart :: "('s ktrap_scheme, unit) kop" where
  "kvminithart = kmod (\<lambda>s. s\<lparr>satp := MAKE_SATP (kernel_pagetable s)\<rparr>)"

definition plic_write :: "(u64 \<times> u32) list \<Rightarrow> ('s ktrap_scheme, unit) kop" where
  "plic_write ws = kmod (\<lambda>s. s\<lparr>plic_writes := plic_writes s @ ws\<rparr>)"

text \<open>
  \<open>main\<close> on the first CPU and on the others. \<open>printfinit\<close>, \<open>trapinit\<close> and \<open>fileinit\<close> only initialise
  spinlocks; the writes of \<open>consoleinit\<close> to the UART and of \<open>virtio_disk_init\<close> to the disk are the result.
\<close>

definition main_first :: "vregs \<Rightarrow> ('s ktrap_scheme, (nat \<times> u8) list \<times> (nat \<times> u32) list) kop" where
  "main_first R =
     kseq (kprintf [CHR 0x0A] [])
    (kseq (kprintf (''xv6 kernel is booting'' @ [CHR 0x0A]) [])
    (kseq (kprintf [CHR 0x0A] [])
    (kseq kinit
    (kseq kvminit
    (kseq kvminithart
    (kseq procinit
    (kseq trapinithart
    (kseq (plic_write plicinit)
    (kbind (kget hart) (\<lambda>h.
     kseq (plic_write (plicinithart h))
    (kseq binit
    (kseq iinit
    (kbind (virtio_disk_init R) (\<lambda>w.
     kseq userinit
     (kret (fst consoleinit, w))))))))))))))))"

definition main_other :: "('s ktrap_scheme, unit) kop" where
  "main_other =
     kbind (kget hart) (\<lambda>h.
     kseq (kprintf (''hart %d starting'' @ [CHR 0x0A]) [VInt (ucast h)])
    (kseq kvminithart
    (kseq trapinithart
     (plic_write (plicinithart h)))))"

section \<open>Handing over\<close>

lemma mpp_supervisor: "(x AND 9007199254740988 OR 1) AND 3 = (1 :: u64)"
proof -
  have "(x AND 9007199254740988 OR 1) AND 3 = (x AND (9007199254740988 AND 3)) OR (1 AND 3 :: u64)"
    by (simp only: bit.conj_disj_distrib2 and.assoc)
  then show ?thesis by simp
qed

text \<open>
  \<open>start\<close> enters \<open>main\<close> in supervisor mode, with address translation off, all traps delegated and the
  number of the CPU in \<open>tp\<close>, whatever the registers held before.
\<close>

lemma start_enters_main:
  assumes "mhartid m < 8"
  shows "m_priv (start_cpu a m) = PrivS" and "m_pc (start_cpu a m) = a" and "m_satp (start_cpu a m) = 0"
    and "medeleg (start_cpu a m) = 0xffff" and "mideleg (start_cpu a m) = 0xffff" and "m_tp (start_cpu a m) = mhartid m"
proof -
  have "scast (ucast (mhartid m) :: u32) = mhartid m"
  proof -
    have "unat (mhartid m) < 8" using assms by (simp add: word_less_nat_alt)
    then show ?thesis using scast_ucast_small [of "unat (mhartid m)"] by simp
  qed
  then show "m_tp (start_cpu a m) = mhartid m" by (simp add: start_cpu_def timerinit_def Let_def mreg_defs mret_def)
qed (simp_all add: start_cpu_def timerinit_def Let_def mreg_defs mret_def mpp_supervisor)

end
