(* ===== verification/Sched.thy ===== *)
theory Sched
  imports Sleep Memlayout
begin

text \<open>
  The scheduler of \<^verbatim>\<open>kernel/proc.c\<close> on any number of CPUs: \<open>scheduler\<close>, \<open>sched\<close> and the callers of \<open>sched\<close>
  as interleaved steps of the CPUs. Each process and each CPU's scheduler is a thread; \<open>swtch\<close> moves a
  CPU from one to the other. The lock \<open>p->lock\<close> is taken by one thread and released by another.
\<close>

section \<open>Definitions\<close>

text \<open>
  What a CPU executes: its scheduler loop before and after \<open>acquire\<close>, after it found the process
  runnable, and after \<open>swtch\<close> came back; or process \<open>p\<close>, just switched to, with \<open>k\<close> locks other than those
  of processes, with its own lock as well, or with the lock of \<open>q\<close>, before and after it looked at \<open>q->state\<close>.
\<close>

datatype place =
    Sch_loop | Sch_look | Sch_chosen | Sch_back
  | Resumed nat | In_proc nat nat | Own nat nat | Touch nat nat nat | Touch_set nat nat nat procstate

text \<open>
  \<open>sch_p\<close> and \<open>sch_found\<close> are the local variables of \<open>scheduler\<close> on each CPU, \<open>saved_intena\<close> that of \<open>sched\<close> in each
  process; \<open>at_forkret\<close> says that the saved context of a process is the one \<open>allocproc\<close> made.
\<close>

record schedst =
  pstates :: "nat \<Rightarrow> procstate"
  plocks :: "nat \<Rightarrow> spinlock"
  cpus :: "nat \<Rightarrow> cpu"
  at_place :: "nat \<Rightarrow> place"
  sch_p :: "nat \<Rightarrow> nat"
  sch_found :: "nat \<Rightarrow> bool"
  saved_intena :: "nat \<Rightarrow> bool"
  at_forkret :: "nat \<Rightarrow> bool"

definition lock_slot :: "nat \<Rightarrow> nat \<Rightarrow> schedst \<Rightarrow> schedst outcome" where
  "lock_slot h q s = obind (acquire h (plocks s q) (cpus s h))
     (\<lambda>(lk, c). Ret (s\<lparr>plocks := (plocks s)(q := lk), cpus := (cpus s)(h := c)\<rparr>))"

definition unlock_slot :: "nat \<Rightarrow> nat \<Rightarrow> schedst \<Rightarrow> schedst outcome" where
  "unlock_slot h q s = obind (release h (plocks s q) (cpus s h))
     (\<lambda>(lk, c). Ret (s\<lparr>plocks := (plocks s)(q := lk), cpus := (cpus s)(h := c)\<rparr>))"

definition goto :: "nat \<Rightarrow> place \<Rightarrow> schedst \<Rightarrow> schedst" where
  "goto h l s = s\<lparr>at_place := (at_place s)(h := l)\<rparr>"

definition next_slot :: "nat \<Rightarrow> schedst \<Rightarrow> schedst" where
  "next_slot h s = s\<lparr>sch_p := (sch_p s)(h := sch_p s h + 1)\<rparr>"

text \<open>\<open>sched\<close> up to the switch, and from the switch back.\<close>

definition sched :: "nat \<Rightarrow> nat \<Rightarrow> schedst \<Rightarrow> schedst outcome" where
  "sched h p s =
     (if \<not> holding h (plocks s p) then Panic ''sched p->lock''
      else if noff (cpus s h) \<noteq> 1 then Panic ''sched locks''
      else if pstates s p = RUNNING then Panic ''sched running''
      else if sie (cpus s h) then Panic ''sched interruptible''
      else Ret (goto h Sch_back (s\<lparr>saved_intena := (saved_intena s)(p := intena (cpus s h)), at_forkret := (at_forkret s)(p := False)\<rparr>)))"

definition sched_back :: "nat \<Rightarrow> nat \<Rightarrow> schedst \<Rightarrow> schedst" where
  "sched_back h p s =
     (if at_forkret s p then s else s\<lparr>cpus := (cpus s)(h := (cpus s h)\<lparr>intena := saved_intena s p\<rparr>)\<rparr>)"

text \<open>The states that \<open>yield\<close>, \<open>sleep\<close> and \<open>exit\<close> give the process before \<open>sched\<close>.\<close>

definition leave_states :: "procstate list" where
  "leave_states = [RUNNABLE, SLEEPING, ZOMBIE]"

text \<open>
  What other processes do to a state: \<open>allocproc\<close>; \<open>fork\<close> and a failing \<open>fork\<close>; \<open>wakeup\<close> and \<open>kill\<close>; \<open>wait\<close>.
\<close>

fun touch_states :: "procstate \<Rightarrow> procstate list" where
  "touch_states UNUSED = [USED]"
| "touch_states USED = [RUNNABLE, UNUSED]"
| "touch_states SLEEPING = [RUNNABLE]"
| "touch_states ZOMBIE = [UNUSED]"
| "touch_states _ = []"

text \<open>One step of CPU \<open>h\<close>, with its outcome. A CPU that spins on a lock has the outcome \<open>Diverge\<close> and stays.\<close>

inductive sc_move :: "nat \<Rightarrow> schedst \<Rightarrow> schedst outcome \<Rightarrow> bool" where
  scan: "at_place s h = Sch_loop \<Longrightarrow> sch_p s h < NPROC \<Longrightarrow>
     sc_move h s (obind (lock_slot h (sch_p s h) s) (\<lambda>s. Ret (goto h Sch_look s)))"
| round: "at_place s h = Sch_loop \<Longrightarrow> \<not> sch_p s h < NPROC \<Longrightarrow>
     sc_move h s (Ret (s\<lparr>cpus := (cpus s)(h := (cpus s h)\<lparr>sie := True\<rparr>),
                       sch_p := (sch_p s)(h := 0), sch_found := (sch_found s)(h := False)\<rparr>))"
| skip: "at_place s h = Sch_look \<Longrightarrow> pstates s (sch_p s h) \<noteq> RUNNABLE \<Longrightarrow>
     sc_move h s (obind (unlock_slot h (sch_p s h) s) (\<lambda>s. Ret (goto h Sch_loop (next_slot h s))))"
| choose: "at_place s h = Sch_look \<Longrightarrow> pstates s (sch_p s h) = RUNNABLE \<Longrightarrow> sc_move h s (Ret (goto h Sch_chosen s))"
| run: "at_place s h = Sch_chosen \<Longrightarrow>
     sc_move h s (Ret (goto h (Resumed (sch_p s h))
       (s\<lparr>pstates := (pstates s)(sch_p s h := RUNNING), cpus := (cpus s)(h := (cpus s h)\<lparr>cproc := Some (sch_p s h)\<rparr>)\<rparr>)))"
| finished: "at_place s h = Sch_back \<Longrightarrow>
     sc_move h s (obind (unlock_slot h (sch_p s h)
         (s\<lparr>cpus := (cpus s)(h := (cpus s h)\<lparr>cproc := None\<rparr>), sch_found := (sch_found s)(h := True)\<rparr>))
       (\<lambda>s. Ret (goto h Sch_loop (next_slot h s))))"
| resume: "at_place s h = Resumed p \<Longrightarrow>
     sc_move h s (obind (unlock_slot h p (sched_back h p s)) (\<lambda>s. Ret (goto h (In_proc p 0) s)))"
| intr: "at_place s h = In_proc p 0 \<Longrightarrow> sc_move h s (Ret (s\<lparr>cpus := (cpus s)(h := (cpus s h)\<lparr>sie := b\<rparr>)\<rparr>))"
| take_lock: "at_place s h = In_proc p k \<Longrightarrow>
     sc_move h s (Ret (goto h (In_proc p (Suc k)) (s\<lparr>cpus := (cpus s)(h := push_off (cpus s h))\<rparr>)))"
| drop_lock: "at_place s h = In_proc p (Suc k) \<Longrightarrow>
     sc_move h s (obind (pop_off (cpus s h)) (\<lambda>c. Ret (goto h (In_proc p k) (s\<lparr>cpus := (cpus s)(h := c)\<rparr>))))"
| own_lock: "at_place s h = In_proc p k \<Longrightarrow> sc_move h s (obind (lock_slot h p s) (\<lambda>s. Ret (goto h (Own p k) s)))"
| own_unlock: "at_place s h = Own p k \<Longrightarrow> sc_move h s (obind (unlock_slot h p s) (\<lambda>s. Ret (goto h (In_proc p k) s)))"
| own_drop: "at_place s h = Own p (Suc k) \<Longrightarrow>
     sc_move h s (obind (pop_off (cpus s h)) (\<lambda>c. Ret (goto h (Own p k) (s\<lparr>cpus := (cpus s)(h := c)\<rparr>))))"
| leave: "at_place s h = Own p 0 \<Longrightarrow> st \<in> set leave_states \<Longrightarrow> sc_move h s (sched h p (s\<lparr>pstates := (pstates s)(p := st)\<rparr>))"
| touch: "at_place s h = In_proc p k \<Longrightarrow> q \<noteq> p \<Longrightarrow> sc_move h s (obind (lock_slot h q s) (\<lambda>s. Ret (goto h (Touch p k q) s)))"
| look: "at_place s h = Touch p k q \<Longrightarrow> st \<in> set (touch_states (pstates s q)) \<Longrightarrow> sc_move h s (Ret (goto h (Touch_set p k q st) s))"
| change: "at_place s h = Touch_set p k q st \<Longrightarrow>
     sc_move h s (Ret (goto h (Touch p k q)
       (s\<lparr>pstates := (pstates s)(q := st), at_forkret := (at_forkret s)(q := if st = USED then True else at_forkret s q)\<rparr>)))"
| untouch: "at_place s h = Touch p k q \<Longrightarrow> sc_move h s (obind (unlock_slot h q s) (\<lambda>s. Ret (goto h (In_proc p k) s)))"

inductive_cases sc_moveE: "sc_move h s r"

definition sc_step :: "schedst \<Rightarrow> schedst \<Rightarrow> bool" where
  "sc_step s s' \<longleftrightarrow> (\<exists>h. sc_move h s (Ret s'))"

text \<open>Every CPU enters \<open>scheduler\<close>; no process runs and no lock of a process is taken.\<close>

definition sc_init :: "schedst \<Rightarrow> bool" where
  "sc_init s \<longleftrightarrow>
     (\<forall>h. at_place s h = Sch_loop \<and> sch_p s h = 0 \<and> cproc (cpus s h) = None \<and> noff (cpus s h) = 0 \<and> sie (cpus s h)) \<and>
     (\<forall>p. pstates s p \<noteq> RUNNING \<and> \<not> locked (plocks s p))"

section \<open>Invariant\<close>

fun runs_at :: "place \<Rightarrow> nat option" where
  "runs_at (Resumed p) = Some p"
| "runs_at (In_proc p k) = Some p"
| "runs_at (Own p k) = Some p"
| "runs_at (Touch p k q) = Some p"
| "runs_at (Touch_set p k q st) = Some p"
| "runs_at _ = None"

text \<open>The process lock that belongs to a place, given the scheduler's variable \<open>p\<close>, and the nesting depth there.\<close>

fun lock_at :: "nat \<Rightarrow> place \<Rightarrow> nat option" where
  "lock_at i Sch_loop = None"
| "lock_at i Sch_look = Some i"
| "lock_at i Sch_chosen = Some i"
| "lock_at i Sch_back = Some i"
| "lock_at i (Resumed p) = Some p"
| "lock_at i (In_proc p k) = None"
| "lock_at i (Own p k) = Some p"
| "lock_at i (Touch p k q) = Some q"
| "lock_at i (Touch_set p k q st) = Some q"

fun depth_at :: "place \<Rightarrow> nat" where
  "depth_at Sch_loop = 0"
| "depth_at (In_proc p k) = k"
| "depth_at (Own p k) = Suc k"
| "depth_at (Touch p k q) = Suc k"
| "depth_at (Touch_set p k q st) = Suc k"
| "depth_at _ = 1"

definition sc_holds :: "schedst \<Rightarrow> nat \<Rightarrow> nat \<Rightarrow> bool" where
  "sc_holds s h q \<longleftrightarrow> lock_at (sch_p s h) (at_place s h) = Some q"

definition sc_runs :: "schedst \<Rightarrow> nat \<Rightarrow> nat \<Rightarrow> bool" where
  "sc_runs s h p \<longleftrightarrow> runs_at (at_place s h) = Some p"

definition sc_locks :: "schedst \<Rightarrow> bool" where
  "sc_locks s \<longleftrightarrow> (\<forall>h q. holding h (plocks s q) \<longleftrightarrow> sc_holds s h q) \<and> (\<forall>q. locked (plocks s q) \<longrightarrow> lkcpu (plocks s q) \<noteq> None)"

definition sc_cpus :: "schedst \<Rightarrow> bool" where
  "sc_cpus s \<longleftrightarrow> (\<forall>h. noff (cpus s h) = int (depth_at (at_place s h)) \<and> (0 < depth_at (at_place s h) \<longrightarrow> \<not> sie (cpus s h)))"

definition run_ok :: "schedst \<Rightarrow> nat \<Rightarrow> bool" where
  "run_ok s h \<longleftrightarrow> (case runs_at (at_place s h) of
      Some p \<Rightarrow> pstates s p = RUNNING \<and> cproc (cpus s h) = Some p \<and> sch_p s h = p
    | None \<Rightarrow> at_place s h = Sch_back \<or> cproc (cpus s h) = None)"

definition sc_running :: "schedst \<Rightarrow> bool" where
  "sc_running s \<longleftrightarrow> (\<forall>h. run_ok s h)"

definition sc_unique :: "schedst \<Rightarrow> bool" where
  "sc_unique s \<longleftrightarrow> (\<forall>h h' p. sc_runs s h p \<longrightarrow> sc_runs s h' p \<longrightarrow> h = h') \<and> (\<forall>p. pstates s p = RUNNING \<longrightarrow> (\<exists>h. sc_runs s h p))"

fun decided_at :: "nat \<Rightarrow> (nat \<Rightarrow> procstate) \<Rightarrow> place \<Rightarrow> bool" where
  "decided_at i f Sch_chosen = (f i = RUNNABLE)"
| "decided_at i f (Touch_set p k q st) = (f q \<noteq> RUNNING \<and> st \<noteq> RUNNING)"
| "decided_at i f _ = True"

definition sc_decided :: "schedst \<Rightarrow> bool" where
  "sc_decided s \<longleftrightarrow> (\<forall>h. decided_at (sch_p s h) (pstates s) (at_place s h))"

definition sc_inv :: "schedst \<Rightarrow> bool" where
  "sc_inv s \<longleftrightarrow> sc_locks s \<and> sc_cpus s \<and> sc_running s \<and> sc_unique s \<and> sc_decided s"

lemma sc_init_inv: "sc_init s \<Longrightarrow> sc_inv s"
  by (auto simp: sc_init_def sc_inv_def sc_locks_def sc_cpus_def sc_running_def run_ok_def sc_unique_def sc_decided_def
      sc_holds_def sc_runs_def holding_def)

lemma Ret_obind: "Ret t = obind r f \<longleftrightarrow> (\<exists>a. r = Ret a \<and> f a = Ret t)"
  by (cases r) auto

lemma lock_slot_Ret:
  "lock_slot h q s = Ret t \<longleftrightarrow> \<not> locked (plocks s q) \<and>
     t = s\<lparr>plocks := (plocks s)(q := (plocks s q)\<lparr>locked := True, lkcpu := Some h\<rparr>), cpus := (cpus s)(h := push_off (cpus s h))\<rparr>"
  by (auto simp: lock_slot_def acquire_def holding_def Let_def obind_def split: if_splits)

lemma pop_off_Ret:
  "pop_off c = Ret c' \<longleftrightarrow> \<not> sie c \<and> 1 \<le> noff c \<and> c' = c\<lparr>noff := noff c - 1, sie := (noff c = 1 \<and> intena c)\<rparr>"
  by (auto simp: pop_off_def Let_def)

lemma unlock_slot_Ret:
  "unlock_slot h q s = Ret t \<longleftrightarrow> holding h (plocks s q) \<and> (\<exists>c. pop_off (cpus s h) = Ret c \<and>
     t = s\<lparr>plocks := (plocks s)(q := (plocks s q)\<lparr>lkcpu := None, locked := False\<rparr>), cpus := (cpus s)(h := c)\<rparr>)"
  by (auto simp: unlock_slot_def release_def obind_def split: if_splits outcome.splits)

lemma push_off_facts [simp]: "noff (push_off c) = noff c + 1" "\<not> sie (push_off c)" "cproc (push_off c) = cproc c"
  by (simp_all add: push_off_def Let_def)

lemma Ret_sched:
  "Ret t = sched h p s \<longleftrightarrow> holding h (plocks s p) \<and> noff (cpus s h) = 1 \<and> pstates s p \<noteq> RUNNING \<and> \<not> sie (cpus s h) \<and>
     t = goto h Sch_back (s\<lparr>saved_intena := (saved_intena s)(p := intena (cpus s h)), at_forkret := (at_forkret s)(p := False)\<rparr>)"
  by (auto simp: sched_def)

lemmas sc_Ret = Ret_obind lock_slot_Ret unlock_slot_Ret pop_off_Ret Ret_sched goto_def next_slot_def sched_back_def

lemma sc_holds_unique: "sc_locks s \<Longrightarrow> sc_holds s h q \<Longrightarrow> sc_holds s h' q \<Longrightarrow> h = h'"
  unfolding sc_locks_def holding_def by (metis option.inject)


text \<open>A step of CPU \<open>h\<close> leaves the other CPUs alone and changes only the state of a process whose lock \<open>h\<close> holds.\<close>

lemma move_others:
  "sc_move h s (Ret s') \<Longrightarrow> h' \<noteq> h \<Longrightarrow> at_place s' h' = at_place s h' \<and> cpus s' h' = cpus s h' \<and> sch_p s' h' = sch_p s h'"
  by (erule sc_moveE) (auto simp: sc_Ret)

lemma move_pstates: "sc_move h s (Ret s') \<Longrightarrow> \<not> sc_holds s h q \<Longrightarrow> pstates s' q = pstates s q"
  by (erule sc_moveE) (auto simp: sc_Ret sc_holds_def)

lemma move_plocks: "sc_move h s (Ret s') \<Longrightarrow> \<not> sc_holds s h q \<Longrightarrow> \<not> sc_holds s' h q \<Longrightarrow> plocks s' q = plocks s q"
  by (erule sc_moveE) (auto simp: sc_Ret sc_holds_def)

lemma move_own_cpu:
  "sc_move h s (Ret s') \<Longrightarrow> sc_cpus s \<Longrightarrow>
     noff (cpus s' h) = int (depth_at (at_place s' h)) \<and> (0 < depth_at (at_place s' h) \<longrightarrow> \<not> sie (cpus s' h))"
  by (erule sc_moveE) (auto simp: sc_Ret sc_cpus_def)

lemma move_own_run:
  "sc_move h s (Ret s') \<Longrightarrow> run_ok s h \<Longrightarrow> decided_at (sch_p s h) (pstates s) (at_place s h) \<Longrightarrow> run_ok s' h"
  by (erule sc_moveE) (auto simp: sc_Ret run_ok_def)


lemma touch_states_facts: "st \<in> set (touch_states old) \<Longrightarrow> old \<noteq> RUNNING \<and> st \<noteq> RUNNING"
  by (cases old) auto

lemma leave_states_facts: "st \<in> set leave_states \<Longrightarrow> st \<noteq> RUNNING"
  by (auto simp: leave_states_def)

lemma move_own_decided: "sc_move h s (Ret s') \<Longrightarrow> decided_at (sch_p s' h) (pstates s') (at_place s' h)"
  by (erule sc_moveE) (auto simp: sc_Ret dest: touch_states_facts)

lemma move_lock:
  "sc_move h s (Ret s') \<Longrightarrow> run_ok s h \<Longrightarrow>
     (sc_holds s h q \<longrightarrow> sc_holds s' h q \<longrightarrow> plocks s' q = plocks s q) \<and>
     (sc_holds s h q \<longrightarrow> \<not> sc_holds s' h q \<longrightarrow> \<not> locked (plocks s' q)) \<and>
     (\<not> sc_holds s h q \<longrightarrow> sc_holds s' h q \<longrightarrow> \<not> locked (plocks s q) \<and> locked (plocks s' q) \<and> lkcpu (plocks s' q) = Some h)"
  by (erule sc_moveE) (auto simp: sc_Ret sc_holds_def run_ok_def)

lemma move_runs: "sc_move h s (Ret s') \<Longrightarrow> sc_runs s' h p \<Longrightarrow> sc_runs s h p \<or> at_place s h = Sch_chosen \<and> p = sch_p s h"
  by (erule sc_moveE) (auto simp: sc_Ret sc_runs_def)

lemma move_stops: "sc_move h s (Ret s') \<Longrightarrow> sc_runs s h p \<Longrightarrow> sc_runs s' h p \<or> pstates s' p \<noteq> RUNNING"
  by (erule sc_moveE) (auto simp: sc_Ret sc_runs_def dest: leave_states_facts)

lemma move_starts:
  "sc_move h s (Ret s') \<Longrightarrow> decided_at (sch_p s h) (pstates s) (at_place s h) \<Longrightarrow> pstates s' p = RUNNING \<Longrightarrow>
     pstates s p = RUNNING \<or> sc_runs s' h p"
  by (erule sc_moveE) (auto simp: sc_Ret sc_runs_def split: if_splits dest: leave_states_facts)

lemma sc_step_locks: 
  assumes i: "sc_inv s" and m: "sc_move h s (Ret s')"
  shows "sc_locks s'"
proof -
  have l: "sc_locks s" and r: "run_ok s h" using i by (simp_all add: sc_inv_def sc_running_def)
  have o: "sc_holds s' k q = sc_holds s k q" if "k \<noteq> h" for k q
    using move_others [OF m that] by (simp add: sc_holds_def)
  note L = move_lock [OF m r] and P = move_plocks [OF m] and U = sc_holds_unique [OF l]
  have "holding k (plocks s' q) \<longleftrightarrow> sc_holds s' k q" for k q
    by (metis L P U o l holding_def option.inject sc_locks_def)
  moreover have "lkcpu (plocks s' q) \<noteq> None" if "locked (plocks s' q)" for q
    by (metis L P that l option.simps(3) sc_locks_def)
  ultimately show ?thesis by (simp add: sc_locks_def)
qed

lemma sc_step_cpus:
  assumes "sc_inv s" and m: "sc_move h s (Ret s')"
  shows "sc_cpus s'"
proof -
  have "sc_cpus s" using assms(1) by (simp add: sc_inv_def)
  then show ?thesis using move_own_cpu [OF m] move_others [OF m] unfolding sc_cpus_def by metis
qed

lemma runs_RUNNING: "sc_running s \<Longrightarrow> sc_runs s h p \<Longrightarrow> pstates s p = RUNNING \<and> cproc (cpus s h) = Some p \<and> sch_p s h = p"
  by (auto simp: sc_running_def run_ok_def sc_runs_def split: option.splits dest: spec [of _ h])

text \<open>A process that another CPU runs keeps its state.\<close>

lemma move_other_running:
  assumes i: "sc_inv s" and m: "sc_move h s (Ret s')" and k: "k \<noteq> h" "sc_runs s k p"
  shows "pstates s' p = RUNNING"
proof (rule ccontr)
  assume n: "pstates s' p \<noteq> RUNNING"
  have p: "pstates s p = RUNNING" using runs_RUNNING i k(2) by (simp add: sc_inv_def)
  then have "sc_holds s h p" using move_pstates [OF m] n by metis
  have "\<not> sc_runs s h p" using i k unfolding sc_inv_def sc_unique_def by blast
  then show False using m n p i \<open>sc_holds s h p\<close> unfolding sc_inv_def sc_decided_def
    by (elim conjE, erule_tac x = h in allE) (erule sc_moveE, auto simp: sc_Ret sc_runs_def split: if_splits)
qed

lemma sc_step_running:
  assumes i: "sc_inv s" and m: "sc_move h s (Ret s')"
  shows "sc_running s'"
  unfolding sc_running_def
proof
  fix k
  have r: "run_ok s k" and d: "decided_at (sch_p s h) (pstates s) (at_place s h)"
    using i by (simp_all add: sc_inv_def sc_running_def sc_decided_def)
  show "run_ok s' k"
  proof (cases "k = h")
    case True
    then show ?thesis using move_own_run [OF m] r d by simp
  next
    case False
    then show ?thesis using move_others [OF m False] move_other_running [OF i m False] r
      by (simp add: run_ok_def sc_runs_def split: option.splits)
  qed
qed

lemma sc_step_unique:
  assumes i: "sc_inv s" and m: "sc_move h s (Ret s')"
  shows "sc_unique s'"
proof -
  have u: "sc_unique s" and d: "decided_at (sch_p s h) (pstates s) (at_place s h)" and r: "sc_running s"
    using i by (simp_all add: sc_inv_def sc_decided_def)
  have o: "sc_runs s' k p = sc_runs s k p" if "k \<noteq> h" for k p
    using move_others [OF m that] by (simp add: sc_runs_def)
  have n: "\<not> sc_runs s k (sch_p s h)" if "at_place s h = Sch_chosen" for k
    using d runs_RUNNING [OF r, of k "sch_p s h"] that by auto
  have "k = k'" if "sc_runs s' k p" "sc_runs s' k' p" for k k' p
    using that o n move_runs [OF m] u unfolding sc_unique_def by metis
  moreover have "\<exists>k. sc_runs s' k p" if "pstates s' p = RUNNING" for p
    using that o move_starts [OF m d] move_stops [OF m] u unfolding sc_unique_def by metis
  ultimately show ?thesis by (simp add: sc_unique_def)
qed

lemma decided_cong:
  "(\<And>q. lock_at i l = Some q \<Longrightarrow> f q = g q) \<Longrightarrow> decided_at i f l = decided_at i g l"
  by (cases l) auto

lemma sc_step_decided:
  assumes i: "sc_inv s" and m: "sc_move h s (Ret s')"
  shows "sc_decided s'"
  unfolding sc_decided_def
proof
  fix k
  show "decided_at (sch_p s' k) (pstates s') (at_place s' k)"
  proof (cases "k = h")
    case True
    then show ?thesis using move_own_decided [OF m] by simp
  next
    case False
    have "pstates s' q = pstates s q" if "lock_at (sch_p s k) (at_place s k) = Some q" for q
      using move_pstates [OF m] sc_holds_unique [of s k q h] i that False unfolding sc_inv_def sc_holds_def by metis
    then show ?thesis using move_others [OF m False] i decided_cong [of "sch_p s k" "at_place s k" "pstates s'" "pstates s"]
      by (simp add: sc_inv_def sc_decided_def)
  qed
qed

lemma sc_step_inv: "sc_inv s \<Longrightarrow> sc_step s s' \<Longrightarrow> sc_inv s'"
  unfolding sc_step_def using sc_step_locks sc_step_cpus sc_step_running sc_step_unique sc_step_decided
  unfolding sc_inv_def [of s'] by blast

interpretation sc: step_invariant sc_init sc_step sc_inv
  by unfold_locales (auto intro: sc_init_inv sc_step_inv)

text \<open>No step panics.\<close>

lemma sc_no_panic:
  assumes i: "sc_inv s" and m: "sc_move h s r"
  shows "r \<noteq> Panic e"
proof -
  have l: "holding h (plocks s q) \<longleftrightarrow> lock_at (sch_p s h) (at_place s h) = Some q" for q
    using i by (simp add: sc_inv_def sc_locks_def sc_holds_def)
  have c: "noff (cpus s h) = int (depth_at (at_place s h))" "0 < depth_at (at_place s h) \<longrightarrow> \<not> sie (cpus s h)"
    using i by (simp_all add: sc_inv_def sc_cpus_def)
  show ?thesis using m
    by (rule sc_moveE)
      (insert l c, auto simp: lock_slot_def unlock_slot_def acquire_def release_def pop_off_def sched_def sched_back_def Let_def
         obind_def dest: leave_states_facts split: if_splits outcome.splits)
qed

text \<open>A process that comes back from \<open>sched\<close>, on any CPU, has interrupts as they were when it left.\<close>

lemma resume_intena:
  assumes i: "sc_inv s" and h: "at_place s h = Resumed p" "\<not> at_forkret s p" and m: "sc_move h s (Ret t)"
  shows "at_place t h = In_proc p 0 \<and> sie (cpus t h) = saved_intena s p"
proof -
  have "noff (cpus s h) = 1" using i h(1) by (simp add: sc_inv_def sc_cpus_def)
  then show ?thesis using m h by - (erule sc_moveE, auto simp: sc_Ret)
qed

section \<open>Property\<close>

text \<open>
  Property C2. The scheduler on any number of CPUs. However the CPUs' steps interleave: two CPUs never run
  the same process; a process is \<open>RUNNING\<close> exactly when some CPU runs it, and \<open>c->proc\<close> of that CPU and the
  scheduler's own variable name it; no \<open>acquire\<close>, \<open>release\<close>, \<open>pop_off\<close> or check of \<open>sched\<close> panics; and a
  process that continues after \<open>sched\<close>, maybe on another CPU, has interrupts enabled as when it left.
\<close>

theorem scheduler_exclusive:
  assumes "sc_init s\<^sub>0" and "sc_step\<^sup>*\<^sup>* s\<^sub>0 s"
  shows "(\<forall>h h' p. sc_runs s h p \<and> sc_runs s h' p \<longrightarrow> h = h') \<and>
     (\<forall>p. pstates s p = RUNNING \<longleftrightarrow> (\<exists>h. sc_runs s h p)) \<and>
     (\<forall>h p. sc_runs s h p \<longrightarrow> cproc (cpus s h) = Some p \<and> sch_p s h = p) \<and>
     (\<forall>h r e. sc_move h s r \<longrightarrow> r \<noteq> Panic e) \<and>
     (\<forall>h p t. at_place s h = Resumed p \<and> \<not> at_forkret s p \<and> sc_move h s (Ret t) \<longrightarrow> sie (cpus t h) = saved_intena s p)"
proof -
  have i: "sc_inv s" by (rule sc.reach_inv [OF assms])
  then have u: "sc_unique s" and r: "sc_running s" by (simp_all add: sc_inv_def)
  have "\<forall>h h' p. sc_runs s h p \<and> sc_runs s h' p \<longrightarrow> h = h'" using u unfolding sc_unique_def by blast
  moreover have "\<forall>p. pstates s p = RUNNING \<longleftrightarrow> (\<exists>h. sc_runs s h p)" using u runs_RUNNING [OF r] unfolding sc_unique_def by blast
  moreover have "\<forall>h p. sc_runs s h p \<longrightarrow> cproc (cpus s h) = Some p \<and> sch_p s h = p" using runs_RUNNING [OF r] by blast
  moreover have "\<forall>h r e. sc_move h s r \<longrightarrow> r \<noteq> Panic e" using sc_no_panic [OF i] by blast
  moreover have "\<forall>h p t. at_place s h = Resumed p \<and> \<not> at_forkret s p \<and> sc_move h s (Ret t) \<longrightarrow> sie (cpus t h) = saved_intena s p"
    using resume_intena [OF i] by blast
  ultimately show ?thesis by (intro conjI)
qed

definition demo_sched :: schedst where
  "demo_sched = \<lparr>pstates = (\<lambda>p. if p = 0 then RUNNABLE else UNUSED), plocks = (\<lambda>p. initlock ''proc''),
     cpus = (\<lambda>h. \<lparr>cproc = None, noff = 0, intena = False, sie = True\<rparr>), at_place = (\<lambda>h. Sch_loop), sch_p = (\<lambda>h. 0),
     sch_found = (\<lambda>h. False), saved_intena = (\<lambda>p. False), at_forkret = (\<lambda>p. True)\<rparr>"

theorem scheduler_exclusive_witness:
  "\<exists>s. sc_step\<^sup>*\<^sup>* demo_sched s \<and> sc_runs s 1 0 \<and> (\<forall>h. sc_runs s h 0 \<longrightarrow> h = 1) \<and> (\<forall>r e. sc_move 1 s r \<longrightarrow> r \<noteq> Panic e)"
proof -
  have i: "sc_init demo_sched" by (simp add: sc_init_def demo_sched_def initlock_def)
  let ?s1 = "goto 1 Sch_look (demo_sched\<lparr>plocks := (plocks demo_sched)(0 := (plocks demo_sched 0)\<lparr>locked := True, lkcpu := Some 1\<rparr>),
      cpus := (cpus demo_sched)(1 := push_off (cpus demo_sched 1))\<rparr>)"
  let ?s2 = "goto 1 Sch_chosen ?s1"
  let ?s3 = "goto 1 (Resumed (sch_p ?s2 1)) (?s2\<lparr>pstates := (pstates ?s2)(sch_p ?s2 1 := RUNNING),
      cpus := (cpus ?s2)(1 := (cpus ?s2 1)\<lparr>cproc := Some (sch_p ?s2 1)\<rparr>)\<rparr>)"
  have "sc_step demo_sched ?s1" unfolding sc_step_def
    using scan [of demo_sched 1] by (intro exI [of _ 1]) (simp add: demo_sched_def initlock_def lock_slot_def acquire_def holding_def Let_def)
  moreover have "sc_step ?s1 ?s2" unfolding sc_step_def
    using choose [of ?s1 1] by (intro exI [of _ 1]) (simp add: demo_sched_def goto_def)
  moreover have "sc_step ?s2 ?s3" unfolding sc_step_def using run [of ?s2 1] by (intro exI [of _ 1]) (simp add: goto_def)
  ultimately have run: "sc_step\<^sup>*\<^sup>* demo_sched ?s3" by (meson converse_rtranclp_into_rtranclp rtranclp.rtrancl_refl)
  have r: "sc_runs ?s3 1 0" by (simp add: sc_runs_def goto_def demo_sched_def)
  have "\<forall>h. sc_runs ?s3 h 0 \<longrightarrow> h = 1" "\<forall>r e. sc_move 1 ?s3 r \<longrightarrow> r \<noteq> Panic e"
    using scheduler_exclusive [OF i run] r by blast+
  then show ?thesis using run r by blast
qed

end
