(* ===== verification/Uprog.thy ===== *)
theory Uprog
  imports Ulib Sysfile
begin

text \<open>
  User programs as trees of system calls: what a program does next depends on what the calls
  return. A program that forks has one subtree for the child and one for the parent. Loops whose
  length the system decides have a bound; \<open>Out_of_fuel\<close> marks a run that reached it.
\<close>

datatype ucall =
    C_open string u32
  | C_close int
  | C_read int nat
  | C_write int string
  | C_dup int
  | C_pipe
  | C_exec string "string list"
  | C_wait
  | C_kill u32
  | C_chdir string
  | C_mknod string int int
  | C_mkdir string
  | C_link string string
  | C_unlink string
  | C_sleep int
  | C_trace u32
  | C_fstat int
  | C_sysinfo

text \<open>What a call gives back: the return value and what it stored for the caller.\<close>

record ures =
  rv :: int
  rbytes :: string
  rfds :: "int \<times> int"
  rstat :: "int \<times> u32 \<times> u64"
  rinfo :: "u64 \<times> u64 \<times> u64"

datatype prog =
    Exit int
  | Call ucall "ures \<Rightarrow> prog"
  | Fork prog "int \<Rightarrow> prog"
  | Out_of_fuel

text \<open>\<open>fprintf\<close> writes each character with a call of its own (\<open>putc\<close>).\<close>

definition puts_fd :: "int \<Rightarrow> string \<Rightarrow> prog \<Rightarrow> prog" where
  "puts_fd fd txt k = foldr (\<lambda>c k. Call (C_write fd [c]) (\<lambda>_. k)) txt k"

definition fprintf :: "int \<Rightarrow> string \<Rightarrow> va list \<Rightarrow> prog \<Rightarrow> prog" where
  "fprintf fd fmt as k = (case vprintf fmt as of Some out \<Rightarrow> puts_fd fd out k | None \<Rightarrow> Out_of_fuel)"

definition NL :: char where
  "NL = CHR 0x0A"

end
