(* ===== verification/Sh.thy ===== *)
theory Sh
  imports Uprog
begin

text \<open>
  The shell, \<^verbatim>\<open>user/sh.c\<close>: tokens, the recursive-descent parser, the strings it leaves in the input
  buffer, and the system calls that run a parsed command. Pointers into the buffer are offsets.
  \<open>Panic e\<close> is the shell's own \<open>panic(e)\<close>, which prints the message and exits.
\<close>

section \<open>Commands\<close>

text \<open>
  \<open>struct cmd\<close> and its variants. A string is its offset and the offset of its end, as in \<open>argv\<close> and \<open>eargv\<close>,
  \<open>file\<close> and \<open>efile\<close>.
\<close>

datatype cmd =
    Execcmd "(nat \<times> nat) list"
  | Redircmd cmd nat nat u32 int
  | Pipecmd cmd cmd
  | Listcmd cmd cmd
  | Backcmd cmd

definition MAXARGS :: nat where [simp]: "MAXARGS = 10"

definition execcmd :: cmd where "execcmd = Execcmd []"
definition redircmd :: "cmd \<Rightarrow> nat \<Rightarrow> nat \<Rightarrow> u32 \<Rightarrow> int \<Rightarrow> cmd" where "redircmd subcmd file efile mode fd = Redircmd subcmd file efile mode fd"
definition pipecmd :: "cmd \<Rightarrow> cmd \<Rightarrow> cmd" where "pipecmd left right = Pipecmd left right"
definition listcmd :: "cmd \<Rightarrow> cmd \<Rightarrow> cmd" where "listcmd left right = Listcmd left right"
definition backcmd :: "cmd \<Rightarrow> cmd" where "backcmd subcmd = Backcmd subcmd"

lemmas cmd_defs = execcmd_def redircmd_def pipecmd_def listcmd_def backcmd_def

text \<open>\<open>cmd->argv[argc] = q; cmd->eargv[argc] = eq\<close> on the \<open>execcmd\<close> that the redirections in \<open>ret\<close> wrap.\<close>

fun add_arg :: "nat \<Rightarrow> nat \<Rightarrow> cmd \<Rightarrow> cmd" where
  "add_arg q eq (Execcmd args) = Execcmd (args @ [(q, eq)])"
| "add_arg q eq (Redircmd c f ef mode fd) = Redircmd (add_arg q eq c) f ef mode fd"
| "add_arg q eq c = c"

section \<open>Tokens\<close>

definition NUL :: char where "NUL = CHR 0x00"

definition whitespace :: string where "whitespace = [CHR '' '', CHR 0x09, CHR 0x0D, CHR 0x0A, CHR 0x0B]"
definition symbols :: string where "symbols = ''<|>&;()''"

definition rd :: "string \<Rightarrow> nat \<Rightarrow> char" where
  "rd b i = (if i < length b then b ! i else NUL)"

definition str_len :: "string \<Rightarrow> nat" where
  "str_len b = length (takeWhile (\<lambda>c. c \<noteq> NUL) b)"

function skip_ws :: "string \<Rightarrow> nat \<Rightarrow> nat \<Rightarrow> nat" where
  "skip_ws b es s = (if s < es \<and> rd b s \<in> set whitespace then skip_ws b es (s + 1) else s)"
  by pat_completeness auto
termination by (relation "measure (\<lambda>(b, es, s). es - s)") auto

function word_end :: "string \<Rightarrow> nat \<Rightarrow> nat \<Rightarrow> nat" where
  "word_end b es s =
     (if s < es \<and> rd b s \<notin> set whitespace \<and> rd b s \<notin> set symbols then word_end b es (s + 1) else s)"
  by pat_completeness auto
termination by (relation "measure (\<lambda>(b, es, s). es - s)") auto

declare skip_ws.simps [simp del] word_end.simps [simp del]

text \<open>The results are the token, \<open>*q\<close>, \<open>*eq\<close> and the new \<open>*ps\<close>.\<close>

definition gettoken :: "string \<Rightarrow> nat \<Rightarrow> nat \<Rightarrow> char \<times> nat \<times> nat \<times> nat" where
  "gettoken b es ps =
     (let s = skip_ws b es ps;
          q = s;
          c = rd b s;
          (ret, s) =
            (if c = NUL then (c, s)
             else if c \<in> set ''|();&<'' then (c, s + 1)
             else if c = CHR ''>'' then (let s = s + 1 in if rd b s = CHR ''>'' then (CHR ''+'', s + 1) else (c, s))
             else (CHR ''a'', word_end b es s));
          eq = s
      in (ret, q, eq, skip_ws b es s))"

definition peek :: "string \<Rightarrow> nat \<Rightarrow> nat \<Rightarrow> string \<Rightarrow> bool \<times> nat" where
  "peek b es ps toks = (let s = skip_ws b es ps in (rd b s \<noteq> NUL \<and> rd b s \<in> set toks, s))"

section \<open>Progress\<close>

lemma skip_ws_ge: "s \<le> skip_ws b es s"
  by (induction b es s rule: skip_ws.induct) (subst skip_ws.simps, auto)

lemma skip_ws_le: "s \<le> es \<Longrightarrow> skip_ws b es s \<le> es"
  by (induction b es s rule: skip_ws.induct) (subst skip_ws.simps, auto)

lemma skip_ws_stop: "\<not> (skip_ws b es s < es \<and> rd b (skip_ws b es s) \<in> set whitespace)"
  by (induction b es s rule: skip_ws.induct) (subst (1 2) skip_ws.simps, auto)

lemma skip_ws_idem [simp]: "skip_ws b es (skip_ws b es s) = skip_ws b es s"
  using skip_ws_stop [of b es s] by (subst skip_ws.simps) auto

lemma word_end_ge: "s \<le> word_end b es s"
  by (induction b es s rule: word_end.induct) (subst word_end.simps, auto)

lemma word_end_le: "s \<le> es \<Longrightarrow> word_end b es s \<le> es"
  by (induction b es s rule: word_end.induct) (subst word_end.simps, auto)

lemma gettoken_ge: "gettoken b es s = (t, q, eq, s') \<Longrightarrow> s \<le> q \<and> q \<le> eq \<and> eq \<le> s'"
  using skip_ws_ge word_end_ge by (auto simp: gettoken_def Let_def intro: order_trans split: if_splits)

lemma peek_progress:
  assumes "peek b es s toks = (True, s')" and "gettoken b es s' = (t, q, eq, s'')" and "set toks \<subseteq> set symbols"
  shows "s \<le> s' \<and> s' < length b \<and> s' < s''"
proof -
  have s': "s' = skip_ws b es s" "rd b s' \<noteq> NUL" "rd b s' \<in> set symbols" using assms(1,3) by (auto simp: peek_def Let_def)
  then have "s' < length b" by (auto simp: rd_def split: if_splits)
  moreover have "s' < eq" using assms(2) s' by (auto simp: gettoken_def Let_def symbols_def split: if_splits)
  ultimately show ?thesis using gettoken_ge [OF assms(2)] s' skip_ws_ge [of s b es] by simp
qed

section \<open>The parser\<close>

function parseredirs :: "string \<Rightarrow> nat \<Rightarrow> cmd \<Rightarrow> nat \<Rightarrow> (cmd \<times> nat) outcome" where
  "parseredirs b es c s =
     (case peek b es s ''<>'' of
        (False, s) \<Rightarrow> Ret (c, s)
      | (True, s) \<Rightarrow>
          (case gettoken b es s of (tok, _, _, s) \<Rightarrow>
           (case gettoken b es s of (tok2, q, eq, s) \<Rightarrow>
             if tok2 \<noteq> CHR ''a'' then Panic ''missing file for redirection''
             else parseredirs b es
               (if tok = CHR ''<'' then redircmd c q eq 0 0
                else if tok = CHR ''>'' then redircmd c q eq (O_WRONLY OR O_CREATE OR O_TRUNC) 1
                else if tok = CHR ''+'' then redircmd c q eq (O_WRONLY OR O_CREATE) 1
                else c) s)))"
  by pat_completeness auto
termination
proof (relation "measure (\<lambda>(b, es, c, s). length b - s)", goal_cases)
  case (2 b es c s found s1 tok r1 q0 r2 eq0 s2 tok2 r3 q r4 eq s3)
  then have "peek b es s ''<>'' = (True, s1)" "gettoken b es s1 = (tok, q0, eq0, s2)" "gettoken b es s2 = (tok2, q, eq, s3)" by auto
  then show ?case using peek_progress [of b es s "''<>''" s1 tok q0 eq0 s2] gettoken_ge [of b es s2 tok2 q eq s3]
    by (auto simp: symbols_def)
qed simp

declare parseredirs.simps [simp del]

function parseexec_loop :: "string \<Rightarrow> nat \<Rightarrow> nat \<Rightarrow> cmd \<Rightarrow> nat \<Rightarrow> (cmd \<times> nat) outcome" where
  "parseexec_loop b es argc ret s =
     (case peek b es s ''|)&;'' of
        (True, s) \<Rightarrow> Ret (ret, s)
      | (False, s) \<Rightarrow>
          (case gettoken b es s of (tok, q, eq, s) \<Rightarrow>
             if tok = NUL then Ret (ret, s)
             else if tok \<noteq> CHR ''a'' then Panic ''syntax''
             else if argc + 1 \<ge> MAXARGS then Panic ''too many args''
             else obind (parseredirs b es (add_arg q eq ret) s) (\<lambda>(ret, s). parseexec_loop b es (argc + 1) ret s)))"
  by pat_completeness auto
termination by (relation "measure (\<lambda>(b, es, argc, ret, s). MAXARGS - argc)") auto

declare parseexec_loop.simps [simp del]

function back_loop :: "string \<Rightarrow> nat \<Rightarrow> cmd \<Rightarrow> nat \<Rightarrow> cmd \<times> nat" where
  "back_loop b es c s =
     (case peek b es s ''&'' of
        (False, s) \<Rightarrow> (c, s)
      | (True, s) \<Rightarrow> (case gettoken b es s of (tok, _, _, s) \<Rightarrow> back_loop b es (backcmd c) s))"
  by pat_completeness auto
termination
proof (relation "measure (\<lambda>(b, es, c, s). length b - s)", goal_cases)
  case (2 b es c s found s1 tok r1 q0 r2 eq0 s2)
  then have "peek b es s ''&'' = (True, s1)" "gettoken b es s1 = (tok, q0, eq0, s2)" by auto
  then show ?case using peek_progress [of b es s "''&''" s1 tok q0 eq0 s2] by (auto simp: symbols_def)
qed simp

declare back_loop.simps [simp del]

text \<open>The four functions that call one another have fuel; \<open>parse_fuel\<close> below is enough.\<close>

function (sequential) parseline :: "nat \<Rightarrow> string \<Rightarrow> nat \<Rightarrow> nat \<Rightarrow> (cmd \<times> nat) outcome"
  and parsepipe :: "nat \<Rightarrow> string \<Rightarrow> nat \<Rightarrow> nat \<Rightarrow> (cmd \<times> nat) outcome"
  and parseexec :: "nat \<Rightarrow> string \<Rightarrow> nat \<Rightarrow> nat \<Rightarrow> (cmd \<times> nat) outcome"
  and parseblock :: "nat \<Rightarrow> string \<Rightarrow> nat \<Rightarrow> nat \<Rightarrow> (cmd \<times> nat) outcome" where
  "parseline 0 b es s = Diverge"
| "parseline (Suc n) b es s =
     obind (parsepipe n b es s) (\<lambda>(c, s).
     case back_loop b es c s of (c, s) \<Rightarrow>
    (case peek b es s '';'' of
        (False, s) \<Rightarrow> Ret (c, s)
      | (True, s) \<Rightarrow> (case gettoken b es s of (tok, _, _, s) \<Rightarrow>
          obind (parseline n b es s) (\<lambda>(r, s). Ret (listcmd c r, s)))))"
| "parsepipe 0 b es s = Diverge"
| "parsepipe (Suc n) b es s =
     obind (parseexec n b es s) (\<lambda>(c, s).
    (case peek b es s ''|'' of
        (False, s) \<Rightarrow> Ret (c, s)
      | (True, s) \<Rightarrow> (case gettoken b es s of (tok, _, _, s) \<Rightarrow>
          obind (parsepipe n b es s) (\<lambda>(r, s). Ret (pipecmd c r, s)))))"
| "parseexec 0 b es s = Diverge"
| "parseexec (Suc n) b es s =
    (case peek b es s ''('' of
        (True, s) \<Rightarrow> parseblock n b es s
      | (False, s) \<Rightarrow> obind (parseredirs b es execcmd s) (\<lambda>(ret, s). parseexec_loop b es 0 ret s))"
| "parseblock 0 b es s = Diverge"
| "parseblock (Suc n) b es s =
    (case peek b es s ''('' of
        (False, s) \<Rightarrow> Panic ''parseblock''
      | (True, s) \<Rightarrow> (case gettoken b es s of (tok, _, _, s) \<Rightarrow>
          obind (parseline n b es s) (\<lambda>(c, s).
         (case peek b es s '')'' of
             (False, s) \<Rightarrow> Panic ''syntax - missing )''
           | (True, s) \<Rightarrow> (case gettoken b es s of (tok, _, _, s) \<Rightarrow> parseredirs b es c s)))))"

  by pat_completeness auto
termination
  by (relation "measure (case_sum (case_sum (\<lambda>p. fst p) (\<lambda>p. fst p)) (case_sum (\<lambda>p. fst p) (\<lambda>p. fst p)))") simp_all

text \<open>The buffer with the strings of the command ended by NUL bytes.\<close>

fun nulterminate :: "cmd \<Rightarrow> string \<Rightarrow> string" where
  "nulterminate (Execcmd args) b = foldl (\<lambda>b (q, eq). b[eq := NUL]) b args"
| "nulterminate (Redircmd c f ef mode fd) b = (nulterminate c b)[ef := NUL]"
| "nulterminate (Pipecmd l r) b = nulterminate r (nulterminate l b)"
| "nulterminate (Listcmd l r) b = nulterminate r (nulterminate l b)"
| "nulterminate (Backcmd c) b = nulterminate c b"

definition parse_fuel :: "string \<Rightarrow> nat" where
  "parse_fuel b = 4 * length b + 4"

definition parsecmd :: "string \<Rightarrow> (cmd \<times> string) outcome" where
  "parsecmd b =
     (let es = str_len b in
      obind (parseline (parse_fuel b) b es 0) (\<lambda>(c, s).
      case peek b es s '''' of (_, s) \<Rightarrow>
        if s \<noteq> es then Panic ''syntax'' else Ret (c, nulterminate c b)))"

section \<open>The words of a line\<close>

text \<open>The tokens of the line from \<open>s\<close> on, by repeated \<open>gettoken\<close>, and those of them that are words.\<close>

function toks :: "string \<Rightarrow> nat \<Rightarrow> nat \<Rightarrow> (char \<times> nat \<times> nat) list" where
  "toks b es s = (case gettoken b es s of (t, q, eq, s') \<Rightarrow>
     if t = NUL \<or> es \<le> q \<or> eq \<le> q then [] else (t, q, eq) # toks b es s')"
  by pat_completeness auto
termination by (relation "measure (\<lambda>(b, es, s). es - s)") (auto dest!: gettoken_ge [OF sym])

declare toks.simps [simp del]

definition line_words :: "string \<Rightarrow> nat \<Rightarrow> nat \<Rightarrow> (nat \<times> nat) multiset" where
  "line_words b es s = mset (map snd (filter (\<lambda>(t, w). t = CHR ''a'') (toks b es s)))"

fun words :: "cmd \<Rightarrow> (nat \<times> nat) list" where
  "words (Execcmd args) = args"
| "words (Redircmd c f ef mode fd) = words c @ [(f, ef)]"
| "words (Pipecmd l r) = words l @ words r"
| "words (Listcmd l r) = words l @ words r"
| "words (Backcmd c) = words c"

text \<open>A buffer whose string ends at \<open>es\<close>.\<close>

definition line_at :: "string \<Rightarrow> nat \<Rightarrow> bool" where
  "line_at b es \<longleftrightarrow> es < length b \<and> rd b es = NUL \<and> (\<forall>i < es. rd b i \<noteq> NUL)"

definition word_char :: "char \<Rightarrow> bool" where
  "word_char c \<longleftrightarrow> c \<noteq> NUL \<and> c \<notin> set whitespace \<and> c \<notin> set symbols"

lemma line_at_str_len: "NUL \<in> set b \<Longrightarrow> line_at b (str_len b)"
proof -
  assume n: "NUL \<in> set b"
  let ?t = "takeWhile (\<lambda>c. c \<noteq> NUL) b"
  have l: "length ?t < length b" using n by (induction b) auto
  then have "b ! length ?t = NUL" using nth_length_takeWhile by blast
  moreover have "b ! i \<noteq> NUL" if "i < length ?t" for i
  proof -
    have "?t ! i \<in> set ?t" using that by simp
    then show ?thesis using takeWhile_nth [OF that] by (auto dest: set_takeWhileD)
  qed
  ultimately show ?thesis using l by (simp add: line_at_def str_len_def rd_def)
qed

lemma word_end_word:
  "i < word_end b es s \<Longrightarrow> s \<le> i \<Longrightarrow> i < es \<and> rd b i \<notin> set whitespace \<and> rd b i \<notin> set symbols"
proof (induction b es s rule: word_end.induct)
  case (1 b es s)
  then show ?case by (subst (asm) (2) word_end.simps) (cases "i = s", auto split: if_splits)
qed

lemma word_end_stop: "\<not> (word_end b es s < es \<and> rd b (word_end b es s) \<notin> set whitespace \<and> rd b (word_end b es s) \<notin> set symbols)"
proof (induction b es s rule: word_end.induct)
  case (1 b es s)
  then show ?case by (subst (1 2 3) word_end.simps) auto
qed

text \<open>One token: where it is, and what is around a word.\<close>

lemma gettoken_eq:
  assumes "gettoken b es s = (t, q, eq, s')"
  shows "q = skip_ws b es s" and "s' = skip_ws b es eq"
    and "rd b q = NUL \<Longrightarrow> t = NUL \<and> eq = q"
    and "rd b q \<in> set symbols \<Longrightarrow> t \<noteq> NUL \<and> t \<noteq> CHR ''a'' \<and> (eq = q + 1 \<or> eq = q + 2 \<and> rd b (q + 1) \<noteq> NUL)"
    and "rd b q \<noteq> NUL \<Longrightarrow> rd b q \<notin> set symbols \<Longrightarrow> t = CHR ''a'' \<and> eq = word_end b es q"
proof -
  define p where "p = skip_ws b es s"
  define c where "c = rd b p"
  define r where "r = (if c = NUL then (c, p)
     else if c \<in> set ''|();&<'' then (c, p + 1)
     else if c = CHR ''>'' then (if rd b (p + 1) = CHR ''>'' then (CHR ''+'', p + 2) else (c, p + 1))
     else (CHR ''a'', word_end b es p))"
  have "gettoken b es s = (fst r, p, snd r, skip_ws b es (snd r))"
    by (simp add: gettoken_def Let_def r_def c_def p_def)
  then have r: "t = fst r" "q = p" "eq = snd r" "s' = skip_ws b es (snd r)" using assms by simp_all
  show "q = skip_ws b es s" "s' = skip_ws b es eq" using r by (simp_all add: p_def)
  show "t = NUL \<and> eq = q" if "rd b q = NUL" using that r by (simp add: r_def c_def)
  show "t \<noteq> NUL \<and> t \<noteq> CHR ''a'' \<and> (eq = q + 1 \<or> eq = q + 2 \<and> rd b (q + 1) \<noteq> NUL)" if "rd b q \<in> set symbols"
  proof -
    have "c \<in> set symbols" using that r by (simp add: c_def)
    then consider "c \<in> set ''|();&<''" | "c = CHR ''>''" by (auto simp: symbols_def)
    then show ?thesis
    proof cases
      case 1
      then have "r = (c, p + 1)" "c \<noteq> NUL" "c \<noteq> CHR ''a''" by (auto simp: r_def NUL_def)
      then show ?thesis using r by simp
    next
      case 2
      then show ?thesis using r by (auto simp: r_def NUL_def)
    qed
  qed
  show "t = CHR ''a'' \<and> eq = word_end b es q" if "rd b q \<noteq> NUL" "rd b q \<notin> set symbols"
  proof -
    have "c \<noteq> NUL" "c \<notin> set ''|();&<''" "c \<noteq> CHR ''>''" using that r by (auto simp: c_def symbols_def)
    then have "r = (CHR ''a'', word_end b es p)" unfolding r_def by metis
    then show ?thesis using r by simp
  qed
qed

lemma line_at_NUL: "line_at b es \<Longrightarrow> i \<le> es \<Longrightarrow> rd b i = NUL \<longleftrightarrow> i = es"
  by (auto simp: line_at_def order_le_less)

lemma gettoken_end:
  assumes l: "line_at b es" and s: "s \<le> es" and g: "gettoken b es s = (t, q, eq, s')" and q: "q = es"
  shows "t = NUL \<and> s' = es"
  using gettoken_eq(2,3) [OF g] line_at_NUL [OF l, of es] q skip_ws_ge [of es b es] skip_ws_le [of es es b] by simp

lemma gettoken_in:
  assumes l: "line_at b es" and s: "s \<le> es" and g: "gettoken b es s = (t, q, eq, s')" and q: "q \<noteq> es"
  shows "q < es \<and> t \<noteq> NUL \<and> q < eq \<and> eq \<le> es \<and> s' \<le> es"
proof -
  note e = gettoken_eq [OF g]
  have qe: "q < es" using e(1) skip_ws_le [OF s, of b] q by simp
  have n: "rd b q \<noteq> NUL" using line_at_NUL [OF l, of q] qe by simp
  have "t \<noteq> NUL \<and> q < eq \<and> eq \<le> es"
  proof (cases "rd b q \<in> set symbols")
    case True
    then show ?thesis using e(4) qe line_at_NUL [OF l, of "q + 1"] by auto
  next
    case False
    have "rd b q \<notin> set whitespace" using skip_ws_stop [of b es s] e(1) qe by simp
    then have "q < word_end b es q" using False qe word_end_ge [of "q + 1" b es] by (subst word_end.simps) simp
    then show ?thesis using e(5) [OF n False] word_end_le [of q es b] qe by (simp add: NUL_def)
  qed
  then show ?thesis using qe e(2) skip_ws_le [of eq es b] by simp
qed

definition is_word :: "string \<Rightarrow> nat \<Rightarrow> nat \<Rightarrow> bool" where
  "is_word b q eq \<longleftrightarrow> q < eq \<and> (\<forall>i. q \<le> i \<and> i < eq \<longrightarrow> word_char (rd b i)) \<and> \<not> word_char (rd b eq)"

lemma gettoken_word:
  assumes l: "line_at b es" and s: "s \<le> es" and g: "gettoken b es s = (CHR ''a'', q, eq, s')"
  shows "is_word b q eq \<and> eq \<le> es"
proof -
  note e = gettoken_eq [OF g]
  have q: "q \<noteq> es" using gettoken_end [OF l s g] by (auto simp: NUL_def)
  note i = gettoken_in [OF l s g q]
  then have n: "rd b q \<noteq> NUL" using line_at_NUL [OF l, of q] by simp
  have ns: "rd b q \<notin> set symbols" using e(4) by auto
  have eq: "eq = word_end b es q" using e(5) [OF n ns] by simp
  have "word_char (rd b j)" if "q \<le> j" "j < eq" for j
    using word_end_word [of j b es q] that eq line_at_NUL [OF l, of j] by (auto simp: word_char_def)
  moreover have "\<not> word_char (rd b eq)"
    using word_end_stop [of b es q] eq line_at_NUL [OF l, of eq] i by (auto simp: word_char_def)
  ultimately show ?thesis using i by (simp add: is_word_def)
qed

lemma line_words_end: "line_at b es \<Longrightarrow> line_words b es es = {#}"
proof -
  assume l: "line_at b es"
  obtain t q eq s' where g: "gettoken b es es = (t, q, eq, s')" by (cases "gettoken b es es") auto
  have "q = es" using gettoken_eq(1) [OF g] skip_ws_ge [of es b es] skip_ws_le [of es es b] by simp
  then show ?thesis using g by (simp add: line_words_def toks.simps [of b es es])
qed

lemma line_words_skip: "line_words b es (skip_ws b es s) = line_words b es s"
proof -
  have "gettoken b es (skip_ws b es s) = gettoken b es s" by (simp add: gettoken_def)
  then show ?thesis by (simp add: line_words_def toks.simps [of b es s] toks.simps [of b es "skip_ws b es s"])
qed

text \<open>A token takes its word out of the words of the rest of the line.\<close>

lemma line_words_token:
  assumes l: "line_at b es" and s: "s \<le> es" and g: "gettoken b es s = (t, q, eq, s')"
  shows "line_words b es s = (if t = CHR ''a'' then {#(q, eq)#} else {#}) + line_words b es s'"
proof (cases "q = es")
  case True
  then show ?thesis using gettoken_end [OF l s g] line_words_end [OF l] g
    by (simp add: line_words_def toks.simps [of b es s] NUL_def)
next
  case False
  then show ?thesis using gettoken_in [OF l s g] g gettoken_ge [OF g]
    by (simp add: line_words_def toks.simps [of b es s])
qed

lemma peek_facts:
  assumes "peek b es s ts = (f, s')" and "s \<le> es"
  shows "s \<le> s'" and "s' \<le> es" and "line_words b es s' = line_words b es s" and "f \<longleftrightarrow> rd b s' \<noteq> NUL \<and> rd b s' \<in> set ts" and "skip_ws b es s' = s'"
  using assms skip_ws_ge [of s b es] skip_ws_le [of s es b] by (auto simp: peek_def Let_def line_words_skip)

text \<open>A symbol that \<open>peek\<close> saw is consumed by \<open>gettoken\<close>, and it is no word.\<close>

lemma peek_token:
  assumes l: "line_at b es" and s: "s \<le> es" and p: "peek b es s ts = (True, s1)" "set ts \<subseteq> set symbols"
    and g: "gettoken b es s1 = (t, q, eq, s2)"
  shows "s \<le> s1" and "s1 < s2" and "s2 \<le> es" and "line_words b es s2 = line_words b es s" and "t \<noteq> CHR ''a''"
proof -
  note f = peek_facts [OF p(1) s]
  have q: "q = s1" using gettoken_eq(1) [OF g] f(5) by simp
  then have y: "rd b q \<in> set symbols" using f(4) p(2) by auto
  then show t: "t \<noteq> CHR ''a''" using gettoken_eq(4) [OF g] by simp
  have "q \<noteq> es" using f(4) q line_at_NUL [OF l, of es] by auto
  then have "q < eq \<and> eq \<le> s2 \<and> s2 \<le> es" using gettoken_in [OF l f(2) g] gettoken_ge [OF g] by simp
  then show "s1 < s2" "s2 \<le> es" using q by simp_all
  show "s \<le> s1" by (rule f(1))
  show "line_words b es s2 = line_words b es s" using line_words_token [OF l f(2) g] f(3) t by simp
qed

section \<open>What the parser keeps\<close>

text \<open>
  From \<open>s\<close> to \<open>s'\<close> the parser moves words of the line into the command and none is lost; the words in
  the command are words of the line.
\<close>

definition moves :: "string \<Rightarrow> nat \<Rightarrow> (nat \<times> nat) multiset \<Rightarrow> nat \<Rightarrow> cmd \<Rightarrow> nat \<Rightarrow> bool" where
  "moves b es W s c s' \<longleftrightarrow> s \<le> s' \<and> s' \<le> es \<and> mset (words c) + line_words b es s' = W + line_words b es s"

lemma moves_trans: "moves b es W s c s' \<Longrightarrow> moves b es (mset (words c)) s' d s'' \<Longrightarrow> moves b es W s d s''"
  by (auto simp: moves_def)

text \<open>The command that \<open>parseexec\<close> builds: an \<open>execcmd\<close> with \<open>n\<close> arguments under redirections.\<close>

fun exec_shape :: "nat \<Rightarrow> cmd \<Rightarrow> bool" where
  "exec_shape n (Execcmd args) = (length args = n)"
| "exec_shape n (Redircmd c f ef mode fd) = exec_shape n c"
| "exec_shape n _ = False"

lemma add_arg_words: "exec_shape n c \<Longrightarrow> mset (words (add_arg q eq c)) = add_mset (q, eq) (mset (words c))"
  by (induction c) auto

lemma add_arg_shape: "exec_shape n c \<Longrightarrow> exec_shape (Suc n) (add_arg q eq c)"
  by (induction c) auto

fun args_ok :: "cmd \<Rightarrow> bool" where
  "args_ok (Execcmd args) = (length args < MAXARGS)"
| "args_ok (Redircmd c f ef mode fd) = args_ok c"
| "args_ok (Pipecmd l r) = (args_ok l \<and> args_ok r)"
| "args_ok (Listcmd l r) = (args_ok l \<and> args_ok r)"
| "args_ok (Backcmd c) = args_ok c"

lemma exec_shape_args_ok: "exec_shape n c \<Longrightarrow> n < MAXARGS \<Longrightarrow> args_ok c"
  by (induction c) auto

lemma parseredirs_ok:
  assumes l: "line_at b es"
  shows "s \<le> es \<Longrightarrow> (\<exists>e. parseredirs b es c s = Panic e) \<or>
     (\<exists>c' s'. parseredirs b es c s = Ret (c', s') \<and> moves b es (mset (words c)) s c' s' \<and> (\<forall>n. exec_shape n c \<longrightarrow> exec_shape n c') \<and> (args_ok c \<longrightarrow> args_ok c'))"
proof (induction "es - s" arbitrary: c s rule: less_induct)
  case less
  obtain f s1 where p: "peek b es s ''<>'' = (f, s1)" by fastforce
  note pf = peek_facts [OF p less.prems]
  show ?case
  proof (cases f)
    case False
    then have "parseredirs b es c s = Ret (c, s1)" using p by (subst parseredirs.simps) simp
    then show ?thesis using pf(1-3) by (simp add: moves_def)
  next
    case True
    obtain tok q0 eq0 s2 where g1: "gettoken b es s1 = (tok, q0, eq0, s2)" by (metis prod_cases4)
    obtain tok2 q eq s3 where g2: "gettoken b es s2 = (tok2, q, eq, s3)" by (metis prod_cases4)
    have p': "peek b es s ''<>'' = (True, s1)" using p True by simp
    have "set ''<>'' \<subseteq> set symbols" by (auto simp: symbols_def)
    note t = peek_token [OF l less.prems p' this g1]
    have w: "rd b s1 \<in> {CHR ''<'', CHR ''>''}" using pf(4) True by simp
    have tok: "tok = CHR ''<'' \<or> tok = CHR ''>'' \<or> tok = CHR ''+''"
      using g1 w pf(5) by (auto simp: gettoken_def Let_def NUL_def split: if_splits)
    show ?thesis
    proof (cases "tok2 = CHR ''a''")
      case False
      then show ?thesis using p' g1 g2 by (subst parseredirs.simps) simp
    next
      case a: True
      have s3: "s2 \<le> s3" using gettoken_ge [OF g2] by simp
      have "q \<noteq> es" using gettoken_end [OF l t(3) g2] a by (auto simp: NUL_def)
      then have s3e: "s3 \<le> es" using gettoken_in [OF l t(3) g2] by simp
      define d where "d = (if tok = CHR ''<'' then redircmd c q eq 0 0
                else if tok = CHR ''>'' then redircmd c q eq (O_WRONLY OR O_CREATE OR O_TRUNC) 1
                else if tok = CHR ''+'' then redircmd c q eq (O_WRONLY OR O_CREATE) 1
                else c)"
      have r: "parseredirs b es c s = parseredirs b es d s3"
        using p' g1 g2 a by (subst parseredirs.simps) (simp add: d_def)
      have d: "mset (words d) = add_mset (q, eq) (mset (words c))" "exec_shape n d = exec_shape n c" "args_ok d = args_ok c" for n
        using tok by (auto simp: d_def redircmd_def)
      have "moves b es (mset (words c)) s d s3"
        using t s3 s3e line_words_token [OF l t(3) g2] a by (simp add: moves_def d)
      moreover have "es - s3 < es - s" using t s3 s3e by simp
      ultimately show ?thesis using less.hyps [of s3 d] s3e unfolding r by (metis d(2,3) moves_trans)
    qed
  qed
qed

lemma parseexec_loop_ok:
  assumes l: "line_at b es"
  shows "s \<le> es \<Longrightarrow> exec_shape argc ret \<Longrightarrow> argc < MAXARGS \<Longrightarrow> (\<exists>e. parseexec_loop b es argc ret s = Panic e) \<or>
     (\<exists>c s'. parseexec_loop b es argc ret s = Ret (c, s') \<and> moves b es (mset (words ret)) s c s' \<and> args_ok c)"
proof (induction "MAXARGS - argc" arbitrary: argc ret s rule: less_induct)
  case less
  obtain f s1 where p: "peek b es s ''|)&;'' = (f, s1)" by fastforce
  obtain tok q eq s2 where g: "gettoken b es s1 = (tok, q, eq, s2)" by (metis prod_cases4)
  note pf = peek_facts(1-3) [OF p less.prems(1)]
  have ok: "args_ok ret" using exec_shape_args_ok less.prems by blast
  consider "f" | "\<not> f" "tok = NUL" | "\<not> f" "tok \<noteq> NUL" "tok \<noteq> CHR ''a''" | "\<not> f" "tok = CHR ''a''" by blast
  then show ?case
  proof cases
    case 1
    then have "parseexec_loop b es argc ret s = Ret (ret, s1)" using p by (subst parseexec_loop.simps) simp
    then show ?thesis using pf ok by (simp add: moves_def)
  next
    case 2
    then have "parseexec_loop b es argc ret s = Ret (ret, s2)" using p g by (subst parseexec_loop.simps) simp
    moreover have "s1 \<le> s2" "s2 \<le> es"
      using gettoken_ge [OF g] gettoken_end [OF l pf(2) g] gettoken_in [OF l pf(2) g] by (cases "q = es"; simp)+
    ultimately show ?thesis using pf ok line_words_token [OF l pf(2) g] 2 by (simp add: moves_def NUL_def)
  next
    case 3
    then have "parseexec_loop b es argc ret s = Panic ''syntax''" using p g by (subst parseexec_loop.simps) simp
    then show ?thesis by blast
  next
    case 4
    have n: "tok \<noteq> NUL" using 4 by (simp add: NUL_def)
    then have "q \<noteq> es" using gettoken_end [OF l pf(2) g] by auto
    then have s2: "s1 \<le> s2" "s2 \<le> es" using gettoken_in [OF l pf(2) g] gettoken_ge [OF g] by simp_all
    show ?thesis
    proof (cases "argc + 1 \<ge> MAXARGS")
      case True
      then have "parseexec_loop b es argc ret s = Panic ''too many args''" using p g 4 n by (subst parseexec_loop.simps) simp
      then show ?thesis by blast
    next
      case False
      let ?r = "add_arg q eq ret"
      have e: "parseexec_loop b es argc ret s =
          obind (parseredirs b es ?r s2) (\<lambda>(ret, s). parseexec_loop b es (argc + 1) ret s)"
        using p g 4 n False by (subst parseexec_loop.simps) simp
      have m: "moves b es (mset (words ret)) s ?r s2"
        using pf s2 line_words_token [OF l pf(2) g] 4 add_arg_words [OF less.prems(2)] by (simp add: moves_def)
      show ?thesis using parseredirs_ok [OF l s2(2), of ?r]
      proof (elim disjE exE conjE)
        fix c' s' assume r: "parseredirs b es ?r s2 = Ret (c', s')" "moves b es (mset (words ?r)) s2 c' s'"
          "\<forall>n. exec_shape n ?r \<longrightarrow> exec_shape n c'"
        have "exec_shape (argc + 1) c'" using r(3) add_arg_shape [OF less.prems(2)] by simp
        moreover have "s' \<le> es" using r(2) by (simp add: moves_def)
        moreover have "MAXARGS - (argc + 1) < MAXARGS - argc" "argc + 1 < MAXARGS" using False by simp_all
        ultimately show ?thesis using less.hyps [of "argc + 1" s' c'] moves_trans [OF moves_trans [OF m r(2)]]
          unfolding e r(1) by (simp only: obind_simps prod.case) blast
      qed (auto simp: e)
    qed
  qed
qed

lemma back_loop_ok:
  assumes l: "line_at b es"
  shows "s \<le> es \<Longrightarrow> back_loop b es c s = (c', s') \<Longrightarrow> moves b es (mset (words c)) s c' s' \<and> (args_ok c \<longrightarrow> args_ok c')"
proof (induction "es - s" arbitrary: c s rule: less_induct)
  case less
  obtain f s1 where p: "peek b es s ''&'' = (f, s1)" by fastforce
  obtain tok q eq s2 where g: "gettoken b es s1 = (tok, q, eq, s2)" by (metis prod_cases4)
  show ?case
  proof (cases f)
    case False
    then show ?thesis using p less.prems peek_facts(1-3) [OF p less.prems(1)] by (subst (asm) back_loop.simps) (auto simp: moves_def)
  next
    case True
    have p': "peek b es s ''&'' = (True, s1)" using p True by simp
    have "set ''&'' \<subseteq> set symbols" by (auto simp: symbols_def)
    note t = peek_token [OF l less.prems(1) p' this g]
    have "back_loop b es (backcmd c) s2 = (c', s')" using less.prems(2) p' g by (subst (asm) back_loop.simps) simp
    then have "moves b es (mset (words (backcmd c))) s2 c' s' \<and> (args_ok (backcmd c) \<longrightarrow> args_ok c')"
      using less.hyps [of s2 "backcmd c"] t by simp
    then show ?thesis using t by (auto simp: moves_def backcmd_def)
  qed
qed

definition parsed :: "string \<Rightarrow> nat \<Rightarrow> nat \<Rightarrow> (cmd \<times> nat) outcome \<Rightarrow> bool" where
  "parsed b es s r \<longleftrightarrow> (\<exists>e. r = Panic e) \<or> (\<exists>c s'. r = Ret (c, s') \<and> moves b es {#} s c s' \<and> args_ok c)"

lemma parsed_bind:
  assumes "parsed b es s r" and "\<And>c s'. moves b es {#} s c s' \<Longrightarrow> args_ok c \<Longrightarrow> parsed b es s (f (c, s'))"
  shows "parsed b es s (obind r f)"
  using assms(1) unfolding parsed_def [of b es s r]
proof (elim disjE exE conjE)
  fix c s' assume "r = Ret (c, s')" "moves b es {#} s c s'" "args_ok c"
  then show ?thesis using assms(2) by simp
qed (simp add: parsed_def)

text \<open>After a command: if the next token is a certain symbol, it is consumed and another command is joined to the first.\<close>

lemma parsed_tail:
  assumes l: "line_at b es" and m: "moves b es {#} s c s1" and c: "args_ok c" and y: "set ts \<subseteq> set symbols"
    and F: "\<And>s'. s < s' \<Longrightarrow> s' \<le> es \<Longrightarrow> parsed b es s' (F s')"
    and k: "\<And>d. mset (words (k c d)) = mset (words c) + mset (words d)" "\<And>d. args_ok d \<Longrightarrow> args_ok (k c d)"
  shows "parsed b es s (case peek b es s1 ts of
      (False, s) \<Rightarrow> Ret (c, s)
    | (True, s) \<Rightarrow> (case gettoken b es s of (tok, _, _, s) \<Rightarrow> obind (F s) (\<lambda>(d, s). Ret (k c d, s))))"
proof -
  have s1: "s \<le> s1" "s1 \<le> es" using m by (simp_all add: moves_def)
  obtain f s2 where p: "peek b es s1 ts = (f, s2)" by fastforce
  obtain tok q eq s3 where g: "gettoken b es s2 = (tok, q, eq, s3)" by (metis prod_cases4)
  show ?thesis
  proof (cases f)
    case False
    then show ?thesis using p m c peek_facts(1-3) [OF p s1(2)] by (auto simp: parsed_def moves_def)
  next
    case True
    note t = peek_token [OF l s1(2) p [unfolded True [THEN eqTrueI]] y g]
    have "parsed b es s3 (F s3)" using t s1 by (intro F) auto
    then show ?thesis unfolding parsed_def [of b es s3]
    proof (elim disjE exE conjE)
      fix d s' assume r: "F s3 = Ret (d, s')" "moves b es {#} s3 d s'" "args_ok d"
      have "moves b es {#} s (k c d) s'" using m t r(2) by (auto simp: moves_def k add.assoc)
      then show ?thesis using p g True r k(2) by (auto simp: parsed_def)
    qed (use p g True in \<open>auto simp: parsed_def\<close>)
  qed
qed

lemma parsed_skip:
  "parsed b es s1 r \<Longrightarrow> s \<le> s1 \<Longrightarrow> line_words b es s1 = line_words b es s \<Longrightarrow> parsed b es s r"
  by (auto simp: parsed_def moves_def)

lemma parseexec_plain:
  assumes l: "line_at b es" and s1: "s \<le> s1" "s1 \<le> es" "line_words b es s1 = line_words b es s"
  shows "parsed b es s (obind (parseredirs b es execcmd s1) (\<lambda>(ret, s). parseexec_loop b es 0 ret s))"
  using parseredirs_ok [OF l s1(2), of execcmd]
proof (elim disjE exE conjE)
  fix c s2 assume r: "parseredirs b es execcmd s1 = Ret (c, s2)" "moves b es (mset (words execcmd)) s1 c s2"
    "\<forall>n. exec_shape n execcmd \<longrightarrow> exec_shape n c"
  have c: "exec_shape 0 c" using r(3) by (simp add: execcmd_def)
  have s2: "s2 \<le> es" using r(2) by (simp add: moves_def)
  have m: "moves b es {#} s c s2" using r(2) s1 by (auto simp: moves_def execcmd_def)
  show ?thesis using parseexec_loop_ok [OF l s2 c] moves_trans [OF m] r(1) by (auto simp: parsed_def)
qed (simp add: parsed_def)

lemma parseblock_rest:
  assumes l: "line_at b es" and s1: "s \<le> s1" "line_words b es s1 = line_words b es s" and r: "parsed b es s1 r"
  shows "parsed b es s (obind r (\<lambda>(c, s).
         (case peek b es s '')'' of
             (False, s) \<Rightarrow> Panic ''syntax - missing )''
           | (True, s) \<Rightarrow> (case gettoken b es s of (tok, _, _, s) \<Rightarrow> parseredirs b es c s))))"
proof (rule parsed_bind [OF parsed_skip [OF r s1]])
  fix c s2 assume m: "moves b es {#} s c s2" and c: "args_ok c"
  then have s2: "s \<le> s2" "s2 \<le> es" by (simp_all add: moves_def)
  obtain f s3 where p: "peek b es s2 '')'' = (f, s3)" by fastforce
  obtain tok q eq s4 where g: "gettoken b es s3 = (tok, q, eq, s4)" by (metis prod_cases4)
  show "parsed b es s (case (c, s2) of (c, s) \<Rightarrow>
         (case peek b es s '')'' of
             (False, s) \<Rightarrow> Panic ''syntax - missing )''
           | (True, s) \<Rightarrow> (case gettoken b es s of (tok, _, _, s) \<Rightarrow> parseredirs b es c s)))"
  proof (cases f)
    case True
    have "set '')'' \<subseteq> set symbols" by (simp add: symbols_def)
    note t = peek_token [OF l s2(2) p [unfolded True [THEN eqTrueI]] this g]
    have "moves b es {#} s c s4" using m t by (auto simp: moves_def)
    then show ?thesis using parseredirs_ok [OF l t(3), of c] p g True c moves_trans by (auto simp: parsed_def)
  qed (use p in \<open>simp add: parsed_def\<close>)
qed

text \<open>
  With fuel for four levels of calls per remaining character, each of the four functions returns a
  command or stops with a syntax error.
\<close>

definition parse_levels :: "string \<Rightarrow> nat \<Rightarrow> nat \<Rightarrow> bool" where
  "parse_levels b es n \<longleftrightarrow> (\<forall>s \<le> es.
     (4 * (es - s) + 4 \<le> n \<longrightarrow> parsed b es s (parseline n b es s)) \<and>
     (4 * (es - s) + 3 \<le> n \<longrightarrow> parsed b es s (parsepipe n b es s)) \<and>
     (4 * (es - s) + 2 \<le> n \<longrightarrow> parsed b es s (parseexec n b es s)) \<and>
     (4 * (es - s) + 1 \<le> n \<longrightarrow> parsed b es s (parseblock n b es s)))"

lemma parseline_level:
  assumes l: "line_at b es" and IH: "parse_levels b es n" and s: "s \<le> es" "4 * (es - s) + 4 \<le> Suc n"
  shows "parsed b es s (parseline (Suc n) b es s)"
  unfolding parseline.simps
proof (rule parsed_bind)
  show "parsed b es s (parsepipe n b es s)" using IH s by (auto simp: parse_levels_def)
  fix c s1 assume m: "moves b es {#} s c s1" and c: "args_ok c"
  obtain d s2 where bl: "back_loop b es c s1 = (d, s2)" by fastforce
  have m2: "moves b es {#} s d s2" and d: "args_ok d"
    using back_loop_ok [OF l _ bl] m c moves_trans [OF m] by (auto simp: moves_def)
  have "parsed b es s' (parseline n b es s')" if "s < s'" "s' \<le> es" for s' using that s IH by (auto simp: parse_levels_def)
  from parsed_tail [OF l m2 d _ this, of "'';''" listcmd]
  show "parsed b es s (case (c, s1) of (c, s) \<Rightarrow> case back_loop b es c s of (c, s) \<Rightarrow>
      (case peek b es s '';'' of (True, s) \<Rightarrow> (case gettoken b es s of (tok, _, _, s) \<Rightarrow>
          obind (parseline n b es s) (\<lambda>(r, s). Ret (listcmd c r, s))) | (False, s) \<Rightarrow> Ret (c, s)))"
    using d bl by (simp add: symbols_def listcmd_def)
qed

lemma parsepipe_level:
  assumes l: "line_at b es" and IH: "parse_levels b es n" and s: "s \<le> es" "4 * (es - s) + 3 \<le> Suc n"
  shows "parsed b es s (parsepipe (Suc n) b es s)"
  unfolding parsepipe.simps
proof (rule parsed_bind)
  show "parsed b es s (parseexec n b es s)" using IH s by (auto simp: parse_levels_def)
  fix c s1 assume m: "moves b es {#} s c s1" and c: "args_ok c"
  have "parsed b es s' (parsepipe n b es s')" if "s < s'" "s' \<le> es" for s' using that s IH by (auto simp: parse_levels_def)
  from parsed_tail [OF l m c _ this, of "''|''" pipecmd]
  show "parsed b es s (case (c, s1) of (c, s) \<Rightarrow>
      (case peek b es s ''|'' of (True, s) \<Rightarrow> (case gettoken b es s of (tok, _, _, s) \<Rightarrow>
          obind (parsepipe n b es s) (\<lambda>(r, s). Ret (pipecmd c r, s))) | (False, s) \<Rightarrow> Ret (c, s)))"
    using c by (simp add: symbols_def pipecmd_def)
qed

lemma parseexec_level:
  assumes l: "line_at b es" and IH: "parse_levels b es n" and s: "s \<le> es" "4 * (es - s) + 2 \<le> Suc n"
  shows "parsed b es s (parseexec (Suc n) b es s)"
proof -
  obtain f s1 where p: "peek b es s ''('' = (f, s1)" by fastforce
  note pf = peek_facts(1-3) [OF p s(1)]
  have "parsed b es s1 (parseblock n b es s1)" using IH s pf by (auto simp: parse_levels_def)
  from parsed_skip [OF this pf(1,3)] parseexec_plain [OF l pf] show ?thesis using p by (cases f) auto
qed

lemma parseblock_level:
  assumes l: "line_at b es" and IH: "parse_levels b es n" and s: "s \<le> es" "4 * (es - s) + 1 \<le> Suc n"
  shows "parsed b es s (parseblock (Suc n) b es s)"
proof -
  obtain f s1 where p: "peek b es s ''('' = (f, s1)" by fastforce
  show ?thesis
  proof (cases f)
    case True
    obtain tok q eq s2 where g: "gettoken b es s1 = (tok, q, eq, s2)" by (metis prod_cases4)
    have "set ''('' \<subseteq> set symbols" by (simp add: symbols_def)
    note t = peek_token [OF l s(1) p [unfolded True [THEN eqTrueI]] this g]
    have "parsed b es s2 (parseline n b es s2)" using t s IH by (auto simp: parse_levels_def)
    then show ?thesis using parseblock_rest [OF l _ t(4)] t p g True by simp
  qed (use p in \<open>simp add: parsed_def\<close>)
qed

lemma parse_ok: "line_at b es \<Longrightarrow> parse_levels b es n"
proof (induction n)
  case (Suc n)
  then show ?case using parseline_level parsepipe_level parseexec_level parseblock_level
    by (simp only: parse_levels_def [of b es "Suc n"]) blast
qed (simp add: parse_levels_def)

section \<open>The strings of the command\<close>

definition str_at :: "string \<Rightarrow> nat \<Rightarrow> string" where
  "str_at b q = takeWhile (\<lambda>c. c \<noteq> NUL) (drop q b)"

text \<open>The offsets that \<open>nulterminate\<close> clears are the ends of the words.\<close>

lemma nulterminate_length [simp]: "length (nulterminate c b) = length b"
proof (induction c arbitrary: b)
  case (Execcmd args)
  then show ?case by (induction args arbitrary: b) auto
qed auto

lemma foldl_NUL:
  "i < length b \<Longrightarrow> foldl (\<lambda>b (q, eq). b[eq := NUL]) b args ! i = (if \<exists>q. (q, i) \<in> set args then NUL else b ! i)"
proof (induction args arbitrary: b)
  case (Cons a args)
  then show ?case by (cases a) (auto simp: nth_list_update)
qed simp

lemma nulterminate_nth: "i < length b \<Longrightarrow> nulterminate c b ! i = (if \<exists>q. (q, i) \<in> set (words c) then NUL else b ! i)"
proof (induction c arbitrary: b)
  case (Redircmd c f ef mode fd)
  then show ?case by (cases "i = ef") auto
qed (auto simp: foldl_NUL)

lemma str_at_word:
  assumes w: "(q, eq) \<in> set (words c)" and ok: "\<forall>(q, eq) \<in> set (words c). is_word b q eq" and e: "eq < length b"
  shows "str_at (nulterminate c b) q = take (eq - q) (drop q b)"
proof -
  let ?b = "nulterminate c b"
  have q: "is_word b q eq" using w ok by auto
  have nz: "?b ! i = b ! i \<and> b ! i \<noteq> NUL" if "q \<le> i" "i < eq" for i
  proof -
    have wc: "word_char (rd b i)" using q that by (simp add: is_word_def)
    then have "\<not> (\<exists>q. (q, i) \<in> set (words c))" using ok by (auto simp: is_word_def)
    then show ?thesis using that e wc nulterminate_nth [of i b c] by (simp add: word_char_def rd_def)
  qed
  have end0: "?b ! eq = NUL" using nulterminate_nth [of eq b c] e w by auto
  have lt: "q < eq" using q by (simp add: is_word_def)
  have split: "drop q ?b = take (eq - q) (drop q b) @ drop eq ?b"
  proof (rule nth_equalityI)
    fix i assume "i < length (drop q ?b)"
    then show "drop q ?b ! i = (take (eq - q) (drop q b) @ drop eq ?b) ! i"
      using nz [of "q + i"] lt e by (auto simp: nth_append add.commute)
  qed (use e lt in auto)
  have "drop eq ?b = NUL # drop (Suc eq) ?b" using end0 e by (simp add: Cons_nth_drop_Suc [symmetric])
  moreover have "\<forall>c \<in> set (take (eq - q) (drop q b)). c \<noteq> NUL"
    using nz e lt by (auto simp: in_set_conv_nth)
  ultimately show ?thesis by (simp add: str_at_def split takeWhile_append2)
qed

lemma line_words_word:
  assumes l: "line_at b es"
  shows "s \<le> es \<Longrightarrow> (q, eq) \<in># line_words b es s \<Longrightarrow> is_word b q eq \<and> eq \<le> es"
proof (induction "es - s" arbitrary: s rule: less_induct)
  case less
  obtain t q0 eq0 s' where g: "gettoken b es s = (t, q0, eq0, s')" by (metis prod_cases4)
  note w = line_words_token [OF l less.prems(1) g]
  show ?case
  proof (cases "q0 = es")
    case True
    then show ?thesis using w gettoken_end [OF l less.prems(1) g] line_words_end [OF l] less.prems(2) by (auto simp: NUL_def)
  next
    case False
    note i = gettoken_in [OF l less.prems(1) g False]
    have "es - s' < es - s" using i gettoken_ge [OF g] by auto
    then show ?thesis using w less gettoken_word [OF l less.prems(1)] g i by (auto split: if_splits)
  qed
qed

section \<open>Running a command\<close>

text \<open>\<open>panic\<close> of the shell and \<open>fork1\<close>.\<close>

definition sh_panic :: "string \<Rightarrow> prog" where
  "sh_panic s = fprintf 2 (''%s'' @ [NL]) [VStr (Some s)] (Exit 1)"

definition fork1 :: "prog \<Rightarrow> (int \<Rightarrow> prog) \<Rightarrow> prog" where
  "fork1 child k = Fork child (\<lambda>pid. if pid = -1 then sh_panic ''fork'' else k pid)"

text \<open>\<open>runcmd\<close> never returns: \<open>Exit 0\<close> is its last line.\<close>

fun runcmd :: "string \<Rightarrow> cmd \<Rightarrow> prog" where
  "runcmd b (Execcmd []) = Exit 1"
| "runcmd b (Execcmd ((q, eq) # args)) =
     Call (C_exec (str_at b q) (str_at b q # map (\<lambda>(q, eq). str_at b q) args)) (\<lambda>_.
       fprintf 2 (''exec %s failed'' @ [NL]) [VStr (Some (str_at b q))] (Exit 0))"
| "runcmd b (Redircmd c f ef mode fd) =
     Call (C_close fd) (\<lambda>_. Call (C_open (str_at b f) mode) (\<lambda>r.
       if rv r < 0 then fprintf 2 (''open %s failed'' @ [NL]) [VStr (Some (str_at b f))] (Exit 1)
       else runcmd b c))"
| "runcmd b (Listcmd l r) = fork1 (runcmd b l) (\<lambda>_. Call C_wait (\<lambda>_. runcmd b r))"
| "runcmd b (Pipecmd l r) =
     Call C_pipe (\<lambda>p. if rv p < 0 then sh_panic ''pipe'' else
       fork1 (Call (C_close 1) (\<lambda>_. Call (C_dup (snd (rfds p))) (\<lambda>_. Call (C_close (fst (rfds p))) (\<lambda>_.
              Call (C_close (snd (rfds p))) (\<lambda>_. runcmd b l))))) (\<lambda>_.
       fork1 (Call (C_close 0) (\<lambda>_. Call (C_dup (fst (rfds p))) (\<lambda>_. Call (C_close (fst (rfds p))) (\<lambda>_.
              Call (C_close (snd (rfds p))) (\<lambda>_. runcmd b r))))) (\<lambda>_.
       Call (C_close (fst (rfds p))) (\<lambda>_. Call (C_close (snd (rfds p))) (\<lambda>_.
       Call C_wait (\<lambda>_. Call C_wait (\<lambda>_. Exit 0)))))))"
| "runcmd b (Backcmd c) = fork1 (runcmd b c) (\<lambda>_. Exit 0)"

text \<open>What the child does with a line: a syntax error ends it.\<close>

definition run_line :: "string \<Rightarrow> prog" where
  "run_line b = (case parsecmd b of Ret (c, b') \<Rightarrow> runcmd b' c | Panic e \<Rightarrow> sh_panic e | _ \<Rightarrow> Out_of_fuel)"

text \<open>One turn of the loop in \<open>main\<close> with the line in \<open>buf\<close>; \<open>k\<close> is the next turn.\<close>

definition sh_turn :: "string \<Rightarrow> prog \<Rightarrow> prog" where
  "sh_turn b k =
     (if rd b 0 = CHR ''c'' \<and> rd b 1 = CHR ''d'' \<and> rd b 2 = CHR '' '' then
        (let b = b[str_len b - 1 := NUL] in
         Call (C_chdir (str_at b 3)) (\<lambda>r.
           if rv r < 0 then fprintf 2 (''cannot cd %s'' @ [NL]) [VStr (Some (str_at b 3))] k else k))
      else fork1 (run_line b) (\<lambda>_. Call C_wait (\<lambda>_. k)))"

text \<open>\<open>getcmd\<close>: the prompt, and one line by \<open>read\<close>s of one byte into the cleared buffer.\<close>

fun sh_gets :: "nat \<Rightarrow> string \<Rightarrow> (string \<Rightarrow> prog) \<Rightarrow> prog" where
  "sh_gets 0 got k = k got"
| "sh_gets (Suc n) got k =
     Call (C_read 0 1) (\<lambda>r.
       if rv r < 1 then k got
       else let c = hd (rbytes r) in
         if c = NL \<or> c = CHR 0x0D then k (got @ [c]) else sh_gets n (got @ [c]) k)"

definition getcmd :: "nat \<Rightarrow> (string option \<Rightarrow> prog) \<Rightarrow> prog" where
  "getcmd nbuf k =
     Call (C_write 2 ''$ '') (\<lambda>_. sh_gets (nbuf - 1) [] (\<lambda>s.
       let buf = s @ replicate (nbuf - length s) NUL in k (if rd buf 0 = NUL then None else Some buf)))"

text \<open>\<open>main\<close>: three descriptors are opened, then lines are run; each loop has a bound.\<close>

fun sh_open :: "nat \<Rightarrow> prog \<Rightarrow> prog" where
  "sh_open 0 k = Out_of_fuel"
| "sh_open (Suc n) k = Call (C_open ''console'' O_RDWR) (\<lambda>r.
     if rv r < 0 then k else if rv r \<ge> 3 then Call (C_close (rv r)) (\<lambda>_. k) else sh_open n k)"

fun sh_loop :: "nat \<Rightarrow> prog" where
  "sh_loop 0 = Out_of_fuel"
| "sh_loop (Suc n) = getcmd 100 (\<lambda>l. case l of None \<Rightarrow> Exit 0 | Some b \<Rightarrow> sh_turn b (sh_loop n))"

definition sh_main :: "nat \<Rightarrow> prog" where
  "sh_main n = sh_open n (sh_loop n)"

section \<open>Property\<close>

text \<open>
  Property C14. The shell's parser, for any NUL-terminated line. \<open>parsecmd\<close> always ends: with a syntax
  error or with a command. In a command every argument list fits \<open>argv\<close> with its null pointer, the words
  are exactly the words of the line, each used once, and after \<open>nulterminate\<close> the C string at each of
  their offsets is that word of the line.
\<close>

theorem parsecmd_words:
  assumes "NUL \<in> set b"
  shows "(\<exists>e. parsecmd b = Panic e) \<or>
     (\<exists>c b'. parsecmd b = Ret (c, b') \<and> length b' = length b \<and> args_ok c \<and>
        mset (words c) = line_words b (str_len b) 0 \<and>
        (\<forall>(q, eq) \<in> set (words c). is_word b q eq \<and> str_at b' q = take (eq - q) (drop q b)))"
proof -
  let ?es = "str_len b"
  have l: "line_at b ?es" by (rule line_at_str_len [OF assms])
  have "parsed b ?es 0 (parseline (parse_fuel b) b ?es 0)"
    using parse_ok [OF l, of "parse_fuel b"] l by (simp add: parse_levels_def parse_fuel_def line_at_def)
  then show ?thesis unfolding parsed_def
  proof (elim disjE exE conjE)
    fix c s assume r: "parseline (parse_fuel b) b ?es 0 = Ret (c, s)" "moves b ?es {#} 0 c s" "args_ok c"
    obtain f s' where p: "peek b ?es s [] = (f, s')" by fastforce
    show ?thesis
    proof (cases "s' = ?es")
      case False
      then show ?thesis using r(1) p by (simp add: parsecmd_def Let_def)
    next
      case True
      have "parsecmd b = Ret (c, nulterminate c b)" using r(1) p True by (simp add: parsecmd_def Let_def)
      moreover have w: "mset (words c) = line_words b ?es 0"
        using r(2) peek_facts(3) [OF p] True line_words_end [OF l] by (simp add: moves_def)
      moreover have ok: "is_word b q eq \<and> eq \<le> ?es" if "(q, eq) \<in> set (words c)" for q eq
        using line_words_word [OF l, of 0 q eq] w that by (metis le0 set_mset_mset)
      moreover have "str_at (nulterminate c b) q = take (eq - q) (drop q b)" if "(q, eq) \<in> set (words c)" for q eq
        using ok [OF that] l by (intro str_at_word [OF that]) (auto simp: line_at_def dest: ok)
      ultimately show ?thesis using r(3) by (auto intro!: exI [of _ c])
    qed
  qed (simp add: parsecmd_def Let_def)
qed

definition demo_line :: string where
  "demo_line = ''cat<f|wc'' @ [NL, NUL]"

theorem parsecmd_words_witness:
  "\<exists>c b'. parsecmd demo_line = Ret (c, b') \<and> words c = [(0, 3), (4, 5), (6, 8)] \<and> str_at b' 0 = ''cat'' \<and> str_at b' 4 = ''f'' \<and> str_at b' 6 = ''wc''"
proof -
  have p: "parsecmd demo_line = Ret (Pipecmd (Redircmd (Execcmd [(0, 3)]) 4 5 0 0) (Execcmd [(6, 8)]),
      [CHR ''c'', CHR ''a'', CHR ''t'', NUL, CHR ''f'', NUL, CHR ''w'', CHR ''c'', NUL, NUL])"
    by code_simp
  have "NUL \<in> set demo_line" by (simp add: demo_line_def)
  from parsecmd_words [OF this] p show ?thesis
    by (simp add: demo_line_def)
qed

end
