(* ===== verification/Ucmds.thy ===== *)
theory Ucmds
  imports Uprog
begin

text \<open>
  The small user programs as trees of system calls: \<^verbatim>\<open>user/cat.c\<close>, \<^verbatim>\<open>user/echo.c\<close>, \<^verbatim>\<open>user/kill.c\<close>,
  \<^verbatim>\<open>user/ln.c\<close>, \<^verbatim>\<open>user/mkdir.c\<close>, \<^verbatim>\<open>user/rm.c\<close>, \<^verbatim>\<open>user/ls.c\<close>, \<^verbatim>\<open>user/init.c\<close>, \<^verbatim>\<open>user/zombie.c\<close>,
  \<^verbatim>\<open>user/trace.c\<close> and \<^verbatim>\<open>user/sysinfotest.c\<close>. \<open>argv\<close> is the list of the arguments with the program's name first; the
  bound \<open>n\<close> limits the turns of a loop that the system decides.
\<close>

definition msg :: "string \<Rightarrow> string" where
  "msg s = s @ [NL]"

definition u_printf :: "string \<Rightarrow> va list \<Rightarrow> prog \<Rightarrow> prog" where
  "u_printf fmt as k = fprintf 1 fmt as k"

definition atoi_str :: "string \<Rightarrow> u32 option" where
  "atoi_str s = atoi (\<lambda>i. if i < length s then of_char (s ! i) else 0)"

section \<open>cat and echo\<close>

fun cat :: "nat \<Rightarrow> int \<Rightarrow> prog \<Rightarrow> prog" where
  "cat 0 fd k = Out_of_fuel"
| "cat (Suc n) fd k =
     Call (C_read fd 512) (\<lambda>r.
       if rv r > 0 then
         Call (C_write 1 (rbytes r)) (\<lambda>w.
           if rv w \<noteq> rv r then fprintf 2 (msg ''cat: write error'') [] (Exit 1) else cat n fd k)
       else if rv r < 0 then fprintf 2 (msg ''cat: read error'') [] (Exit 1)
       else k)"

fun cat_files :: "nat \<Rightarrow> string list \<Rightarrow> prog" where
  "cat_files n [] = Exit 0"
| "cat_files n (f # fs) =
     Call (C_open f 0) (\<lambda>r.
       if rv r < 0 then fprintf 2 (msg ''cat: cannot open %s'') [VStr (Some f)] (Exit 1)
       else cat n (rv r) (Call (C_close (rv r)) (\<lambda>_. cat_files n fs)))"

definition cat_main :: "nat \<Rightarrow> string list \<Rightarrow> prog" where
  "cat_main n argv = (if length argv \<le> 1 then cat n 0 (Exit 0) else cat_files n (tl argv))"

fun echo_args :: "string list \<Rightarrow> prog" where
  "echo_args [] = Exit 0"
| "echo_args (a # as) =
     Call (C_write 1 a) (\<lambda>_. Call (C_write 1 (if as \<noteq> [] then '' '' else [NL])) (\<lambda>_. echo_args as))"

definition echo_main :: "string list \<Rightarrow> prog" where
  "echo_main argv = echo_args (tl argv)"

section \<open>kill, ln, mkdir, rm\<close>

fun kill_args :: "string list \<Rightarrow> prog" where
  "kill_args [] = Exit 0"
| "kill_args (a # as) = (case atoi_str a of Some p \<Rightarrow> Call (C_kill p) (\<lambda>_. kill_args as) | None \<Rightarrow> Out_of_fuel)"

definition kill_main :: "string list \<Rightarrow> prog" where
  "kill_main argv = (if length argv < 2 then fprintf 2 (msg ''usage: kill pid...'') [] (Exit 1) else kill_args (tl argv))"

definition ln_main :: "string list \<Rightarrow> prog" where
  "ln_main argv =
     (if length argv \<noteq> 3 then fprintf 2 (msg ''Usage: ln old new'') [] (Exit 1)
      else Call (C_link (argv ! 1) (argv ! 2)) (\<lambda>r.
        if rv r < 0 then fprintf 2 (msg ''link %s %s: failed'') [VStr (Some (argv ! 1)), VStr (Some (argv ! 2))] (Exit 0)
        else Exit 0))"

text \<open>\<open>mkdir\<close> and \<open>rm\<close> stop at the first name that fails, with status 0.\<close>

fun mkdir_args :: "string list \<Rightarrow> prog" where
  "mkdir_args [] = Exit 0"
| "mkdir_args (a # as) = Call (C_mkdir a) (\<lambda>r.
     if rv r < 0 then fprintf 2 (msg ''mkdir: %s failed to create'') [VStr (Some a)] (Exit 0) else mkdir_args as)"

definition mkdir_main :: "string list \<Rightarrow> prog" where
  "mkdir_main argv = (if length argv < 2 then fprintf 2 (msg ''Usage: mkdir files...'') [] (Exit 1) else mkdir_args (tl argv))"

fun rm_args :: "string list \<Rightarrow> prog" where
  "rm_args [] = Exit 0"
| "rm_args (a # as) = Call (C_unlink a) (\<lambda>r.
     if rv r < 0 then fprintf 2 (msg ''rm: %s failed to delete'') [VStr (Some a)] (Exit 0) else rm_args as)"

definition rm_main :: "string list \<Rightarrow> prog" where
  "rm_main argv = (if length argv < 2 then fprintf 2 (msg ''Usage: rm files...'') [] (Exit 1) else rm_args (tl argv))"

section \<open>ls\<close>

definition fmtname :: "string \<Rightarrow> string" where
  "fmtname path =
     (let p = rev (takeWhile (\<lambda>c. c \<noteq> CHR ''/'') (rev path))
      in if length p \<ge> DIRSIZ then p else p @ replicate (DIRSIZ - length p) (CHR '' ''))"

text \<open>\<open>stat\<close> of the user library as calls.\<close>

definition stat_prog :: "string \<Rightarrow> (int \<Rightarrow> int \<times> u32 \<times> u64 \<Rightarrow> prog) \<Rightarrow> int \<times> u32 \<times> u64 \<Rightarrow> prog" where
  "stat_prog path k st =
     Call (C_open path 0) (\<lambda>r.
       if rv r < 0 then k (-1) st
       else Call (C_fstat (rv r)) (\<lambda>f. Call (C_close (rv r)) (\<lambda>_. k (rv f) (if rv f < 0 then st else rstat f))))"

fun ls_line :: "string \<Rightarrow> int \<times> u32 \<times> u64 \<Rightarrow> prog \<Rightarrow> prog" where
  "ls_line name (ty, ino, sz) k =
     u_printf (msg ''%s %d %d %d'') [VStr (Some (fmtname name)), VInt (word_of_int ty), VInt ino, VInt (ucast sz)] k"

text \<open>The entries of a directory: a read of \<open>sizeof(de)\<close> = 16 bytes gives the inode number, low byte first, and the name.\<close>

fun ls_dir :: "nat \<Rightarrow> int \<Rightarrow> string \<Rightarrow> int \<times> u32 \<times> u64 \<Rightarrow> prog \<Rightarrow> prog" where
  "ls_dir 0 fd buf st k = Out_of_fuel"
| "ls_dir (Suc n) fd buf st k =
     Call (C_read fd 16) (\<lambda>r.
       if rv r \<noteq> 16 then k
       else if rbytes r ! 0 = CHR 0x00 \<and> rbytes r ! 1 = CHR 0x00 then ls_dir n fd buf st k
       else let f = buf @ takeWhile (\<lambda>c. c \<noteq> CHR 0x00) (take DIRSIZ (drop 2 (rbytes r)))
         in stat_prog f (\<lambda>e st.
              if e < 0 then u_printf (msg ''ls: cannot stat %s'') [VStr (Some f)] (ls_dir n fd buf st k)
              else ls_line f st (ls_dir n fd buf st k)) st)"

definition ls :: "nat \<Rightarrow> string \<Rightarrow> prog \<Rightarrow> prog" where
  "ls n path k =
     Call (C_open path 0) (\<lambda>r.
       if rv r < 0 then fprintf 2 (msg ''ls: cannot open %s'') [VStr (Some path)] k
       else Call (C_fstat (rv r)) (\<lambda>f.
         if rv f < 0 then fprintf 2 (msg ''ls: cannot stat %s'') [VStr (Some path)] (Call (C_close (rv r)) (\<lambda>_. k))
         else let fin = Call (C_close (rv r)) (\<lambda>_. k); ty = fst (rstat f) in
           if ty = 3 \<or> ty = 2 then ls_line path (rstat f) fin
           else if ty = 1 then
             (if length path + 1 + DIRSIZ + 1 > 512 then u_printf (msg ''ls: path too long'') [] fin
              else ls_dir n (rv r) (path @ ''/'') (rstat f) fin)
           else fin))"

fun ls_args :: "nat \<Rightarrow> string list \<Rightarrow> prog" where
  "ls_args n [] = Exit 0"
| "ls_args n (a # as) = ls n a (ls_args n as)"

definition ls_main :: "nat \<Rightarrow> string list \<Rightarrow> prog" where
  "ls_main n argv = (if length argv < 2 then ls n ''.'' (Exit 0) else ls_args n (tl argv))"

section \<open>init, zombie, trace, sysinfotest\<close>

text \<open>The inner loop of \<open>init\<close>: children are waited for until the shell with process id \<open>shpid\<close> has exited.\<close>

fun init_wait :: "nat \<Rightarrow> int \<Rightarrow> prog \<Rightarrow> prog" where
  "init_wait 0 shpid k = Out_of_fuel"
| "init_wait (Suc n) shpid k =
     Call C_wait (\<lambda>r.
       if rv r = shpid then k
       else if rv r < 0 then u_printf (msg ''init: wait returned an error'') [] (Exit 1)
       else init_wait n shpid k)"

fun init_loop :: "nat \<Rightarrow> nat \<Rightarrow> prog" where
  "init_loop m 0 = Out_of_fuel"
| "init_loop m (Suc n) =
     u_printf (msg ''init: starting sh'') []
       (Fork (Call (C_exec ''sh'' [''sh'']) (\<lambda>_. u_printf (msg ''init: exec sh failed'') [] (Exit 1)))
         (\<lambda>pid. if pid < 0 then u_printf (msg ''init: fork failed'') [] (Exit 1)
                else init_wait m pid (init_loop m n)))"

definition init_main :: "nat \<Rightarrow> nat \<Rightarrow> prog" where
  "init_main m n =
     (let dups = Call (C_dup 0) (\<lambda>_. Call (C_dup 0) (\<lambda>_. init_loop m n)) in
      Call (C_open ''console'' O_RDWR) (\<lambda>r.
        if rv r < 0 then Call (C_mknod ''console'' 1 0) (\<lambda>_. Call (C_open ''console'' O_RDWR) (\<lambda>_. dups))
        else dups))"

definition zombie_main :: prog where
  "zombie_main = Fork (Exit 0) (\<lambda>pid. if pid > 0 then Call (C_sleep 5) (\<lambda>_. Exit 0) else Exit 0)"

definition trace_main :: "string list \<Rightarrow> prog" where
  "trace_main argv =
     (if length argv < 3 then fprintf 2 (msg ''Usage: trace [syscall_mask] [command]'') [] (Exit 1)
      else case atoi_str (argv ! 1) of
        None \<Rightarrow> Out_of_fuel
      | Some m \<Rightarrow> Call (C_trace m) (\<lambda>_.
          Fork (let nargv = drop 2 argv in Call (C_exec (hd nargv) nargv) (\<lambda>_. Exit 1))
            (\<lambda>_. Call C_wait (\<lambda>_. Exit 0))))"

definition sysinfotest_main :: prog where
  "sysinfotest_main =
     Call C_sysinfo (\<lambda>r.
       if rv r < 0 then u_printf (msg ''ERROR: sysinfo failed!'') [] (Exit 1)
       else case rinfo r of (fm, np, nf) \<Rightarrow>
         u_printf (msg ''--- Sysinfo's results ---'') []
        (u_printf (msg ''Free memory (bytes) : %d'') [VInt (ucast fm)]
        (u_printf (msg ''Used processes      : %d'') [VInt (ucast np)]
        (u_printf (msg ''Open files          : %d'') [VInt (ucast nf)]
        (u_printf (msg ''--------------------------------'') [] (Exit 0))))))"

end
