(* ===== verification/Umalloc.thy ===== *)
theory Umalloc
  imports Xv6_Prelude
begin

text \<open>
  The user-space allocator \<^verbatim>\<open>user/umalloc.c\<close> (Kernighan and Ritchie): a circular list of free blocks in
  order of their addresses, each headed by a \<open>Header\<close> with the next block and the size in units of
  \<open>sizeof (Header)\<close> = 16 bytes. The state has the headers by address; addresses are numbers,
  and since user addresses are below $2^{38}$ and sizes below $2^{32}$ units no sum of an address and a
  size wraps in 64 bits. Sizes are kept at their width.
\<close>

section \<open>Definitions\<close>

record umem =
  hptr :: "nat \<Rightarrow> nat"
  hsize :: "nat \<Rightarrow> u32"
  freep :: nat
  base :: nat
  ubrk :: nat

text \<open>The address just after the block headed at \<open>p\<close>: \<open>p + p->s.size\<close>.\<close>

definition blk_end :: "umem \<Rightarrow> nat \<Rightarrow> nat" where
  "blk_end s p = p + 16 * unat (hsize s p)"

text \<open>
  The system call \<open>sbrk\<close> through \<open>growproc\<close>: \<open>grant n b\<close> says whether the kernel has the memory to
  grow the process from \<open>b\<close> by \<open>n\<close> bytes. Shrinking below zero wraps in \<open>uint64\<close>, and then
  \<open>uvmdealloc\<close> leaves the size alone; \<open>sbrk\<close> returns the old break in any case.
\<close>

definition usbrk :: "(nat \<Rightarrow> nat \<Rightarrow> bool) \<Rightarrow> u32 \<Rightarrow> umem \<Rightarrow> nat option \<times> umem" where
  "usbrk grant n s =
     (let sz = (of_nat (ubrk s) :: u64); new = sz + scast n in
      if 0 < sint n then
        if grant (unat n) (ubrk s) then (Some (ubrk s), s\<lparr>ubrk := ubrk s + unat n\<rparr>) else (None, s)
      else if sint n < 0 then (Some (ubrk s), s\<lparr>ubrk := (if new \<ge> sz then ubrk s else unat new)\<rparr>)
      else (Some (ubrk s), s))"

text \<open>The search of \<open>free\<close> for the block after which \<open>bp\<close> goes; on a broken list it may not end.\<close>

partial_function (option) free_scan :: "umem \<Rightarrow> nat \<Rightarrow> nat \<Rightarrow> nat option" where
  "free_scan s bp p =
     (if p < bp \<and> bp < hptr s p then Some p
      else if hptr s p \<le> p \<and> (p < bp \<or> bp < hptr s p) then Some p
      else free_scan s bp (hptr s p))"

definition free_link :: "nat \<Rightarrow> nat \<Rightarrow> umem \<Rightarrow> umem" where
  "free_link bp p s =
     (let s = (if blk_end s bp = hptr s p
               then s\<lparr>hsize := (hsize s)(bp := hsize s bp + hsize s (hptr s p)),
                      hptr := (hptr s)(bp := hptr s (hptr s p))\<rparr>
               else s\<lparr>hptr := (hptr s)(bp := hptr s p)\<rparr>);
          s = (if blk_end s p = bp
               then s\<lparr>hsize := (hsize s)(p := hsize s p + hsize s bp), hptr := (hptr s)(p := hptr s bp)\<rparr>
               else s\<lparr>hptr := (hptr s)(p := bp)\<rparr>)
      in s\<lparr>freep := p\<rparr>)"

definition free :: "nat \<Rightarrow> umem \<Rightarrow> umem option" where
  "free ap s = (let bp = ap - 16 in map_option (\<lambda>p. free_link bp p s) (free_scan s bp (freep s)))"

definition morecore :: "(nat \<Rightarrow> nat \<Rightarrow> bool) \<Rightarrow> u32 \<Rightarrow> umem \<Rightarrow> (nat \<times> umem) option" where
  "morecore grant nu s =
     (let nu = (if nu < 4096 then 4096 else nu) in
      case usbrk grant (of_nat (unat nu * 16)) s of
        (None, s) \<Rightarrow> Some (0, s)
      | (Some hp, s) \<Rightarrow>
          map_option (\<lambda>s. (freep s, s)) (free (hp + 16) (s\<lparr>hsize := (hsize s)(hp := nu)\<rparr>)))"

definition malloc_take :: "u32 \<Rightarrow> nat \<Rightarrow> nat \<Rightarrow> umem \<Rightarrow> nat \<times> umem" where
  "malloc_take nunits prevp p s =
     (let (p, s) = (if hsize s p = nunits then (p, s\<lparr>hptr := (hptr s)(prevp := hptr s p)\<rparr>)
                    else let n = hsize s p - nunits; q = p + 16 * unat n
                         in (q, s\<lparr>hsize := (hsize s)(p := n, q := nunits)\<rparr>))
      in (p + 16, s\<lparr>freep := prevp\<rparr>))"

partial_function (option) malloc_loop ::
    "(nat \<Rightarrow> nat \<Rightarrow> bool) \<Rightarrow> u32 \<Rightarrow> nat \<Rightarrow> nat \<Rightarrow> umem \<Rightarrow> (nat \<times> umem) option" where
  "malloc_loop grant nunits prevp p s =
     (if hsize s p \<ge> nunits then Some (malloc_take nunits prevp p s)
      else if p = freep s then
        (case morecore grant nunits s of
           None \<Rightarrow> None
         | Some (p, s) \<Rightarrow> if p = 0 then Some (0, s) else malloc_loop grant nunits p (hptr s p) s)
      else malloc_loop grant nunits p (hptr s p) s)"

definition nunits_of :: "u32 \<Rightarrow> u32" where
  "nunits_of nbytes = ucast ((ucast nbytes + 16 - 1 :: u64) div 16 + 1)"

definition malloc :: "(nat \<Rightarrow> nat \<Rightarrow> bool) \<Rightarrow> u32 \<Rightarrow> umem \<Rightarrow> (nat \<times> umem) option" where
  "malloc grant nbytes s =
     (let s = (if freep s = 0
               then s\<lparr>hptr := (hptr s)(base s := base s), hsize := (hsize s)(base s := 0), freep := base s\<rparr> else s)
      in malloc_loop grant (nunits_of nbytes) (freep s) (hptr s (freep s)) s)"

declare free_scan.simps [code] malloc_loop.simps [code]

section \<open>The list of free blocks\<close>

text \<open>
  \<open>q\<close> follows \<open>p\<close> in the circular order of the addresses in \<open>F\<close>.
\<close>

definition is_next :: "nat set \<Rightarrow> nat \<Rightarrow> nat \<Rightarrow> bool" where
  "is_next F p q \<longleftrightarrow> q \<in> F \<and>
     (if p < q then \<forall>r \<in> F. \<not> (p < r \<and> r < q) else \<forall>r \<in> F. q \<le> r \<and> r \<le> p)"

text \<open>
  \<open>F\<close> are the headers of the free blocks, with the empty block \<open>base\<close> below all others, and \<open>A\<close>
  those of the blocks handed out. Blocks do not overlap, and no two free ones touch.
\<close>

definition uheap :: "umem \<Rightarrow> nat set \<Rightarrow> nat set \<Rightarrow> bool" where
  "uheap s F A \<longleftrightarrow> finite F \<and> freep s \<in> F \<and> base s \<in> F \<and> 0 < base s \<and> hsize s (base s) = 0 \<and>
     F \<inter> A = {} \<and> ubrk s \<le> 2 ^ 36 \<and> base s < ubrk s \<and>
     (\<forall>p \<in> F. is_next F p (hptr s p)) \<and>
     (\<forall>p \<in> F \<union> A. base s \<le> p \<and> blk_end s p \<le> ubrk s \<and> (p \<noteq> base s \<longrightarrow> 0 < hsize s p)) \<and>
     (\<forall>p \<in> F \<union> A. \<forall>q \<in> F \<union> A. p < q \<longrightarrow> blk_end s p \<le> q) \<and>
     (\<forall>p \<in> F. \<forall>q \<in> F. p < q \<longrightarrow> blk_end s p < q)"

lemma is_next_insert:
  assumes "is_next F p n" and "p \<in> F" and "p < x" and "x \<notin> F" and "\<forall>r \<in> F. \<not> (p < r \<and> r < x)"
  shows "is_next (insert x F) p x" and "is_next (insert x F) x n"
    and "q \<in> F \<Longrightarrow> q \<noteq> p \<Longrightarrow> is_next F q r \<Longrightarrow> is_next (insert x F) q r"
proof -
  show "is_next (insert x F) p x" using assms by (auto simp: is_next_def)
  show "is_next (insert x F) x n"
  proof (cases "p < n")
    case True
    then have "x < n" using assms by (metis is_next_def nat_neq_iff)
    then show ?thesis using assms True by (auto simp: is_next_def)
  next
    case False
    then have "n \<le> p" "\<forall>r \<in> F. n \<le> r \<and> r \<le> p" using assms by (auto simp: is_next_def)
    then show ?thesis using assms by (auto simp: is_next_def split: if_splits)
  qed
  assume q: "q \<in> F" "q \<noteq> p" "is_next F q r"
  show "is_next (insert x F) q r"
  proof (cases "q < r")
    case True
    then have "\<not> (q < x \<and> x < r)" using q assms by (metis is_next_def nat_neq_iff order.strict_trans)
    then show ?thesis using q True by (auto simp: is_next_def)
  next
    case False
    then have "\<forall>t \<in> F. r \<le> t \<and> t \<le> q" using q by (simp add: is_next_def)
    then have "r \<le> x \<and> x \<le> q" using assms q by (metis is_next_def le_neq_implies_less less_imp_le nat_le_linear order_trans)
    then show ?thesis using q False by (auto simp: is_next_def)
  qed
qed

lemma is_next_inj:
  assumes "is_next F p m" and "is_next F q m" and "p \<in> F" and "q \<in> F"
  shows "p = q"
  using assms by (cases "p < q"; cases "q < p") (auto simp: is_next_def split: if_splits)

lemma is_next_remove:
  assumes "is_next F p m" and "is_next F m n" and "p \<in> F" and "m \<in> F" and "p \<noteq> m"
  shows "is_next (F - {m}) p n"
    and "q \<in> F \<Longrightarrow> q \<noteq> p \<Longrightarrow> q \<noteq> m \<Longrightarrow> is_next F q r \<Longrightarrow> is_next (F - {m}) q r"
proof -
  have "n \<noteq> m" using assms by (auto simp: is_next_def split: if_splits)
  have r: "if p < m then \<not> (p < r \<and> r < m) else m \<le> r \<and> r \<le> p" "if m < n then \<not> (m < r \<and> r < n) else n \<le> r \<and> r \<le> m"
    if "r \<in> F" for r using assms(1,2) that by (auto simp: is_next_def)
  have "if p < n then \<not> (p < r \<and> r < n) else n \<le> r \<and> r \<le> p" if "r \<in> F" "r \<noteq> m" for r
    using r [OF that(1)] r [OF assms(3)] r [OF assms(4)] that(2) assms(5) by (auto split: if_splits)
  then show "is_next (F - {m}) p n"
    using assms(2) \<open>n \<noteq> m\<close> by (auto simp: is_next_def)
  assume "q \<in> F" "q \<noteq> p" "q \<noteq> m" "is_next F q r"
  moreover from this have "r \<noteq> m" using is_next_inj assms by blast
  ultimately show "is_next (F - {m}) q r" by (auto simp: is_next_def split: if_splits)
qed

text \<open>The search of \<open>free\<close> ends at the free block just below \<open>bp\<close>, wherever it starts.\<close>

definition scan_left :: "nat set \<Rightarrow> nat \<Rightarrow> nat \<Rightarrow> nat" where
  "scan_left F t p = (if p < t then card {q \<in> F. p < q \<and> q < t} else Suc (card {q \<in> F. p < q} + card {q \<in> F. q < t}))"

lemma scan_left_next:
  assumes "finite F" and "is_next F p q" and "p \<in> F" and "b \<in> F" "b < t" and "p < t \<Longrightarrow> q < t \<and> p < q"
  shows "scan_left F t q < scan_left F t p"
proof (cases "p < q")
  case True
  have lt: "card {r \<in> F. q < r} < card {r \<in> F. p < r}"
    using assms True by (intro psubset_card_mono) (auto simp: is_next_def)
  show ?thesis
  proof (cases "p < t")
    case True
    then have "card {r \<in> F. q < r \<and> r < t} < card {r \<in> F. p < r \<and> r < t}"
      using assms by (intro psubset_card_mono) (auto simp: is_next_def)
    then show ?thesis using True assms by (simp add: scan_left_def)
  next
    case False
    then show ?thesis using lt True by (simp add: scan_left_def)
  qed
next
  case False
  then have "\<not> p < t" and all: "\<forall>r \<in> F. q \<le> r \<and> r \<le> p" using assms by (auto simp: is_next_def)
  then have "q < t" using assms by (meson order.strict_trans1)
  then have "card {r \<in> F. q < r \<and> r < t} \<le> card {r \<in> F. r < t}" using assms by (intro card_mono) auto
  then show ?thesis using \<open>q < t\<close> \<open>\<not> p < t\<close> by (simp add: scan_left_def)
qed

lemma free_scan_ok:
  assumes "finite F" and nx: "\<And>p. p \<in> F \<Longrightarrow> is_next F p (hptr s p)" and "b \<in> F" "b < bp" "\<forall>r \<in> F. b \<le> r" and "bp \<notin> F"
  shows "p \<in> F \<Longrightarrow> \<exists>p' \<in> F. free_scan s bp p = Some p' \<and> p' < bp \<and> (\<forall>r \<in> F. \<not> (p' < r \<and> r < bp))"
proof (induction "scan_left F bp p" arbitrary: p rule: less_induct)
  case less
  let ?n = "hptr s p"
  have n: "is_next F p ?n" using nx less by blast
  then have nF: "?n \<in> F" by (simp add: is_next_def)
  show ?case
  proof (cases "p < bp \<and> bp < ?n \<or> ?n \<le> p \<and> (p < bp \<or> bp < ?n)")
    case True
    have "free_scan s bp p = Some p" using True by (subst free_scan.simps) auto
    moreover have "p < bp" "\<forall>r \<in> F. \<not> (p < r \<and> r < bp)"
      using True n assms by (auto simp: is_next_def split: if_splits)
    ultimately show ?thesis using less by blast
  next
    case False
    then have "p < bp \<Longrightarrow> ?n < bp \<and> p < ?n" using nF assms(6) by (metis nat_neq_iff not_le)
    then have "scan_left F bp ?n < scan_left F bp p"
      by (intro scan_left_next [OF assms(1) n less.prems assms(3,4)]) auto
    from less.hyps [OF this nF] show ?thesis using False by (subst free_scan.simps) auto
  qed
qed

lemma uheapD:
  assumes "uheap s F A"
  shows "finite F" "freep s \<in> F" "base s \<in> F" "0 < base s" "hsize s (base s) = 0" "F \<inter> A = {}" "ubrk s \<le> 2 ^ 36" "base s < ubrk s"
    and "p \<in> F \<Longrightarrow> is_next F p (hptr s p)" and "p \<in> F \<union> A \<Longrightarrow> base s \<le> p" and "p \<in> F \<union> A \<Longrightarrow> blk_end s p \<le> ubrk s"
    and "p \<in> F \<union> A \<Longrightarrow> p \<noteq> base s \<Longrightarrow> 0 < hsize s p"
    and "p \<in> F \<union> A \<Longrightarrow> q \<in> F \<union> A \<Longrightarrow> p < q \<Longrightarrow> blk_end s p \<le> q"
    and "p \<in> F \<Longrightarrow> q \<in> F \<Longrightarrow> p < q \<Longrightarrow> blk_end s p < q"
  using assms unfolding uheap_def by blast+

lemma uheap_freep: "uheap s F A \<Longrightarrow> freep s \<noteq> 0"
  using uheapD(2,4) [of s F A] uheapD(10) [of s F A "freep s"] by auto

lemma blk_end_gt: "0 < hsize s p \<Longrightarrow> p < blk_end s p"
  by (simp add: blk_end_def unat_gt_0)

text \<open>The bytes of the blocks of a set.\<close>

definition spans :: "umem \<Rightarrow> nat set \<Rightarrow> nat set" where
  "spans s X = (\<Union>p \<in> X. {p..<blk_end s p})"

lemma spans_split: "p \<in> F \<Longrightarrow> spans s F = spans s (F - {p}) \<union> {p..<blk_end s p}"
  unfolding spans_def by (metis Un_commute UN_insert insert_Diff)

text \<open>What \<open>free\<close> finds around the block \<open>bp\<close>: the free block \<open>p\<close> below it and the next one.\<close>

definition gap :: "umem \<Rightarrow> nat set \<Rightarrow> nat set \<Rightarrow> nat \<Rightarrow> nat \<Rightarrow> bool" where
  "gap s F A p bp \<longleftrightarrow> uheap s F (insert bp A) \<and> bp \<notin> A \<and> bp \<noteq> base s \<and> p \<in> F \<and> p < bp \<and> (\<forall>r \<in> F. \<not> (p < r \<and> r < bp))"

definition joins_up :: "umem \<Rightarrow> nat \<Rightarrow> nat \<Rightarrow> bool" where
  "joins_up s p bp \<longleftrightarrow> blk_end s bp = hptr s p"

definition joins_lo :: "umem \<Rightarrow> nat \<Rightarrow> nat \<Rightarrow> bool" where
  "joins_lo s p bp \<longleftrightarrow> blk_end s p = bp"

definition freed :: "umem \<Rightarrow> nat set \<Rightarrow> nat \<Rightarrow> nat \<Rightarrow> nat set" where
  "freed s F p bp = insert bp F - (if joins_up s p bp then {hptr s p} else {}) - (if joins_lo s p bp then {bp} else {})"

text \<open>The block whose end is the end of \<open>x\<close> after the merge.\<close>

definition tail_of :: "umem \<Rightarrow> nat \<Rightarrow> nat \<Rightarrow> nat \<Rightarrow> nat" where
  "tail_of s p bp x = (if x = bp \<or> x = p \<and> joins_lo s p bp then if joins_up s p bp then hptr s p else bp else x)"

lemma gapD:
  assumes g: "gap s F A p bp"
  shows "bp \<notin> F" "base s < bp" "0 < hsize s bp" "bp < blk_end s bp" "is_next F p (hptr s p)" "hptr s p \<in> F" "hptr s p \<noteq> bp"
    and "joins_up s p bp \<Longrightarrow> bp < hptr s p" and "joins_lo s p bp \<Longrightarrow> p \<noteq> base s"
    and "y \<in> F \<Longrightarrow> bp < y \<Longrightarrow> bp < hptr s p \<and> hptr s p \<le> y"
proof -
  note u = uheapD [OF g [unfolded gap_def, THEN conjunct1]]
  have o: "bp \<noteq> base s" "p \<in> F" "p < bp" "\<forall>r \<in> F. \<not> (p < r \<and> r < bp)" using g by (auto simp: gap_def)
  show bF: "bp \<notin> F" using u(6) by auto
  show "base s < bp" using u(10) [of bp] o by fastforce
  show sz: "0 < hsize s bp" using u(12) [of bp] o by simp
  then show "bp < blk_end s bp" by (rule blk_end_gt)
  show n: "is_next F p (hptr s p)" using u(9) o by blast
  then show nF: "hptr s p \<in> F" by (simp add: is_next_def)
  then show nb: "hptr s p \<noteq> bp" using bF by blast
  show "joins_up s p bp \<Longrightarrow> bp < hptr s p" using \<open>bp < blk_end s bp\<close> by (simp add: joins_up_def)
  show "joins_lo s p bp \<Longrightarrow> p \<noteq> base s" using u(5) o by (auto simp: joins_lo_def blk_end_def)
  show "bp < hptr s p \<and> hptr s p \<le> y" if y: "y \<in> F" "bp < y"
  proof -
    have "p < hptr s p" using n y o by (auto simp: is_next_def split: if_splits)
    then show ?thesis using n nF nb y o by (auto simp: is_next_def nat_neq_iff not_less)
  qed
qed

lemma unat_size_add:
  assumes "16 * (unat a + unat b) < 2 ^ 36"
  shows "unat (a + b :: u32) = unat a + unat b"
  using assms by (intro unat_add_lem [THEN iffD1]) simp

lemma free_link_fields:
  "freep (free_link bp p s) = p" "base (free_link bp p s) = base s" "ubrk (free_link bp p s) = ubrk s"
  "x \<noteq> p \<Longrightarrow> x \<noteq> bp \<Longrightarrow> hptr (free_link bp p s) x = hptr s x \<and> hsize (free_link bp p s) x = hsize s x"
  by (simp_all add: free_link_def Let_def)

lemma link_end:
  assumes g: "gap s F A p bp"
  shows "blk_end (free_link bp p s) x = blk_end s (tail_of s p bp x)"
    and "x \<in> {p, bp} \<Longrightarrow> hsize s x \<le> hsize (free_link bp p s) x"
    and "joins_lo s p bp \<Longrightarrow> hsize s bp \<le> hsize (free_link bp p s) p"
proof -
  note u = uheapD [OF g [unfolded gap_def, THEN conjunct1]] and d = gapD [OF g]
  let ?n = "hptr s p" and ?s' = "free_link bp p s"
  have p: "p \<in> F" "p < bp" using g by (auto simp: gap_def)
  have lim: "blk_end s y < 2 ^ 36 + base s" if "y \<in> F \<union> insert bp A" for y using u(4,7) u(11) [OF that] by linarith
  have low: "base s \<le> p" using u(10) p by blast
  define up where "up = (if joins_up s p bp then hsize s ?n else 0)"
  have up: "unat (hsize s bp + up) = unat (hsize s bp) + unat up"
    and eup: "bp + 16 * (unat (hsize s bp) + unat up) = blk_end s (tail_of s p bp bp)"
  proof -
    show e: "bp + 16 * (unat (hsize s bp) + unat up) = blk_end s (tail_of s p bp bp)"
      by (auto simp: up_def tail_of_def joins_up_def blk_end_def)
    have "tail_of s p bp bp \<in> F \<union> insert bp A" using d(6) by (simp add: tail_of_def)
    from lim [OF this] show "unat (hsize s bp + up) = unat (hsize s bp) + unat up"
      using e d(2) by (intro unat_size_add) linarith
  qed
  have hb: "hsize ?s' bp = hsize s bp + up" using p d(7) by (auto simp: free_link_def Let_def up_def joins_up_def)
  have lo: "hsize ?s' p = (if joins_lo s p bp then hsize s p + (hsize s bp + up) else hsize s p)"
    using p d(7) by (auto simp: free_link_def Let_def up_def joins_up_def joins_lo_def blk_end_def)
  have ulo: "unat (hsize s p + (hsize s bp + up)) = unat (hsize s p) + (unat (hsize s bp) + unat up)" if "joins_lo s p bp"
  proof -
    have e: "p + 16 * unat (hsize s p) = bp" using that by (simp add: joins_lo_def blk_end_def)
    have "tail_of s p bp bp \<in> F \<union> insert bp A" using d(6) by (simp add: tail_of_def)
    from lim [OF this] have "p + 16 * unat (hsize s p) + 16 * (unat (hsize s bp) + unat up) < 2 ^ 36 + base s"
      unfolding e eup .
    then have "16 * (unat (hsize s p) + unat (hsize s bp + up)) < 2 ^ 36" using low unfolding up by simp
    then show ?thesis using up by (simp add: unat_size_add)
  qed
  show "blk_end ?s' x = blk_end s (tail_of s p bp x)"
  proof -
    consider "x = bp" | "x = p" "joins_lo s p bp" | "x = p" "\<not> joins_lo s p bp" | "x \<noteq> bp" "x \<noteq> p" by blast
    then show ?thesis
    proof cases
      case 1
      then show ?thesis using hb up eup by (simp add: blk_end_def [of ?s'])
    next
      case 2
      then have "tail_of s p bp p = tail_of s p bp bp" "p + 16 * unat (hsize s p) = bp"
        by (simp_all add: tail_of_def joins_lo_def blk_end_def)
      then show ?thesis using 2 lo ulo eup by (simp add: blk_end_def [of ?s'])
    next
      case 3
      then show ?thesis using lo p by (simp add: blk_end_def tail_of_def)
    next
      case 4
      then show ?thesis using free_link_fields(4) [of x p bp s] by (simp add: blk_end_def tail_of_def)
    qed
  qed
  show "x \<in> {p, bp} \<Longrightarrow> hsize s x \<le> hsize ?s' x" "joins_lo s p bp \<Longrightarrow> hsize s bp \<le> hsize ?s' p"
    using hb lo up ulo by (auto simp: word_le_nat_alt)
qed

lemma link_next:
  assumes g: "gap s F A p bp" and x: "x \<in> freed s F p bp"
  shows "is_next (freed s F p bp) x (hptr (free_link bp p s) x)"
proof -
  let ?n = "hptr s p" and ?s' = "free_link bp p s" and ?G = "insert bp F"
  note u = uheapD [OF g [unfolded gap_def, THEN conjunct1]] and d = gapD [OF g]
  have p: "p \<in> F" "p < bp" "\<forall>r \<in> F. \<not> (p < r \<and> r < bp)" using g by (auto simp: gap_def)
  note ins = is_next_insert [OF d(5) p(1,2) d(1) p(3)]
  have N: "is_next F ?n (hptr s ?n)" using u(9) d(6) by blast
  have hp: "hptr ?s' bp = (if joins_up s p bp then hptr s ?n else ?n)"
    "hptr ?s' p = (if joins_lo s p bp then hptr ?s' bp else bp)"
    using p d(7) by (auto simp: free_link_def Let_def joins_up_def joins_lo_def blk_end_def)
  let ?H = "?G - (if joins_up s p bp then {?n} else {})"
  have 1: "is_next ?H bp (hptr ?s' bp) \<and> is_next ?H p bp \<and> (\<forall>q \<in> ?H - {p, bp}. is_next ?H q (hptr s q))"
  proof (cases "joins_up s p bp")
    case True
    have np: "?n \<noteq> p" "bp \<noteq> ?n" using d(8) [OF True] p by auto
    have i: "is_next ?G ?n (hptr s ?n)" using ins(3) [OF d(6) np(1) N] .
    note r = is_next_remove [OF ins(2) i _ _ np(2)]
    have "is_next (?G - {?n}) q (hptr s q)" if "q \<in> F - {p, ?n}" for q
      using that ins(3) [of q "hptr s q"] u(9) [of q] r(2) [of q "hptr s q"] d(1,6) by auto
    moreover have "is_next (?G - {?n}) p bp" using r(2) [of p bp] ins(1) np p d(6) by auto
    ultimately show ?thesis using r(1) hp(1) True d(6) by auto
  qed (use hp(1) ins u(9) in auto)
  show ?thesis
  proof (cases "joins_lo s p bp")
    case True
    define H where "H = ?H"
    have pn: "p \<in> H" "bp \<in> H" using p d(7,8) by (auto simp: H_def dest: order.strict_trans)
    have F': "freed s F p bp = H - {bp}" using True by (simp add: freed_def H_def)
    note 1 = 1 [folded H_def] and r = is_next_remove [of H p bp "hptr ?s' bp"]
    have ne: "p \<noteq> bp" using p by simp
    show ?thesis
    proof (cases "x = p")
      case True
      then show ?thesis using r(1) 1 pn ne hp(2) \<open>joins_lo s p bp\<close> unfolding F' by simp
    next
      case False
      then have "x \<in> H - {p, bp}" using x unfolding F' by blast
      then show ?thesis using r(2) [OF _ _ pn ne, of x "hptr s x"] 1 free_link_fields(4) [of x p bp s] unfolding F' by simp
    qed
  next
    case False
    then show ?thesis using 1 x hp(2) free_link_fields(4) [of x p bp s]
      by (cases "x = p"; cases "x = bp") (auto simp: freed_def)
  qed
qed

lemma freedD:
  assumes g: "gap s F A p bp" and x: "x \<in> freed s F p bp \<union> A"
  shows "x \<in> F \<union> insert bp A" and "tail_of s p bp x \<in> F \<union> insert bp A" and "x \<le> tail_of s p bp x"
    and "y \<in> freed s F p bp \<union> A \<Longrightarrow> x < y \<Longrightarrow> tail_of s p bp x < y"
proof -
  note u = uheapD [OF g [unfolded gap_def, THEN conjunct1]] and d = gapD [OF g]
  have p: "p \<in> F" "p < bp" "\<forall>r \<in> F. \<not> (p < r \<and> r < bp)" "bp \<notin> A" using g by (auto simp: gap_def)
  show "x \<in> F \<union> insert bp A" using x by (auto simp: freed_def)
  then show "tail_of s p bp x \<in> F \<union> insert bp A" using d(6) by (auto simp: tail_of_def)
  show "x \<le> tail_of s p bp x" using d(8) p by (auto simp: tail_of_def)
  assume y: "y \<in> freed s F p bp \<union> A" "x < y"
  have yA: "y \<in> F \<union> insert bp A" using y by (auto simp: freed_def)
  have nA: "hptr s p \<notin> A" using u(6) d(6) by auto
  have past_bp: "bp < y" if "joins_lo s p bp" "p < y"
    using u(13) [of p y] that y yA p by (auto simp: joins_lo_def freed_def le_less)
  have past_n: "hptr s p < y" if "joins_up s p bp" "bp < y"
    using u(13) [of bp y] that y yA p nA by (auto simp: joins_up_def freed_def le_less split: if_splits)
  show "tail_of s p bp x < y" using past_bp past_n y by (auto simp: tail_of_def)
qed

lemma link_ok:
  assumes g: "gap s F A p bp"
  shows "uheap (free_link bp p s) (freed s F p bp) A"
proof -
  note u = uheapD [OF g [unfolded gap_def, THEN conjunct1]] and d = gapD [OF g] and e = link_end [OF g]
  let ?s' = "free_link bp p s" and ?F = "freed s F p bp"
  have p: "p \<in> F" "p < bp" "\<forall>r \<in> F. \<not> (p < r \<and> r < bp)" "bp \<notin> A" using g by (auto simp: gap_def)
  have bn: "hptr s p \<noteq> base s" if "joins_up s p bp" using d(2,8) that by auto
  have pn: "hptr s p \<noteq> p" if "joins_up s p bp" using d(8) [OF that] p(2) by simp
  have in_F: "p \<in> ?F" "base s \<in> ?F" using p(1,2) pn u(3) bn d(2) by (auto simp: freed_def)
  have "tail_of s p bp (base s) = base s" using d(2,9) by (auto simp: tail_of_def)
  then have hb: "hsize ?s' (base s) = 0" using e(1) [of "base s"] u(5) by (simp add: blk_end_def unat_eq_0)
  have pos: "0 < hsize ?s' x" if x: "x \<in> ?F \<union> A" "x \<noteq> base s" for x
  proof -
    have "x < blk_end s x" using u(12) [of x] freedD(1) [OF g x(1)] x(2) by (intro blk_end_gt) simp
    moreover have "blk_end s x \<le> blk_end s (tail_of s p bp x)"
      using u(13) [of x "tail_of s p bp x"] freedD(1-3) [OF g x(1)] by (cases "x = tail_of s p bp x") (auto simp: blk_end_def)
    ultimately have "x < blk_end ?s' x" using e(1) by simp
    then show ?thesis by (simp add: blk_end_def unat_gt_0 word_neq_0_conv)
  qed
  have strict: "blk_end ?s' x < y" if xy: "x \<in> ?F" "y \<in> ?F" "x < y" for x y
  proof -
    let ?z = "tail_of s p bp x"
    have z: "?z < y" "?z \<in> insert bp F" using xy freedD(4) [OF g] d(6) by (auto simp: tail_of_def freed_def)
    have y: "y \<in> insert bp F" using xy by (auto simp: freed_def)
    have "blk_end s ?z \<le> y" using u(13) [of ?z y] y z by auto
    moreover have "blk_end s ?z \<noteq> y"
    proof
      assume eq: "blk_end s ?z = y"
      consider "?z \<in> F" "y \<in> F" | "?z = bp" "y \<in> F" | "?z \<in> F" "y = bp" using y z by auto
      then show False
      proof cases
        case 1
        then show False using u(14) [of ?z y] z eq by simp
      next
        case 2
        then have "hptr s p \<le> y" "bp < hptr s p" using d(10) [of y] z by auto
        then have "joins_up s p bp" using u(13) [of bp "hptr s p"] d(6) eq 2 by (auto simp: joins_up_def)
        then show False using 2 d(7) z(1) eq xy(2) by (auto simp: tail_of_def joins_up_def freed_def split: if_splits)
      next
        case 3
        then have "?z = p" using u(14) [of ?z p] p z eq by (metis less_irrefl nat_neq_iff order.strict_trans)
        then have "joins_lo s p bp" using eq 3 by (simp add: joins_lo_def)
        then show False using xy(2) 3 by (simp add: freed_def)
      qed
    qed
    ultimately show ?thesis using e(1) by simp
  qed
  have sub: "?F \<subseteq> insert bp F" by (auto simp: freed_def)
  show ?thesis unfolding uheap_def free_link_fields(1-3)
  proof (intro conjI ballI impI)
    show "finite ?F" using u(1) sub by (simp add: finite_subset)
    show "?F \<inter> A = {}" using sub u(6) p(4) by blast
    show "is_next ?F x (hptr ?s' x)" if "x \<in> ?F" for x by (rule link_next [OF g that])
    show "base s \<le> x" "blk_end ?s' x \<le> ubrk s" if "x \<in> ?F \<union> A" for x
      using u(10) [of x] u(11) [OF freedD(2) [OF g that]] freedD(1) [OF g that] e(1) [of x] by simp_all
    show "blk_end ?s' x \<le> y" if "x \<in> ?F \<union> A" "y \<in> ?F \<union> A" "x < y" for x y
      unfolding e(1) by (rule u(13) [OF freedD(2) [OF g that(1)] freedD(1) [OF g that(2)] freedD(4) [OF g that]])
  qed (use in_F u(4,7,8) hb pos strict in auto)
qed

lemma link_spans:
  assumes g: "gap s F A p bp"
  shows "spans (free_link bp p s) (freed s F p bp) = spans s (insert bp F)"
proof -
  note d = gapD [OF g] and e = link_end [OF g]
  let ?s' = "free_link bp p s" and ?n = "hptr s p" and ?U = "joins_up s p bp" and ?L = "joins_lo s p bp"
  note u = uheapD [OF g [unfolded gap_def, THEN conjunct1]]
  let ?S = "\<lambda>s x. {x..<blk_end s x}"
  have p: "p \<in> F" "p < bp" using g by (auto simp: gap_def)
  have ord: "?n \<le> blk_end s ?n" "bp \<le> blk_end ?s' bp" "p \<le> blk_end s p" by (simp_all add: blk_end_def)
  have pn: "p \<noteq> ?n" if ?U using d(8) [OF that] p by simp
  have b: "?S ?s' bp = ?S s bp \<union> (if ?U then ?S s ?n else {})"
    using e(1) [of bp] d(4) ord by (auto simp: tail_of_def joins_up_def)
  have l: "?S ?s' p = ?S s p \<union> (if ?L then ?S ?s' bp else {})"
    using e(1) [of p] e(1) [of bp] p ord by (auto simp: tail_of_def joins_lo_def)
  have o: "?S ?s' x = ?S s x" if "x \<noteq> p" "x \<noteq> bp" for x using e(1) [of x] that by (simp add: tail_of_def)
  define G where "G = F - {p} - (if ?U then {?n} else {})"
  have G: "(\<Union>x \<in> G. ?S ?s' x) = (\<Union>x \<in> G. ?S s x)" using o d(1) by (intro SUP_cong) (auto simp: G_def)
  have F': "freed s F p bp = insert p G \<union> (if ?L then {} else {bp})"
    using p d(1,7) pn by (auto simp: freed_def G_def)
  have F: "insert bp F = {bp, p} \<union> G \<union> (if ?U then {?n} else {})" using p d(6) by (auto simp: G_def)
  show ?thesis unfolding spans_def F' F using b l G by (auto split: if_splits)
qed

text \<open>Taking a block, or its upper end, out of the list.\<close>

definition taken :: "umem \<Rightarrow> nat set \<Rightarrow> nat set \<Rightarrow> u32 \<Rightarrow> nat \<Rightarrow> umem \<Rightarrow> bool" where
  "taken s F A n q s' \<longleftrightarrow> q \<notin> A \<and> hsize s' q = n \<and> ubrk s' = ubrk s \<and> base s' = base s \<and> (\<forall>a \<in> A. hsize s' a = hsize s a) \<and>
     (\<exists>F'. uheap s' F' (insert q A) \<and> spans s' F' \<union> {q..<q + 16 * unat n} = spans s F)"

lemma take_whole:
  assumes h: "uheap s F A" and "p \<in> F" and "prevp \<in> F" and "hptr s prevp = p" and "0 < hsize s p"
  shows "taken s F A (hsize s p) p (s\<lparr>hptr := (hptr s)(prevp := hptr s p), freep := prevp\<rparr>)"
proof -
  let ?s' = "s\<lparr>hptr := (hptr s)(prevp := hptr s p), freep := prevp\<rparr>"
  note u = uheapD [OF h]
  have pb: "p \<noteq> base s" using u(5) assms(5) by auto
  have n: "is_next F prevp p" "is_next F p (hptr s p)" using u(9) assms by auto
  have pp: "prevp \<noteq> p"
  proof
    assume "prevp = p"
    then have "\<forall>r \<in> F. p \<le> r \<and> r \<le> p" using n(1) by (simp add: is_next_def)
    then show False using u(3) pb le_antisym by blast
  qed
  note r = is_next_remove [OF n assms(3,2) pp]
  have e: "blk_end ?s' x = blk_end s x" for x by (simp add: blk_end_def)
  have un: "F - {p} \<union> insert p A = F \<union> A" using assms(2) by blast
  have "uheap ?s' (F - {p}) (insert p A)" unfolding uheap_def un e
  proof (intro conjI ballI impI)
    fix x assume x: "x \<in> F - {p}"
    show "is_next (F - {p}) x (hptr ?s' x)" using x r(1) r(2) [of x "hptr s x"] u(9) [of x] by (cases "x = prevp") auto
  qed (use u(1-8,10-14) pb pp assms(2,3) in auto)
  moreover have "spans ?s' (F - {p}) \<union> {p..<p + 16 * unat (hsize s p)} = spans s F"
    using assms(2) by (auto simp: spans_def blk_end_def)
  ultimately show ?thesis unfolding taken_def using u(6) assms(2) by auto
qed

lemma take_tail:
  assumes h: "uheap s F A" and "p \<in> F" and "prevp \<in> F" and "0 < n" and "n < hsize s p"
  defines "q \<equiv> p + 16 * unat (hsize s p - n)"
  shows "taken s F A n q (s\<lparr>hsize := (hsize s)(p := hsize s p - n, q := n), freep := prevp\<rparr>)"
proof -
  let ?s' = "s\<lparr>hsize := (hsize s)(p := hsize s p - n, q := n), freep := prevp\<rparr>"
  note u = uheapD [OF h]
  have pb: "p \<noteq> base s" using u(5) assms(5) by auto
  have sz: "unat (hsize s p - n) = unat (hsize s p) - unat n" "0 < unat n" "unat n < unat (hsize s p)"
    using assms(4,5) by (auto simp: unat_sub word_less_nat_alt less_imp_le)
  have q: "p < q" "q < blk_end s p" "q + 16 * unat n = blk_end s p" using sz by (auto simp: q_def blk_end_def)
  have qn: "q \<notin> F \<union> A" using u(13) [of p q] q assms(2) by auto
  have e: "blk_end ?s' p = q" "blk_end ?s' q = blk_end s p" using q by (auto simp: blk_end_def q_def)
  have eo: "blk_end ?s' x = blk_end s x" if "x \<in> F \<union> A" "x \<noteq> p" for x using that qn by (auto simp: blk_end_def)
  have above: "blk_end s p \<le> y" if "y \<in> F \<union> A" "q < y" for y using u(13) [of p y] that q assms(2) by auto
  have below: "blk_end s x \<le> p" if "x \<in> F \<union> A" "x < q" "x \<noteq> p" for x
    using u(13) [of x p] u(13) [of p x] that q assms(2) by (cases "x < p") auto
  have "uheap ?s' F (insert q A)" unfolding uheap_def
  proof (intro conjI ballI impI)
    fix x assume x: "x \<in> F \<union> insert q A"
    show "base ?s' \<le> x" "blk_end ?s' x \<le> ubrk ?s'" using x u(10) [of x] u(10) [of p] u(11) [of x] u(11) [of p] q e eo assms(2)
      by (cases "x = p"; cases "x = q"; force)+
    show "0 < hsize ?s' x" if "x \<noteq> base ?s'" using x u(12) [of x] that sz assms(4) by (auto simp: word_less_nat_alt)
    fix y assume y: "y \<in> F \<union> insert q A" and xy: "x < y"
    show "blk_end ?s' x \<le> y"
      using x y xy e eo above [of y] below [of x] u(13) [of x y] u(13) [of p y] q assms(2)
      by (cases "x = p"; cases "x = q"; cases "y = q") force+
  next
    fix x y assume "x \<in> F" "y \<in> F" "x < y"
    then show "blk_end ?s' x < y" using u(14) [of x y] e eo [of x] q by (cases "x = p") auto
  qed (use u pb qn assms(3) in auto)
  moreover have "spans ?s' F \<union> {q..<q + 16 * unat n} = spans s F"
  proof -
    have "spans ?s' (F - {p}) = spans s (F - {p})" unfolding spans_def using eo by (intro SUP_cong) auto
    moreover have "{p..<q} \<union> {q..<blk_end s p} = {p..<blk_end s p}" using q by auto
    ultimately show ?thesis using spans_split [OF assms(2), of ?s'] spans_split [OF assms(2), of s] e(1) q by (simp add: Un_assoc)
  qed
  moreover have "\<forall>a \<in> A. hsize ?s' a = hsize s a" using qn u(6) assms(2) by auto
  ultimately show ?thesis unfolding taken_def using qn q by auto
qed

section \<open>The operations\<close>

lemma free_ok:
  assumes h: "uheap s F (insert bp A)" and "bp \<notin> A"
  shows "\<exists>p. free (bp + 16) s = Some (free_link bp p s) \<and> gap s F A p bp"
proof -
  note u = uheapD [OF h]
  have bp: "bp \<notin> F" "bp \<noteq> base s" using u(3,6) by auto
  then have "base s < bp" using u(10) [of bp] by simp
  with free_scan_ok [OF u(1,9,3) _ _ bp(1) u(2)] u(10)
  obtain p where "p \<in> F" "free_scan s bp (freep s) = Some p" "p < bp" "\<forall>r \<in> F. \<not> (p < r \<and> r < bp)" by blast
  then show ?thesis using assms bp by (auto simp: free_def gap_def)
qed

lemma link_fit:
  assumes g: "gap s F A p bp"
  shows "\<exists>q \<in> freed s F p bp. hsize s bp \<le> hsize (free_link bp p s) q"
proof (cases "joins_lo s p bp")
  case True
  have "p \<noteq> hptr s p" if "joins_up s p bp" using gapD(8) [OF g that] g by (simp add: gap_def)
  then have "p \<in> freed s F p bp" using g by (auto simp: freed_def gap_def)
  then show ?thesis using link_end(3) [OF g True] by blast
next
  case False
  then have "bp \<in> freed s F p bp" using gapD(7) [OF g] by (auto simp: freed_def)
  then show ?thesis using link_end(2) [OF g, of bp] by blast
qed

lemma grow_ok:
  assumes h: "uheap s F A" and "0 < n" and "ubrk s + 16 * unat n \<le> 2 ^ 36"
  defines "s1 \<equiv> s\<lparr>ubrk := ubrk s + 16 * unat n, hsize := (hsize s)(ubrk s := n)\<rparr>"
  shows "uheap s1 F (insert (ubrk s) A)" and "ubrk s \<notin> A" and "spans s1 (insert (ubrk s) F) = spans s F \<union> {ubrk s..<ubrk s1}"
    and "a \<in> A \<Longrightarrow> hsize s1 a = hsize s a" and "hsize s1 (ubrk s) = n"
proof -
  note u = uheapD [OF h]
  have lt: "x < ubrk s" if "x \<in> F \<union> A" for x
    using u(8) u(11) [OF that] u(12) [OF that] blk_end_gt [of s x] by (cases "x = base s") force+
  then show nA: "ubrk s \<notin> A" by blast
  have e: "blk_end s1 x = blk_end s x" if "x \<in> F \<union> A" for x using lt [OF that] by (simp add: s1_def blk_end_def)
  have eh: "blk_end s1 (ubrk s) = ubrk s1" by (simp add: s1_def blk_end_def)
  have f: "freep s1 = freep s" "base s1 = base s" "hptr s1 = hptr s" "ubrk s \<le> ubrk s1" "ubrk s1 \<le> 2 ^ 36"
    and hs: "\<And>x. x \<in> F \<union> A \<Longrightarrow> hsize s1 x = hsize s x"
    using assms(3) lt by (auto simp: s1_def)
  show "uheap s1 F (insert (ubrk s) A)" unfolding uheap_def f
  proof (intro conjI ballI impI)
    fix x assume x: "x \<in> F \<union> insert (ubrk s) A"
    show "base s \<le> x" "blk_end s1 x \<le> ubrk s1" using x u(8) u(10,11) [of x] e [of x] eh f(4) by (cases "x = ubrk s"; force)+
    show "0 < hsize s1 x" if "x \<noteq> base s" using x that hs [of x] u(12) [of x] assms(2) by (auto simp: s1_def)
    fix y assume y: "y \<in> F \<union> insert (ubrk s) A" and "x < y"
    moreover have "x \<noteq> ubrk s" using y \<open>x < y\<close> lt by (metis Un_iff insert_iff less_asym less_irrefl)
    ultimately show "blk_end s1 x \<le> y" using x e [of x] u(11) [of x] u(13) [of x y] by auto
  next
    fix x y assume "x \<in> F" "y \<in> F" "x < y"
    then show "blk_end s1 x < y" using u(14) [of x y] e [of x] by simp
  qed (use u(1-6,8,9) lt [of "base s"] lt hs f order.strict_trans2 [OF u(8) f(4)] in auto)
  show "spans s1 (insert (ubrk s) F) = spans s F \<union> {ubrk s..<ubrk s1}" using e eh by (auto simp: spans_def)
  show "a \<in> A \<Longrightarrow> hsize s1 a = hsize s a" "hsize s1 (ubrk s) = n" using hs by (auto simp: s1_def)
qed

text \<open>What a call of \<open>morecore\<close> that gets memory leaves: the heap grown, with a block that fits.\<close>

definition grown :: "umem \<Rightarrow> nat set \<Rightarrow> nat set \<Rightarrow> umem \<Rightarrow> nat set \<Rightarrow> bool" where
  "grown s F A s' F' \<longleftrightarrow> uheap s' F' A \<and> base s' = base s \<and> ubrk s \<le> ubrk s' \<and>
     spans s' F' = spans s F \<union> {ubrk s..<ubrk s'} \<and> (\<forall>a \<in> A. hsize s' a = hsize s a)"

lemma sint_small:
  fixes w :: u32
  assumes "unat w < 2 ^ 31"
  shows "sint w = int (unat w)"
proof -
  have u: "uint w = int (unat w)" by (subst unat_eq_nat_uint) simp
  have "nat (uint w) < 2 ^ 31" using assms by (simp only: unat_eq_nat_uint)
  then have "uint w < int (2 ^ 31)" by (simp only: nat_less_iff [OF uint_ge_0])
  then have lt: "uint w < 2 ^ 31" by simp
  moreover have "- (2 ^ 31) \<le> uint w" by (rule order.trans [OF _ uint_ge_0]) simp
  ultimately have "signed_take_bit 31 (uint w) = uint w" by (intro signed_take_bit_int_eq_self)
  moreover have "sint w = signed_take_bit 31 (uint w)" by (simp add: sint_uint)
  ultimately show ?thesis using u by (simp only:)
qed

lemma morecore_ok:
  assumes h: "uheap s F A" and g: "\<forall>n b. grant n b \<longrightarrow> b + n \<le> 2 ^ 36" and n: "0 < nu" "16 * unat nu < 2 ^ 31"
  shows "morecore grant nu s = Some (0, s) \<or>
     (\<exists>s' F'. morecore grant nu s = Some (freep s', s') \<and> freep s' \<noteq> 0 \<and> grown s F A s' F' \<and> (\<exists>q \<in> F'. nu \<le> hsize s' q))"
proof -
  define m where "m = (if nu < 4096 then 4096 else nu)"
  have m: "nu \<le> m" "0 < m" "16 * unat m < 2 ^ 31" using n by (auto simp: m_def word_less_nat_alt word_le_nat_alt)
  define w where "w = (of_nat (unat m * 16) :: u32)"
  have mc: "morecore grant nu s = (case usbrk grant w s of (None, s) \<Rightarrow> Some (0, s)
     | (Some hp, s) \<Rightarrow> map_option (\<lambda>s. (freep s, s)) (free (hp + 16) (s\<lparr>hsize := (hsize s)(hp := m)\<rparr>)))"
    unfolding morecore_def m_def [symmetric] Let_def w_def ..
  have w: "unat w = 16 * unat m" using m(3) by (simp add: w_def unsigned_of_nat take_bit_nat_eq_self del: of_nat_mult)
  have "sint w = int (unat w)" using w m(3) by (intro sint_small) simp
  moreover have "0 < unat w" using w m(2) by (simp add: word_less_nat_alt)
  ultimately have sw: "0 < sint w" by (simp only: of_nat_0_less_iff)
  show ?thesis
  proof (cases "grant (unat w) (ubrk s)")
    case False
    then have "usbrk grant w s = (None, s)" using sw by (simp add: usbrk_def)
    then show ?thesis by (simp add: mc)
  next
    case True
    let ?s1 = "s\<lparr>ubrk := ubrk s + 16 * unat m, hsize := (hsize s)(ubrk s := m)\<rparr>"
    have lim: "ubrk s + 16 * unat m \<le> 2 ^ 36" using g True w by metis
    note gr = grow_ok [OF h m(2) lim]
    from free_ok [OF gr(1,2)] obtain p where fr: "free (ubrk s + 16) ?s1 = Some (free_link (ubrk s) p ?s1)"
      and gap: "gap ?s1 F A p (ubrk s)" by blast
    let ?s' = "free_link (ubrk s) p ?s1" and ?F = "freed ?s1 F p (ubrk s)"
    have us: "usbrk grant w s = (Some (ubrk s), s\<lparr>ubrk := ubrk s + 16 * unat m\<rparr>)" using True sw w by (simp add: usbrk_def)
    have run: "morecore grant nu s = Some (freep ?s', ?s')"
      using us fr by (simp add: mc)
    have uh: "uheap ?s' ?F A" by (rule link_ok [OF gap])
    have keep: "hsize ?s' a = hsize s a" if "a \<in> A" for a
    proof -
      have "a \<noteq> ubrk s" "a \<noteq> p" using that gr(2) gap uheapD(6) [OF h] by (auto simp: gap_def)
      then show ?thesis using free_link_fields(4) [of a p "ubrk s" ?s1] by simp
    qed
    have "grown s F A ?s' ?F" unfolding grown_def
      using uh link_spans [OF gap] gr(3) keep by (simp add: free_link_fields)
    moreover have "freep ?s' \<noteq> 0" by (rule uheap_freep [OF uh])
    moreover have "\<exists>q \<in> ?F. nu \<le> hsize ?s' q" using link_fit [OF gap] m(1) order.trans by fastforce
    ultimately show ?thesis using run by blast
  qed
qed

text \<open>The free blocks from \<open>p\<close> round to \<open>t\<close>, which the search of \<open>malloc\<close> has still to look at.\<close>

definition to_go :: "nat set \<Rightarrow> nat \<Rightarrow> nat \<Rightarrow> nat set" where
  "to_go F t p = (if p \<le> t then {q \<in> F. p \<le> q \<and> q \<le> t} else {q \<in> F. p \<le> q \<or> q \<le> t})"

lemma to_go_next:
  assumes "is_next F p q" and "p \<in> F" and "t \<in> F" and "p \<noteq> t"
  shows "to_go F t q = to_go F t p - {p}"
proof -
  have r: "if p < q then \<not> (p < r \<and> r < q) else q \<le> r \<and> r \<le> p" if "r \<in> F" for r
    using assms(1) that by (auto simp: is_next_def)
  have "r \<in> to_go F t q \<longleftrightarrow> r \<in> to_go F t p - {p}" for r
    using r [of r] r [OF assms(3)] r [OF assms(2)] assms(4) by (auto simp: to_go_def split: if_splits)
  then show ?thesis by blast
qed

lemma to_go_all:
  assumes "is_next F t q"
  shows "to_go F t q = F"
proof -
  have "r \<in> to_go F t q \<longleftrightarrow> r \<in> F" for r using assms by (auto simp: to_go_def is_next_def split: if_splits)
  then show ?thesis by blast
qed

lemma malloc_scan:
  assumes h: "uheap s F A"
  shows "p \<in> F \<Longrightarrow> prevp \<in> F \<Longrightarrow> hptr s prevp = p \<Longrightarrow>
     (\<exists>prevp' p'. prevp' \<in> F \<and> p' \<in> F \<and> hptr s prevp' = p' \<and> n \<le> hsize s p' \<and>
        malloc_loop grant n prevp p s = Some (malloc_take n prevp' p' s)) \<or>
     (\<forall>q \<in> to_go F (freep s) p. hsize s q < n) \<and>
     malloc_loop grant n prevp p s =
       (case morecore grant n s of None \<Rightarrow> None
        | Some (p, s) \<Rightarrow> if p = 0 then Some (0, s) else malloc_loop grant n p (hptr s p) s)"
proof (induction "card (to_go F (freep s) p)" arbitrary: prevp p rule: less_induct)
  case less
  note u = uheapD [OF h]
  consider "n \<le> hsize s p" | "hsize s p < n" "p = freep s" | "hsize s p < n" "p \<noteq> freep s" by fastforce
  then show ?case
  proof cases
    case 1
    then have "malloc_loop grant n prevp p s = Some (malloc_take n prevp p s)" by (subst malloc_loop.simps) simp
    then show ?thesis using 1 less.prems by blast
  next
    case 2
    moreover have "to_go F (freep s) p = {p}" using 2 less.prems by (auto simp: to_go_def)
    ultimately show ?thesis by (subst (2) malloc_loop.simps) (auto simp: not_le)
  next
    case 3
    let ?q = "hptr s p"
    have q: "is_next F p ?q" using u(9) less.prems by blast
    have g: "to_go F (freep s) ?q = to_go F (freep s) p - {p}" by (rule to_go_next [OF q less.prems(1) u(2) 3(2)])
    have "p \<in> to_go F (freep s) p" "finite (to_go F (freep s) p)" using less.prems u(1) by (auto simp: to_go_def)
    then have "card (to_go F (freep s) ?q) < card (to_go F (freep s) p)" unfolding g by (rule card_Diff1_less [rotated])
    moreover have "?q \<in> F" using q by (simp add: is_next_def)
    moreover have "malloc_loop grant n prevp p s = malloc_loop grant n p ?q s"
      using 3 leD [of n "hsize s p"] by (subst malloc_loop.simps) auto
    ultimately show ?thesis using less.hyps [of ?q p] less.prems(1) 3(1) g by auto
  qed
qed

lemma malloc_take_ok:
  assumes "uheap s F A" and "prevp \<in> F" and "p \<in> F" and "hptr s prevp = p" and "n \<le> hsize s p" and "0 < n"
  shows "\<exists>q s'. malloc_take n prevp p s = (q + 16, s') \<and> taken s F A n q s'"
proof (cases "hsize s p = n")
  case True
  then show ?thesis using take_whole [OF assms(1,3,2,4)] assms(6) by (auto simp: malloc_take_def)
next
  case False
  then have "n < hsize s p" using assms(5) by simp
  from take_tail [OF assms(1,3,2,6) this] show ?thesis using False by (simp add: malloc_take_def Let_def)
qed

lemma malloc_fit:
  assumes h: "uheap s F A" and fit: "\<exists>q \<in> F. n \<le> hsize s q" and "0 < n"
  shows "\<exists>q s'. malloc_loop grant n (freep s) (hptr s (freep s)) s = Some (q + 16, s') \<and> taken s F A n q s'"
proof -
  note u = uheapD [OF h]
  have nx: "is_next F (freep s) (hptr s (freep s))" using u(2,9) by blast
  then have F: "hptr s (freep s) \<in> F" by (simp add: is_next_def)
  have "\<not> (\<forall>q \<in> to_go F (freep s) (hptr s (freep s)). hsize s q < n)"
    using fit unfolding to_go_all [OF nx] by (meson not_le)
  then obtain prevp p where p: "prevp \<in> F" "p \<in> F" "hptr s prevp = p" "n \<le> hsize s p"
    "malloc_loop grant n (freep s) (hptr s (freep s)) s = Some (malloc_take n prevp p s)"
    using malloc_scan [OF h F u(2) refl, of n grant] by blast
  then show ?thesis using malloc_take_ok [OF h p(1-4) assms(3)] by auto
qed

lemma nunits_of_unat:
  shows "unat (nunits_of nb) = (unat nb + 15) div 16 + 1" and "0 < nunits_of nb"
proof -
  have b: "unat nb < 2 ^ 32" using unsigned_less [of nb, where ?'a = nat] by simp
  have c: "unat (ucast nb :: u64) = unat nb" using b by (simp add: unsigned_ucast_eq take_bit_nat_eq_self)
  have "unat (ucast nb + 15 :: u64) = unat nb + 15" using b c by (simp add: unat_word_ariths)
  then have d: "unat ((ucast nb + 15 :: u64) div 16 + 1) = (unat nb + 15) div 16 + 1"
    using b by (simp add: unat_word_ariths unat_div)
  define x where "x = ((ucast nb + 15 :: u64) div 16 + 1)"
  have x: "nunits_of nb = ucast x" by (simp add: nunits_of_def x_def add.commute)
  have "unat x = (unat nb + 15) div 16 + 1" using d by (simp only: x_def)
  moreover from this have "take_bit 32 (unat x) = unat x" using b by (intro take_bit_nat_eq_self) simp
  ultimately show u: "unat (nunits_of nb) = (unat nb + 15) div 16 + 1"
    unfolding x by (simp add: unsigned_ucast_eq)
  then show "0 < nunits_of nb" by (simp add: word_less_nat_alt)
qed

text \<open>Before the first \<open>malloc\<close> there is no list: \<open>freep\<close> is null.\<close>

definition ustate :: "umem \<Rightarrow> nat set \<Rightarrow> nat set \<Rightarrow> bool" where
  "ustate s F A \<longleftrightarrow> uheap s F A \<or>
     freep s = 0 \<and> F = {} \<and> A = {} \<and> 0 < base s \<and> base s < ubrk s \<and> ubrk s \<le> 2 ^ 36"

definition init_list :: "umem \<Rightarrow> umem" where
  "init_list s = (if freep s = 0
     then s\<lparr>hptr := (hptr s)(base s := base s), hsize := (hsize s)(base s := 0), freep := base s\<rparr> else s)"

lemma init_list_ok:
  assumes "ustate s F A"
  shows "\<exists>F'. uheap (init_list s) F' A \<and> spans (init_list s) F' = spans s F"
    and "ubrk (init_list s) = ubrk s" "base (init_list s) = base s" and "a \<in> A \<Longrightarrow> hsize (init_list s) a = hsize s a"
proof -
  have "freep s \<noteq> 0" if "uheap s F A" by (rule uheap_freep [OF that])
  moreover have "uheap (init_list s) {base s} A \<and> spans (init_list s) {base s} = spans s F" if "\<not> uheap s F A"
  proof -
    have "freep s = 0 \<and> F = {} \<and> A = {} \<and> 0 < base s \<and> base s < ubrk s \<and> ubrk s \<le> 2 ^ 36"
      using assms that by (simp add: ustate_def)
    then show ?thesis by (auto simp: init_list_def uheap_def is_next_def blk_end_def spans_def)
  qed
  ultimately show "\<exists>F'. uheap (init_list s) F' A \<and> spans (init_list s) F' = spans s F"
    by (cases "uheap s F A") (auto simp: init_list_def)
  show "ubrk (init_list s) = ubrk s" "base (init_list s) = base s" by (simp_all add: init_list_def)
  show "hsize (init_list s) a = hsize s a" if "a \<in> A"
    using assms that uheap_freep [of s F A] by (auto simp: ustate_def init_list_def)
qed

lemma malloc_unfold:
  "malloc grant nb s = malloc_loop grant (nunits_of nb) (freep (init_list s)) (hptr (init_list s) (freep (init_list s))) (init_list s)"
  unfolding malloc_def init_list_def Let_def ..

lemma malloc_heap_ok:
  assumes h: "uheap s F A" and g: "\<forall>n b. grant n b \<longrightarrow> b + n \<le> 2 ^ 36" and n: "0 < n" "16 * unat n < 2 ^ 31"
  shows "malloc_loop grant n (freep s) (hptr s (freep s)) s = Some (0, s) \<or>
     (\<exists>q s0 F0 s'. malloc_loop grant n (freep s) (hptr s (freep s)) s = Some (q + 16, s') \<and>
        grown s F A s0 F0 \<and> taken s0 F0 A n q s')"
proof (cases "\<exists>q \<in> F. n \<le> hsize s q")
  case True
  moreover have "grown s F A s F" using h by (simp add: grown_def)
  ultimately show ?thesis using malloc_fit [OF h True n(1), of grant] by blast
next
  case False
  note u = uheapD [OF h]
  have nx: "is_next F (freep s) (hptr s (freep s))" using u(2,9) by blast
  then have F: "hptr s (freep s) \<in> F" by (simp add: is_next_def)
  have run: "malloc_loop grant n (freep s) (hptr s (freep s)) s =
       (case morecore grant n s of None \<Rightarrow> None
        | Some (p, s) \<Rightarrow> if p = 0 then Some (0, s) else malloc_loop grant n p (hptr s p) s)"
    using malloc_scan [OF h F u(2) refl, of n grant] False by blast
  from morecore_ok [OF h g n] show ?thesis
  proof
    assume "\<exists>s' F'. morecore grant n s = Some (freep s', s') \<and> freep s' \<noteq> 0 \<and> grown s F A s' F' \<and> (\<exists>q \<in> F'. n \<le> hsize s' q)"
    then obtain s0 F0 where m: "morecore grant n s = Some (freep s0, s0)" "freep s0 \<noteq> 0" and gr: "grown s F A s0 F0"
      and fit: "\<exists>q \<in> F0. n \<le> hsize s0 q" by blast
    have "uheap s0 F0 A" using gr by (simp add: grown_def)
    from malloc_fit [OF this fit n(1), of grant] show ?thesis using run m gr by auto
  qed (use run in simp)
qed

section \<open>Properties\<close>

text \<open>
  Property C10. The allocator hands out and takes back disjoint blocks and loses no memory. On a
  well-formed heap, a request below $2^{31} - 31$ bytes returns (the loops end): with 0 when the
  kernel gives no memory, and then the free bytes and the blocks handed out are as before; or with
  the address after the header of a new block that is apart from all blocks handed out before and has
  room for the request. The block and the bytes still free are together exactly the bytes that
  were free and those that \<open>sbrk\<close> added. Any block handed out can be freed: \<open>free\<close> returns, its
  bytes are free again, and no other block changes. Both keep the list sorted, circular and without
  two adjacent free blocks.
\<close>

theorem malloc_free_contract:
  assumes h: "ustate s F A" and g: "\<forall>n b. grant n b \<longrightarrow> b + n \<le> 2 ^ 36" and nb: "unat nb < 2 ^ 31 - 31"
  shows "(\<exists>r s' F'. malloc grant nb s = Some (r, s') \<and> (\<forall>a \<in> A. hsize s' a = hsize s a) \<and>
       (if r = 0 then ustate s' F' A \<and> spans s' F' = spans s F \<and> ubrk s' = ubrk s
        else 16 \<le> r \<and> r - 16 \<notin> A \<and> ustate s' F' (insert (r - 16) A) \<and> r + unat nb \<le> blk_end s' (r - 16) \<and>
          ubrk s \<le> ubrk s' \<and> spans s' F' \<union> {r - 16..<blk_end s' (r - 16)} = spans s F \<union> {ubrk s..<ubrk s'})) \<and>
     (\<forall>b \<in> A. \<exists>s' F'. free (b + 16) s = Some s' \<and> ustate s' F' (A - {b}) \<and>
       (\<forall>a \<in> A - {b}. hsize s' a = hsize s a) \<and> spans s' F' = spans s F \<union> {b..<blk_end s b} \<and> ubrk s' = ubrk s)"
proof (intro conjI ballI)
  let ?n = "nunits_of nb" and ?i = "init_list s"
  obtain F1 where i: "uheap ?i F1 A" "spans ?i F1 = spans s F" using init_list_ok(1) [OF h] by blast
  note k = init_list_ok(2-4) [OF h] and n = nunits_of_unat [of nb]
  have "16 * unat ?n < 2 ^ 31" using nb unfolding n(1) by simp
  from malloc_heap_ok [OF i(1) g n(2) this]
  show "\<exists>r s' F'. malloc grant nb s = Some (r, s') \<and> (\<forall>a \<in> A. hsize s' a = hsize s a) \<and>
       (if r = 0 then ustate s' F' A \<and> spans s' F' = spans s F \<and> ubrk s' = ubrk s
        else 16 \<le> r \<and> r - 16 \<notin> A \<and> ustate s' F' (insert (r - 16) A) \<and> r + unat nb \<le> blk_end s' (r - 16) \<and>
          ubrk s \<le> ubrk s' \<and> spans s' F' \<union> {r - 16..<blk_end s' (r - 16)} = spans s F \<union> {ubrk s..<ubrk s'})"
  proof
    assume "malloc_loop grant ?n (freep ?i) (hptr ?i (freep ?i)) ?i = Some (0, ?i)"
    then show ?thesis
      by (intro exI [of _ 0] exI [of _ ?i] exI [of _ F1]) (simp add: malloc_unfold i k ustate_def)
  next
    assume "\<exists>q s0 F0 s'. malloc_loop grant ?n (freep ?i) (hptr ?i (freep ?i)) ?i = Some (q + 16, s') \<and>
        grown ?i F1 A s0 F0 \<and> taken s0 F0 A ?n q s'"
    then obtain q s0 F0 s' F' where run: "malloc grant nb s = Some (q + 16, s')" and gr: "grown ?i F1 A s0 F0"
      and t: "taken s0 F0 A ?n q s'" "uheap s' F' (insert q A)" "spans s' F' \<union> {q..<q + 16 * unat ?n} = spans s0 F0"
      unfolding malloc_unfold taken_def by blast
    have e: "blk_end s' q = q + 16 * unat ?n" using t(1) by (simp add: taken_def blk_end_def)
    have room: "q + 16 + unat nb \<le> blk_end s' q" unfolding e n(1) by simp
    show ?thesis
      by (intro exI [of _ "q + 16"] exI [of _ s'] exI [of _ F'])
        (use run gr t room e i k in \<open>auto simp: grown_def taken_def ustate_def\<close>)
  qed
next
  fix b assume b: "b \<in> A"
  then have u: "uheap s F A" using h by (auto simp: ustate_def)
  let ?A = "A - {b}"
  have "uheap s F (insert b ?A)" using u b by (simp add: insert_absorb)
  from free_ok [OF this] obtain p where run: "free (b + 16) s = Some (free_link b p s)" and gap: "gap s F ?A p b" by blast
  have keep: "hsize (free_link b p s) a = hsize s a" if "a \<in> ?A" for a
    using free_link_fields(4) [of a p b s] that gap uheapD(6) [OF u] by (auto simp: gap_def)
  have "spans s (insert b F) = spans s F \<union> {b..<blk_end s b}" by (auto simp: spans_def)
  then show "\<exists>s' F'. free (b + 16) s = Some s' \<and> ustate s' F' ?A \<and>
       (\<forall>a \<in> ?A. hsize s' a = hsize s a) \<and> spans s' F' = spans s F \<union> {b..<blk_end s b} \<and> ubrk s' = ubrk s"
    using run link_ok [OF gap] link_spans [OF gap] keep free_link_fields(3) by (auto simp: ustate_def)
qed

text \<open>A program that has not allocated yet, on a kernel that gives up to 64 KB.\<close>

definition demo_heap :: umem where
  "demo_heap = \<lparr>hptr = (\<lambda>_. 0), hsize = (\<lambda>_. 0), freep = 0, base = 4096, ubrk = 8192\<rparr>"

lemma demo_malloc: "map_option fst (malloc (\<lambda>n b. n \<le> 65536 \<and> b \<le> 8192) 100 demo_heap) = Some 73616"
  by (simp add: malloc_def malloc_loop.simps morecore_def usbrk_def free_def free_scan.simps free_link_def
    malloc_take_def nunits_of_def demo_heap_def blk_end_def Let_def)

theorem malloc_free_contract_witness:
  "\<exists>s'. malloc (\<lambda>n b. n \<le> 65536 \<and> b \<le> 8192) 100 demo_heap = Some (73616, s') \<and> 73716 \<le> blk_end s' 73600"
proof -
  have "ustate demo_heap {} {}" by (simp add: ustate_def demo_heap_def)
  from malloc_free_contract [OF this, of "\<lambda>n b. n \<le> 65536 \<and> b \<le> 8192" 100] show ?thesis
    using demo_malloc by (auto split: if_splits)
qed


end
