(* ===== verification/Spec2Isabelle.thy ===== *)
theory Spec2Isabelle
  imports Vm_Props Sleep Utools Trap Pipe_Props Console_Props Log_Props Virtio_Props Syscall_Props Asm Boot Sched Sh Ucmds Umalloc
begin

text \<open>
  A verification development for xv6 on RISC-V as this repository has it, with the system calls
  \<open>trace\<close> and \<open>sysinfo\<close>: the kernel under \<^verbatim>\<open>src/kernel\<close> and the programs and library under
  \<^verbatim>\<open>src/user\<close>.

  \<^bold>\<open>The program and how its parts interact.\<close> A CPU starts in \<^verbatim>\<open>entry.S\<close>, \<^verbatim>\<open>start.c\<close> and \<^verbatim>\<open>main.c\<close>, which
  initialise the components and enter the scheduler. User code enters the kernel through
  \<^verbatim>\<open>trampoline.S\<close> and \<^verbatim>\<open>trap.c\<close>; \<^verbatim>\<open>syscall.c\<close> dispatches to \<^verbatim>\<open>sysproc.c\<close> and \<^verbatim>\<open>sysfile.c\<close>. Processes
  (\<^verbatim>\<open>proc.c\<close>) own page tables (\<^verbatim>\<open>vm.c\<close>) made of pages from \<^verbatim>\<open>kalloc.c\<close>, and open files (\<^verbatim>\<open>file.c\<close>), which
  are pipes (\<^verbatim>\<open>pipe.c\<close>), devices (\<^verbatim>\<open>console.c\<close>, \<^verbatim>\<open>uart.c\<close>) or inodes (\<^verbatim>\<open>fs.c\<close>). Inodes live in blocks, which
  pass through the log (\<^verbatim>\<open>log.c\<close>), the buffer cache (\<^verbatim>\<open>bio.c\<close>) and the disk driver
  (\<^verbatim>\<open>virtio_disk.c\<close>). Spinlocks (\<^verbatim>\<open>spinlock.c\<close>), sleep locks (\<^verbatim>\<open>sleeplock.c\<close>) and
  \<open>sleep\<close>/\<open>wakeup\<close> synchronise them.

  \<^bold>\<open>Style of the model.\<close> Theory \<open>Xv6_Prelude\<close> has the outcome of an operation (\<open>Ret\<close>, \<open>Panic\<close>, \<open>Blocked\<close>
  on a channel, \<open>Diverge\<close>), the state monad over it, byte-addressed memory, and the locale
  \<open>step_invariant\<close> for invariants of step relations. The kernel state is one record that each
  component extends: \<open>kmem\<close>, \<open>kvm\<close>, \<open>kproc\<close>, \<open>kbio\<close>, \<open>klog\<close>, \<open>kfs\<close>, \<open>kcons\<close>, \<open>kpipe\<close>, \<open>kfile\<close>, \<open>kvd\<close>,
  \<open>ktrap\<close>; operations are polymorphic in the extension, so a component runs unchanged inside the
  larger state. A section between \<open>acquire\<close> and \<open>release\<close> is one step; what interleaves inside the
  synchronisation code itself is modelled by step relations (\<open>sl_step\<close>, \<open>sw_step\<close>, \<open>sc_move\<close>, \<open>vd_step\<close>).
  Machine integers are words of their width wherever they can wrap.

  \<^bold>\<open>Theories and what they show.\<close>
  \<^item> \<open>Kstring\<close> (\<^verbatim>\<open>string.c\<close>), \<open>Memlayout\<close> (\<^verbatim>\<open>riscv.h\<close>, \<^verbatim>\<open>memlayout.h\<close>, \<^verbatim>\<open>param.h\<close>): memory routines as one store
    of bytes, arithmetic of pages.
  \<^item> \<open>Kalloc\<close>: the list threaded through free pages implements a set of free pages (locale
    \<open>page_allocator\<close>); \<open>kinit\<close> frees exactly the RAM; \<open>count_freemmem\<close> counts it.
  \<^item> \<open>Vm\<close> with \<open>Vm_Walk\<close>, \<open>Vm_Space\<close>, \<open>Vm_User\<close>, \<open>Vm_Copy\<close>, \<open>Vm_Props\<close>, \<open>Vm_Frame\<close>: three-level page tables;
    \<open>mappages\<close>, \<open>uvmalloc\<close> and \<open>uvmfree\<close> account for every page and translation, \<open>copyout\<close> and \<open>copyin\<close>
    are inverse.
  \<^item> \<open>Spinlock\<close>, \<open>Sleep\<close>, \<open>Sched\<close>: mutual exclusion, nesting of interrupt disabling, no lost wakeup, and
    that no two CPUs run one process, for any interleaving.
  \<^item> \<open>Bio\<close>, \<open>Bio_List\<close>, \<open>Bio_Props\<close>: the cache is transparent and its list is a recency order (locale
    \<open>block_cache\<close>); \<open>Log\<close>, \<open>Log_Props\<close>: a commit is atomic whatever disk write the machine stops after,
    absorption, and how many blocks may be reserved.
  \<^item> \<open>Virtio\<close>, \<open>Virtio_Props\<close>: requests complete under any order of completion by the device.
  \<^item> \<open>Ring\<close>: rings with free-running indices are queues (locale \<open>ring\<close>), used by \<open>Pipe_Props\<close> (\<open>Pipe\<close>),
    \<open>Console_Props\<close> (\<open>Console\<close>) and \<open>Virtio_Props\<close>.
  \<^item> \<open>Fs\<close>, \<open>File\<close>, \<open>Sysfile\<close>, \<open>Exec\<close>, \<open>Proc\<close>, \<open>Proc_Life\<close>, \<open>Trap\<close>: the file system, open files, file calls,
    \<open>exec\<close>, processes, process calls, dispatch and traps as definitions, the state on which \<open>Demo\<close>
    instantiates properties; \<open>Syscall_Props\<close>: dispatch, tracing and \<open>sysinfo\<close>.
  \<^item> \<open>Asm\<close>, \<open>Boot\<close>: the assembly instruction by instruction, with round trips of the saved registers; the
    registers set on the way to \<open>main\<close>.
  \<^item> \<open>Kprintf\<close>, \<open>Ulib\<close>, \<open>Utools\<close>, \<open>Umalloc\<close>, \<open>Uprog\<close>, \<open>Sh\<close>, \<open>Ucmds\<close>: both \<open>printf\<close>s, the user library, \<open>grep\<close> and
    \<open>wc\<close>, the user allocator, programs as trees of system calls, the shell and the small programs.

  \<^bold>\<open>Bounds and fuel.\<close> Loops over address ranges carry as fuel the number of pages they can visit; the
  lemmas of \<open>Vm_Walk\<close>, \<open>Vm_Space\<close>, \<open>Vm_User\<close> and \<open>Kalloc\<close> prove that \<open>mappages\<close>, \<open>uvmunmap\<close>, \<open>uvmalloc\<close>, \<open>uvmfree\<close> and
  \<open>freerange\<close> return, so it is enough; \<open>uvmcopy\<close> has one unit per page of the parent.
  \<open>freewalk\<close> goes two levels below the root, the depth of a page table. The scan of the buffer
  list is bounded by the length of the list (property on recency). \<open>free_chain\<close> has \<open>NUM + 1\<close>: freeing a
  descriptor twice panics first. The parser of the shell has four calls per character, enough by the property
  on \<open>parsecmd\<close>. \<open>count_freemmem\<close>, the C string functions and the loops of \<open>malloc\<close> and \<open>free\<close> are partial
  functions; for \<open>count_freemmem\<close>, \<open>malloc\<close> and \<open>free\<close> it is proved that they return. Programs in
  \<open>Ucmds\<close> and \<open>Sh\<close> bound only loops whose number of turns the system decides; \<open>Out_of_fuel\<close> marks a run
  cut there.

  \<^bold>\<open>Hypotheses about code that is not here.\<close> The RISC-V hardware, the UART and the disk device are arguments
  or steps with their documented behaviour; \<open>malloc\<close> takes as an argument whether the kernel grants
  memory, and assumes that it never grants a break above $2^{36}$, far above the 128 MB of RAM.

  \<^bold>\<open>Not modelled.\<close> The file-system image builder \<^verbatim>\<open>mkfs/mkfs.c\<close> (host file I/O); the test programs
  \<^verbatim>\<open>usertests.c\<close>, \<^verbatim>\<open>grind.c\<close>, \<^verbatim>\<open>stressfs.c\<close>, \<^verbatim>\<open>forktest.c\<close> (clients that promise nothing themselves);
  prototypes (\<^verbatim>\<open>defs.h\<close>, \<^verbatim>\<open>user.h\<close>, \<^verbatim>\<open>types.h\<close>), linker scripts and the generated stubs of \<^verbatim>\<open>usys.pl\<close>;
  \<open>main\<close> of \<open>grep\<close> and \<open>wc\<close>, which only opens files; weak memory ordering, since the fences of the locks
  order the accesses they protect; and page faults of user programs. For the file system, \<open>fork\<close>, \<open>exec\<close>
  and \<open>exit\<close> the operations are defined and executable, but no property of them is stated here.
\<close>

end
